(* ===== verification/Prelude.thy ===== *)
theory Prelude
  imports Main "HOL-Library.Word"
begin

text \<open>
  Shared vocabulary of the development: names for the machine integers the Rust sources use,
  the three-valued \<open>std::cmp::Ordering\<close>, saturating and checked arithmetic, big-endian byte
  conversion, and a stable comparator sort.  The generic lemmas proved here are either simp
  rules or members of the collections \<open>word_arith\<close> and \<open>codec\<close>.
\<close>

named_theorems word_arith \<open>bounds and exactness of fixed-width arithmetic\<close>
named_theorems codec \<open>encode and decode laws of the byte-level primitives\<close>

section \<open>Machine integers\<close>

type_synonym u8 = "8 word"
type_synonym u16 = "16 word"
type_synonym u32 = "32 word"
type_synonym u64 = "64 word"
type_synonym bytes = "8 word list"

text \<open>\<open>std::cmp::Ordering\<close>.\<close>

datatype ordering = Less | Equal | Greater

definition compare_of :: "'a::linorder \<Rightarrow> 'a \<Rightarrow> ordering" where
  "compare_of a b = (if a < b then Less else if b < a then Greater else Equal)"

lemma compare_of_simps [simp]:
  "compare_of a b = Less \<longleftrightarrow> a < b"
  "compare_of a b = Greater \<longleftrightarrow> b < a"
  "compare_of a b = Equal \<longleftrightarrow> a = b"
  by (auto simp: compare_of_def)

text \<open>\<open>Ordering::then_with\<close>.\<close>

fun then_with :: "ordering \<Rightarrow> ordering \<Rightarrow> ordering" where
  "then_with Equal o2 = o2"
| "then_with o1 _ = o1"

section \<open>Saturating and checked arithmetic\<close>

definition saturating_add :: "'a::len word \<Rightarrow> 'a word \<Rightarrow> 'a word" where
  "saturating_add a b = (if unat a + unat b < 2 ^ LENGTH('a) then a + b else - 1)"

definition saturating_sub :: "'a::len word \<Rightarrow> 'a word \<Rightarrow> 'a word" where
  "saturating_sub a b = (if b \<le> a then a - b else 0)"

definition checked_add :: "'a::len word \<Rightarrow> 'a word \<Rightarrow> 'a word option" where
  "checked_add a b = (if unat a + unat b < 2 ^ LENGTH('a) then Some (a + b) else None)"

lemma unat_add_exact [word_arith]:
  fixes a b :: "'a::len word"
  assumes "unat a + unat b < 2 ^ LENGTH('a)"
  shows "unat (a + b) = unat a + unat b"
  using assms by (simp add: unat_word_ariths)

lemma unat_of_nat_small [word_arith]: "n < 2 ^ LENGTH('a) \<Longrightarrow> unat (of_nat n :: 'a::len word) = n"
  by (simp add: unat_of_nat take_bit_nat_eq_self)

lemma unat_saturating_add [word_arith]:
  fixes a b :: "'a::len word"
  shows "unat (saturating_add a b) = min (unat a + unat b) (2 ^ LENGTH('a) - 1)"
  proof (cases "unat a + unat b < 2 ^ LENGTH('a)")
  case True
  then show ?thesis by (auto simp: saturating_add_def unat_add_exact min_def)
next
  case False
  then have "unat (saturating_add a b) = unat (- 1 :: 'a word)" by (simp add: saturating_add_def)
  also have "\<dots> = 2 ^ LENGTH('a) - 1" by (simp add: unsigned_minus_1_eq_mask mask_eq_exp_minus_1)
  finally show ?thesis using False by (simp add: min_absorb2)
qed

lemma unat_saturating_sub [word_arith]:
  "unat (saturating_sub a b) = unat a - unat b"
  by (auto simp: saturating_sub_def word_le_nat_alt unat_sub_if')

lemma checked_add_Some [word_arith]:
  fixes a b c :: "'a::len word"
  assumes "checked_add a b = Some c"
  shows "unat c = unat a + unat b"
  using assms by (auto simp: checked_add_def unat_add_exact split: if_splits)

lemma checked_add_None:
  fixes a b :: "'a::len word"
  shows "checked_add a b = None \<longleftrightarrow> 2 ^ LENGTH('a) \<le> unat a + unat b"
  by (auto simp: checked_add_def)

lemma checked_add_1_less:
  fixes a c :: "'a::len word"
  assumes "checked_add a 1 = Some c"
  shows "a < c"
proof -
  have "unat (1 :: 'a word) = 1" by simp
  with checked_add_Some [OF assms] show ?thesis by (simp add: word_less_nat_alt)
qed

lemma saturating_add_1_less: "x < - 1 \<Longrightarrow> x < saturating_add x (1 :: 'a::len word)"
proof -
  assume "x < - 1"
  then have "unat x < unat (- 1 :: 'a word)" by (simp add: word_less_nat_alt)
  moreover have "unat (1 :: 'a word) \<le> 1" by (cases "LENGTH('a) = 1") auto
  moreover have "unat (1 :: 'a word) \<noteq> 0" by simp
  ultimately have "unat x < unat (saturating_add x (1 :: 'a word))"
    by (simp add: unat_saturating_add unsigned_minus_1_eq_mask mask_eq_exp_minus_1)
  then show ?thesis by (simp add: word_less_nat_alt)
qed

section \<open>Big-endian bytes\<close>

text \<open>\<open>to_be_bytes\<close> of an integer occupying \<open>n\<close> bytes, and \<open>from_be_bytes\<close>.\<close>

primrec be_bytes :: "nat \<Rightarrow> nat \<Rightarrow> bytes" where
  "be_bytes 0 x = []"
| "be_bytes (Suc n) x = of_nat (x div 256 ^ n) # be_bytes n (x mod 256 ^ n)"

primrec be_val :: "bytes \<Rightarrow> nat" where
  "be_val [] = 0"
| "be_val (b # bs) = unat b * 256 ^ length bs + be_val bs"

lemma length_be_bytes [simp]: "length (be_bytes n x) = n"
  by (induction n arbitrary: x) auto

lemma be_val_bound: "be_val bs < 256 ^ length bs"
proof (induction bs)
  case Nil
  show ?case by simp
next
  case (Cons b bs)
  have "unat b < 2 ^ 8" using unsigned_less [where ?'a = nat and w = b] by simp
  then have "unat b + 1 \<le> 256" by simp
  then have "(unat b + 1) * 256 ^ length bs \<le> 256 * 256 ^ length bs"
    by (rule mult_le_mono1)
  then have "unat b * 256 ^ length bs + 256 ^ length bs \<le> 256 ^ length (b # bs)"
    by (simp add: algebra_simps)
  with Cons.IH show ?case by (simp only: be_val.simps)
qed

lemma be_val_be_bytes [codec]: "x < 256 ^ n \<Longrightarrow> be_val (be_bytes n x) = x"
proof (induction n arbitrary: x)
  case 0
  then show ?case by simp
next
  case (Suc n)
  from Suc.prems have "x div 256 ^ n < 256"
    by (simp add: less_mult_imp_div_less)
  moreover from this have "unat (of_nat (x div 256 ^ n) :: u8) = x div 256 ^ n"
    by (simp add: unat_of_nat)
  ultimately show ?case using Suc.IH [of "x mod 256 ^ n"] by (simp add: div_mult_mod_eq)
qed

lemma be_bytes_be_val [codec]: "be_bytes (length bs) (be_val bs) = bs"
proof (induction bs)
  case Nil
  show ?case by simp
next
  case (Cons b bs)
  have lt: "be_val bs < 256 ^ length bs" by (rule be_val_bound)
  then have "(unat b * 256 ^ length bs + be_val bs) div 256 ^ length bs = unat b"
    by simp
  moreover from lt have "(unat b * 256 ^ length bs + be_val bs) mod 256 ^ length bs = be_val bs"
    by simp
  ultimately show ?case using Cons.IH by (simp add: lt)
qed

abbreviation u32_to_be :: "u32 \<Rightarrow> bytes" where
  "u32_to_be w \<equiv> be_bytes 4 (unat w)"

abbreviation u64_to_be :: "u64 \<Rightarrow> bytes" where
  "u64_to_be w \<equiv> be_bytes 8 (unat w)"

abbreviation u32_from_be :: "bytes \<Rightarrow> u32" where
  "u32_from_be bs \<equiv> of_nat (be_val bs)"

abbreviation u64_from_be :: "bytes \<Rightarrow> u64" where
  "u64_from_be bs \<equiv> of_nat (be_val bs)"

lemma u32_be_roundtrip [codec, simp]: "u32_from_be (u32_to_be w) = w"
proof -
  have "unat w < 256 ^ 4" using unsigned_less [where ?'a = nat and w = w] by simp
  then show ?thesis by (simp add: be_val_be_bytes del: be_bytes.simps)
qed

lemma u64_be_roundtrip [codec, simp]: "u64_from_be (u64_to_be w) = w"
proof -
  have "unat w < 256 ^ 8" using unsigned_less [where ?'a = nat and w = w] by simp
  then show ?thesis by (simp add: be_val_be_bytes del: be_bytes.simps)
qed

text \<open>Little-endian conversion is the same in the opposite byte order.\<close>

definition le_bytes :: "nat \<Rightarrow> nat \<Rightarrow> bytes" where
  "le_bytes n x = rev (be_bytes n x)"

definition le_val :: "bytes \<Rightarrow> nat" where
  "le_val bs = be_val (rev bs)"

lemma length_le_bytes [simp]: "length (le_bytes n x) = n"
  by (simp add: le_bytes_def)

lemma le_val_le_bytes [codec]: "x < 256 ^ n \<Longrightarrow> le_val (le_bytes n x) = x"
  by (simp add: le_bytes_def le_val_def be_val_be_bytes)

lemma le_val_bound: "le_val bs < 256 ^ length bs"
  using be_val_bound [of "rev bs"] by (simp add: le_val_def)

section \<open>Stable sort by a comparator\<close>

text \<open>
  \<open>slice::sort_by\<close> is a stable sort.  For a comparator that is induced by a key into a linear
  order, stability and sortedness determine the result, and insertion from the right computes it.
\<close>

fun insert_by :: "('a \<Rightarrow> 'a \<Rightarrow> ordering) \<Rightarrow> 'a \<Rightarrow> 'a list \<Rightarrow> 'a list" where
  "insert_by c x [] = [x]"
| "insert_by c x (y # ys) = (if c y x = Less then y # insert_by c x ys else x # y # ys)"

definition sort_by :: "('a \<Rightarrow> 'a \<Rightarrow> ordering) \<Rightarrow> 'a list \<Rightarrow> 'a list" where
  "sort_by c xs = foldr (insert_by c) xs []"

lemma insert_by_key: "insert_by (\<lambda>a b. compare_of (f a) (f b)) x xs = insort_key f x xs"
  by (induction xs) auto

lemma sort_by_key: "sort_by (\<lambda>a b. compare_of (f a) (f b)) xs = sort_key f xs"
  unfolding sort_by_def sort_key_def
  by (induction xs) (simp_all add: insert_by_key)

section \<open>Lists and options\<close>

text \<open>\<open>Iterator::position\<close>.\<close>

fun position :: "('a \<Rightarrow> bool) \<Rightarrow> 'a list \<Rightarrow> nat option" where
  "position p [] = None"
| "position p (x # xs) = (if p x then Some 0 else map_option Suc (position p xs))"

lemma position_Some:
  "position p xs = Some i \<Longrightarrow> i < length xs \<and> p (xs ! i) \<and> (\<forall>j < i. \<not> p (xs ! j))"
proof (induction xs arbitrary: i)
  case Nil
  then show ?case by simp
next
  case (Cons x xs)
  show ?case
  proof (cases "p x")
    case True
    with Cons.prems show ?thesis by simp
  next
    case False
    with Cons.prems obtain k where "position p xs = Some k" and i: "i = Suc k" by auto
    with Cons.IH [of k] have "k < length xs" "p (xs ! k)" "\<forall>j < k. \<not> p (xs ! j)" by auto
    with False i show ?thesis by (auto simp: nth_Cons split: nat.splits)
  qed
qed

lemma position_None: "position p xs = None \<longleftrightarrow> (\<forall>x \<in> set xs. \<not> p x)"
  by (induction xs) auto

section \<open>Slices and cursors\<close>

text \<open>
  \<open>&b[i..j]\<close> for indices in range, \<open>usize::checked_add\<close> on a 64-bit target, and
  \<open>u32::try_from(len).unwrap_or(u32::MAX)\<close>.
\<close>

definition slice :: "'a list \<Rightarrow> nat \<Rightarrow> nat \<Rightarrow> 'a list" where
  "slice b i j = take (j - i) (drop i b)"

definition usize_add :: "nat \<Rightarrow> nat \<Rightarrow> nat option" where
  "usize_add a b = (if a + b < 2 ^ 64 then Some (a + b) else None)"

definition u32_of_len :: "nat \<Rightarrow> u32" where
  "u32_of_len n = (if n < 2 ^ 32 then of_nat n else - 1)"

lemma slice_mid [simp]: "slice (pre @ xs @ post) (length pre) (length pre + length xs) = xs"
  by (simp add: slice_def)

lemma slice_mid' [simp]: "n = length pre + length xs \<Longrightarrow> slice (pre @ xs @ post) (length pre) n = xs"
  by (simp add: slice_def)

lemma usize_add_Some [simp]: "a + b < 2 ^ 64 \<Longrightarrow> usize_add a b = Some (a + b)"
  by (simp add: usize_add_def)

lemma unat_u32_of_len [simp]: "n < 2 ^ 32 \<Longrightarrow> unat (u32_of_len n) = n"
  by (simp add: u32_of_len_def unat_of_nat)

end
