(* ===== verification/Apl.thy ===== *)
theory Apl
  imports Prelude "HOL-Library.Product_Lexorder"
begin

text \<open>
  Annotated preference lists: \<open>crates/dynomite/src/cluster/apl.rs\<close>.  The ring is walked forward from
  the key's token; the first \<open>n\<close> distinct peers are the canonical owners, and further live peers stand
  in for those that are down.  The standard library's binary search is a parameter, since among equal
  tokens it may return any match; \<open>search_ok\<close> is its documented behaviour.
\<close>

datatype node_role = Primary | Fallback

record annotated_peer =
  an_peer_id :: u32
  an_vnode :: u32
  an_role :: node_role

record ring_point =
  rp_token :: u64
  rp_peer_id :: u32

record cluster_state =
  cs_ring :: "ring_point list"
  cs_alive :: "u32 set"

definition ring_point_cmp :: "ring_point \<Rightarrow> ring_point \<Rightarrow> ordering" where
  "ring_point_cmp a b = then_with (compare_of (rp_token a) (rp_token b)) (compare_of (rp_peer_id a) (rp_peer_id b))"

definition cluster_state_new :: "ring_point list \<Rightarrow> u32 set \<Rightarrow> cluster_state" where
  "cluster_state_new ring alive = \<lparr>cs_ring = sort_by ring_point_cmp ring, cs_alive = alive\<rparr>"

definition cs_is_alive :: "cluster_state \<Rightarrow> u32 \<Rightarrow> bool" where
  "cs_is_alive c p \<longleftrightarrow> p \<in> cs_alive c"

text \<open>\<open>Ok\<close> is on the right.  \<open>search\<close> is \<open>binary_search_by_key\<close> over the tokens.\<close>

type_synonym token_search = "ring_point list \<Rightarrow> u64 \<Rightarrow> nat + nat"

definition primary_index :: "token_search \<Rightarrow> ring_point list \<Rightarrow> u64 \<Rightarrow> nat" where
  "primary_index search ring key =
     (case search ring key of Inr i \<Rightarrow> i | Inl i \<Rightarrow> if i \<ge> length ring then 0 else i)"

text \<open>One turn of the walk: the peer at the position, unless it has been met before.\<close>

definition visit :: "ring_point list \<Rightarrow> nat \<Rightarrow> nat \<Rightarrow> (u32 \<times> u32) list \<Rightarrow> (u32 \<times> u32) list" where
  "visit ring start step out =
     (let idx = (start + step) mod length ring;
          pid = rp_peer_id (ring ! idx)
      in if pid \<in> set (map snd out) then out else out @ [(u32_of_len idx, pid)])"

fun walk_n :: "ring_point list \<Rightarrow> nat \<Rightarrow> nat \<Rightarrow> nat list \<Rightarrow> (u32 \<times> u32) list \<Rightarrow> (u32 \<times> u32) list" where
  "walk_n ring start n [] out = out"
| "walk_n ring start n (step # steps) out =
     (if length out \<ge> n then out else walk_n ring start n steps (visit ring start step out))"

definition walk_n_successors :: "token_search \<Rightarrow> cluster_state \<Rightarrow> u64 \<Rightarrow> nat \<Rightarrow> (u32 \<times> u32) list" where
  "walk_n_successors search c key n =
     (let ring = cs_ring c in
      if ring = [] \<or> n = 0 then []
      else walk_n ring (primary_index search ring key) n [0..<length ring] [])"

definition full_walk :: "ring_point list \<Rightarrow> nat \<Rightarrow> (u32 \<times> u32) list" where
  "full_walk ring start = fold (visit ring start) [0..<length ring] []"

text \<open>
  The inner loop over the tail of the walk, of which \<open>tail\<close> is what \<open>next_fallback\<close> has not passed
  yet, and the loop over the canonical slots.
\<close>

fun next_alive ::
  "cluster_state \<Rightarrow> annotated_peer list \<Rightarrow> (u32 \<times> u32) list \<Rightarrow> (u32 \<times> u32) option \<times> (u32 \<times> u32) list"
where
  "next_alive c res [] = (None, [])"
| "next_alive c res ((v, p) # tail) =
     (if \<not> cs_is_alive c p then next_alive c res tail
      else if p \<in> set (map an_peer_id res) then next_alive c res tail
      else (Some (v, p), tail))"

fun apl_slots ::
  "cluster_state \<Rightarrow> (u32 \<times> u32) list \<Rightarrow> (u32 \<times> u32) list \<Rightarrow> annotated_peer list \<Rightarrow> annotated_peer list"
where
  "apl_slots c [] tail res = res"
| "apl_slots c ((v, p) # slots) tail res =
     (if cs_is_alive c p then
        apl_slots c slots tail (res @ [\<lparr>an_peer_id = p, an_vnode = v, an_role = Primary\<rparr>])
      else case next_alive c res tail of
        (Some (fv, fp), tail) \<Rightarrow>
          apl_slots c slots tail (res @ [\<lparr>an_peer_id = fp, an_vnode = fv, an_role = Fallback\<rparr>])
      | (None, tail) \<Rightarrow> apl_slots c slots tail res)"

definition get_apl_ann :: "token_search \<Rightarrow> cluster_state \<Rightarrow> u64 \<Rightarrow> nat \<Rightarrow> annotated_peer list" where
  "get_apl_ann search c key n =
     (let ring = cs_ring c in
      if ring = [] \<or> n = 0 then []
      else
        let walk = full_walk ring (primary_index search ring key);
            canonical_len = min (length walk) n
        in apl_slots c (take canonical_len walk) (drop canonical_len walk) [])"

definition primaries :: "annotated_peer list \<Rightarrow> annotated_peer list" where
  "primaries apl = filter (\<lambda>p. an_role p = Primary) apl"

definition fallbacks :: "annotated_peer list \<Rightarrow> annotated_peer list" where
  "fallbacks apl = filter (\<lambda>p. an_role p = Fallback) apl"

section \<open>The walk\<close>

text \<open>The first occurrences of a list, in order.\<close>

definition firsts :: "'a list \<Rightarrow> 'a list" where
  "firsts xs = rev (remdups (rev xs))"

lemma firsts_append1: "firsts (xs @ [x]) = (if x \<in> set xs then firsts xs else firsts xs @ [x])"
  by (simp add: firsts_def)

lemma distinct_firsts [simp]: "distinct (firsts xs)" and set_firsts [simp]: "set (firsts xs) = set xs"
  by (simp_all add: firsts_def)

lemma visit_peers:
  "map snd (visit ring start s out) =
   (let pid = rp_peer_id (ring ! ((start + s) mod length ring))
    in if pid \<in> set (map snd out) then map snd out else map snd out @ [pid])"
  by (simp add: visit_def Let_def)

lemma walk_firsts:
  "map snd (fold (visit ring start) steps []) =
   firsts (map (\<lambda>s. rp_peer_id (ring ! ((start + s) mod length ring))) steps)"
proof (induction steps rule: rev_induct)
  case Nil
  then show ?case by (simp add: firsts_def)
next
  case (snoc s steps)
  then show ?case by (simp add: visit_peers Let_def firsts_append1 del: set_map)
qed

lemma full_walk_peers: "ring \<noteq> [] \<Longrightarrow> map snd (full_walk ring start) = firsts (map rp_peer_id (rotate start ring))"
proof -
  assume "ring \<noteq> []"
  then have "map (\<lambda>s. rp_peer_id (ring ! ((start + s) mod length ring))) [0..<length ring] = map rp_peer_id (rotate start ring)"
    by (intro nth_equalityI) (simp_all add: nth_rotate)
  then show ?thesis by (simp add: full_walk_def walk_firsts)
qed

lemma visit_extends: "\<exists>ys. fold (visit ring start) steps out = out @ ys"
proof (induction steps arbitrary: out)
  case (Cons s steps)
  have "\<exists>xs. visit ring start s out = out @ xs" by (simp add: visit_def Let_def)
  then obtain xs where "visit ring start s out = out @ xs" ..
  with Cons.IH [of "out @ xs"] show ?case by auto
qed simp

lemma walk_n_take: "length out \<le> n \<Longrightarrow> walk_n ring start n steps out = take n (fold (visit ring start) steps out)"
proof (induction steps arbitrary: out)
  case (Cons s steps)
  show ?case
  proof (cases "length out \<ge> n")
    case True
    with Cons.prems have "length out = n" by simp
    with visit_extends [of ring start "s # steps" out] True show ?thesis by auto
  next
    case False
    then have "length (visit ring start s out) \<le> n" by (simp add: visit_def Let_def)
    with Cons.IH False show ?thesis by simp
  qed
qed simp

section \<open>The slots\<close>

lemma next_alive_None:
  assumes "set (map an_peer_id res) \<inter> snd ` set tail = {}" and "next_alive c res tail = (None, t)"
  shows "filter (\<lambda>x. cs_is_alive c (snd x)) tail = [] \<and> t = []"
  using assms
proof (induction tail)
  case (Cons x tail)
  then show ?case by (cases x) (auto split: if_splits)
qed simp

lemma next_alive_Some:
  assumes "set (map an_peer_id res) \<inter> snd ` set tail = {}" and "next_alive c res tail = (Some f, t)"
  shows "\<exists>pre. tail = pre @ f # t \<and> (\<forall>x \<in> set pre. \<not> cs_is_alive c (snd x)) \<and> cs_is_alive c (snd f)"
  using assms
proof (induction tail)
  case (Cons x tail)
  obtain v p where x: "x = (v, p)" by (cases x)
  show ?case
  proof (cases "cs_is_alive c p")
    case True
    with Cons.prems show ?thesis by (intro exI [of _ "[]"]) (auto simp: x split: if_splits)
  next
    case False
    then have "next_alive c res tail = (Some f, t)" using Cons.prems(2) by (simp add: x)
    with Cons obtain pre where "tail = pre @ f # t" "\<forall>x \<in> set pre. \<not> cs_is_alive c (snd x)" "cs_is_alive c (snd f)"
      by auto
    with False show ?thesis by (intro exI [of _ "x # pre"]) (simp add: x)
  qed
qed simp

lemma apl_slots_correct:
  assumes "distinct (map an_peer_id res @ map snd slots @ map snd tail)"
  shows "map an_peer_id (primaries (apl_slots c slots tail res)) =
        map an_peer_id (primaries res) @ filter (cs_is_alive c) (map snd slots)
    \<and> map an_peer_id (fallbacks (apl_slots c slots tail res)) =
        map an_peer_id (fallbacks res)
        @ take (length (filter (\<lambda>p. \<not> cs_is_alive c p) (map snd slots))) (filter (cs_is_alive c) (map snd tail))
    \<and> distinct (map an_peer_id (apl_slots c slots tail res))"
  using assms
proof (induction slots arbitrary: tail res)
  case (Cons x slots)
  obtain v p where x: "x = (v, p)" by (cases x)
  show ?case
  proof (cases "cs_is_alive c p")
    case True
    with Cons.IH [of "res @ [\<lparr>an_peer_id = p, an_vnode = v, an_role = Primary\<rparr>]" tail] Cons.prems
    show ?thesis by (auto simp: x primaries_def fallbacks_def)
  next
    case False
    have d: "set (map an_peer_id res) \<inter> snd ` set tail = {}" using Cons.prems by auto
    obtain f t where n: "next_alive c res tail = (f, t)" by (cases "next_alive c res tail")
    show ?thesis
    proof (cases f)
      case None
      have t: "filter (\<lambda>x. cs_is_alive c (snd x)) tail = []" "t = []"
        using next_alive_None [OF d] n None by simp_all
      have "distinct (map an_peer_id res @ map snd slots @ map snd t)" using Cons.prems t by auto
      from Cons.IH [OF this] t show ?thesis by (simp add: x False n None filter_map comp_def)
    next
      case (Some g)
      obtain fv fp where g: "g = (fv, fp)" by (cases g)
      obtain pre where t: "tail = pre @ (fv, fp) # t" "\<forall>x \<in> set pre. \<not> cs_is_alive c (snd x)"
          "cs_is_alive c (snd (fv, fp))"
        by (rule exE [OF next_alive_Some [OF d n [unfolded Some g]]]) (elim conjE)
      have ft: "filter (cs_is_alive c) (map snd tail) = fp # filter (cs_is_alive c) (map snd t)"
        using t by (simp add: g filter_map comp_def)
      let ?res = "res @ [\<lparr>an_peer_id = fp, an_vnode = fv, an_role = Fallback\<rparr>]"
      have "distinct (map an_peer_id ?res @ map snd slots @ map snd t)" using Cons.prems by (auto simp: t(1) g)
      from Cons.IH [OF this] show ?thesis
        by (simp add: x False n Some g ft primaries_def fallbacks_def)
    qed
  qed
qed simp

section \<open>Properties\<close>

definition search_ok :: "token_search \<Rightarrow> ring_point list \<Rightarrow> u64 \<Rightarrow> bool" where
  "search_ok search ring key =
     (case search ring key of
        Inr i \<Rightarrow> i < length ring \<and> rp_token (ring ! i) = key
      | Inl i \<Rightarrow> i \<le> length ring \<and> (\<forall>j < i. rp_token (ring ! j) < key) \<and> (\<forall>j < length ring. i \<le> j \<longrightarrow> key < rp_token (ring ! j)))"

lemma ring_point_cmp_key:
  "ring_point_cmp = (\<lambda>a b. compare_of (rp_token a, rp_peer_id a) (rp_token b, rp_peer_id b))"
  by (auto simp: ring_point_cmp_def compare_of_def fun_eq_iff)

lemma cluster_ring: "cs_ring (cluster_state_new ring alive) = sort_key (\<lambda>p. (rp_token p, rp_peer_id p)) ring"
  unfolding cluster_state_new_def ring_point_cmp_key by (simp add: sort_by_key)

lemma cluster_ring_sorted: "sorted (map rp_token (cs_ring (cluster_state_new ring alive)))"
proof -
  have "sorted (map (\<lambda>p. (rp_token p, rp_peer_id p)) (cs_ring (cluster_state_new ring alive)))"
    by (simp add: cluster_ring)
  then show ?thesis unfolding sorted_map by (rule sorted_wrt_mono_rel [rotated]) auto
qed

lemma primary_index_owner:
  assumes "search_ok search ring key" and "sorted (map rp_token ring)" and "ring \<noteq> []"
  shows "primary_index search ring key < length ring
    \<and> (if \<exists>q \<in> set ring. key \<le> rp_token q
       then key \<le> rp_token (ring ! primary_index search ring key)
         \<and> (\<forall>q \<in> set ring. key \<le> rp_token q \<longrightarrow> rp_token (ring ! primary_index search ring key) \<le> rp_token q)
       else primary_index search ring key = 0)"
proof (cases "search ring key")
  case (Inr i)
  with assms(1) show ?thesis by (auto simp: primary_index_def search_ok_def)
next
  case (Inl i)
  with assms(1) have i: "i \<le> length ring" "\<forall>j < i. rp_token (ring ! j) < key"
    "\<forall>j < length ring. i \<le> j \<longrightarrow> key < rp_token (ring ! j)" by (simp_all add: search_ok_def)
  show ?thesis
  proof (cases "i = length ring")
    case True
    then have "\<not> (\<exists>q \<in> set ring. key \<le> rp_token q)" using i(2) by (auto simp: in_set_conv_nth not_le)
    with True Inl assms(3) show ?thesis by (simp add: primary_index_def)
  next
    case False
    with i(1) have lt: "i < length ring" by simp
    then have pi: "primary_index search ring key = i" by (simp add: primary_index_def Inl)
    have "rp_token (ring ! i) \<le> rp_token (ring ! j)" if "j < length ring" "key \<le> rp_token (ring ! j)" for j
    proof -
      have "i \<le> j" using that i(2) by (meson not_le)
      then show ?thesis using sorted_nth_mono [OF assms(2), of i j] that(1) by simp
    qed
    moreover have "key \<le> rp_token (ring ! i)" using i(3) lt by (simp add: less_imp_le)
    moreover from this lt have "\<exists>q \<in> set ring. key \<le> rp_token q" by (meson nth_mem)
    ultimately show ?thesis using lt by (auto simp: pi in_set_conv_nth)
  qed
qed

lemma roles_split: "length apl = length (primaries apl) + length (fallbacks apl)"
proof (induction apl)
  case (Cons q apl)
  then show ?case by (cases "an_role q") (simp_all add: primaries_def fallbacks_def)
qed (simp add: primaries_def fallbacks_def)

lemma length_filter_split:
  "length (filter P xs) = length (filter P (take n xs)) + length (filter P (drop n xs))"
  "length (filter P (take n xs)) + length (filter (\<lambda>x. \<not> P x) (take n xs)) = min (length xs) n"
  using sum_length_filter_compl [of P "take n xs"] by (simp_all flip: length_append filter_append)

text \<open>The distinct peers of a ring in the order in which the walk for a key meets them.\<close>

definition walk_order :: "token_search \<Rightarrow> cluster_state \<Rightarrow> u64 \<Rightarrow> u32 list" where
  "walk_order search c key = firsts (map rp_peer_id (rotate (primary_index search (cs_ring c) key) (cs_ring c)))"

text \<open>
  C13. The annotated preference list is the one documented.  The walk starts at the least token not
  below the key's, or at the first point when there is none.  The primaries are the live ones among
  the first \<open>n\<close> distinct peers of the walk; the fallbacks are the next live peers of the walk, as many
  as there are owners down, as far as they go.  No peer appears twice, and the list is as long as the
  number of live peers allows, at most \<open>n\<close>.
\<close>

theorem apl_correct:
  assumes "c = cluster_state_new ring alive" and "ring \<noteq> []" and "0 < n"
    and "search_ok search (cs_ring c) key"
  shows "let walk = walk_order search c key; apl = get_apl_ann search c key n;
      down = length (filter (\<lambda>p. p \<notin> alive) (take n walk)); start = cs_ring c ! primary_index search (cs_ring c) key
    in map an_peer_id (primaries apl) = filter (\<lambda>p. p \<in> alive) (take n walk)
     \<and> map an_peer_id (fallbacks apl) = take down (filter (\<lambda>p. p \<in> alive) (drop n walk))
     \<and> distinct (map an_peer_id apl)
     \<and> length apl = min (min n (length walk)) (length (filter (\<lambda>p. p \<in> alive) walk))
     \<and> map snd (walk_n_successors search c key n) = take n walk
     \<and> (if \<exists>q \<in> set ring. key \<le> rp_token q
        then key \<le> rp_token start \<and> (\<forall>q \<in> set ring. key \<le> rp_token q \<longrightarrow> rp_token start \<le> rp_token q)
        else primary_index search (cs_ring c) key = 0)"
proof -
  let ?r = "cs_ring c" and ?walk = "walk_order search c key" and ?apl = "get_apl_ann search c key n" and ?start = "cs_ring c ! primary_index search (cs_ring c) key"
  let ?w = "full_walk ?r (primary_index search ?r key)"
  have set_r: "set ?r = set ring" by (simp add: assms(1) cluster_ring)
  then have ne: "?r \<noteq> []" using assms(2) by (metis set_empty)
  have al: "cs_is_alive c = (\<lambda>p. p \<in> alive)" by (simp add: fun_eq_iff cs_is_alive_def assms(1) cluster_state_new_def)
  have w: "map snd ?w = ?walk" using full_walk_peers [OF ne] by (simp add: walk_order_def)
  have apl: "?apl = apl_slots c (take n ?w) (drop n ?w) []"
    using ne assms(3) by (simp add: get_apl_ann_def Let_def min_def)
  have d: "distinct (map an_peer_id [] @ map snd (take n ?w) @ map snd (drop n ?w))"
  proof -
    have "map snd (take n ?w) @ map snd (drop n ?w) = ?walk"
      unfolding w [symmetric] map_append [symmetric] append_take_drop_id ..
    moreover have "distinct ?walk" by (simp add: walk_order_def)
    ultimately show ?thesis by simp
  qed
  have sl: "map snd (take n ?w) = take n ?walk" "map snd (drop n ?w) = drop n ?walk"
    unfolding w [symmetric] take_map drop_map by (rule refl)+
  note s = apl_slots_correct [OF d, of c, folded apl, unfolded sl al]
  have p: "map an_peer_id (primaries ?apl) = filter (\<lambda>p. p \<in> alive) (take n ?walk)"
    and f: "map an_peer_id (fallbacks ?apl) =
      take (length (filter (\<lambda>p. p \<notin> alive) (take n ?walk))) (filter (\<lambda>p. p \<in> alive) (drop n ?walk))"
    using s by (simp_all add: primaries_def [of "[]"] fallbacks_def [of "[]"])
  have "length ?apl = length (primaries ?apl) + length (fallbacks ?apl)" by (rule roles_split)
  also have "\<dots> = length (map an_peer_id (primaries ?apl)) + length (map an_peer_id (fallbacks ?apl))" by simp
  also have "\<dots> = length (filter (\<lambda>p. p \<in> alive) (take n ?walk))
      + min (length (filter (\<lambda>p. p \<in> alive) (drop n ?walk))) (length (filter (\<lambda>p. p \<notin> alive) (take n ?walk)))"
    unfolding p f length_take ..
  also have "\<dots> = min (min n (length ?walk)) (length (filter (\<lambda>p. p \<in> alive) ?walk))"
    using length_filter_split [where P = "\<lambda>p. p \<in> alive" and xs = ?walk and n = n] by linarith
  finally have len: "length ?apl = min (min n (length ?walk)) (length (filter (\<lambda>p. p \<in> alive) ?walk))" .
  have ns: "map snd (walk_n_successors search c key n) = take n ?walk"
    using ne assms(3) sl(1) by (simp add: walk_n_successors_def Let_def walk_n_take full_walk_def)
  have own: "if \<exists>q \<in> set ring. key \<le> rp_token q
      then key \<le> rp_token ?start \<and> (\<forall>q \<in> set ring. key \<le> rp_token q \<longrightarrow> rp_token ?start \<le> rp_token q)
      else primary_index search ?r key = 0"
    by (rule primary_index_owner [OF assms(4) cluster_ring_sorted [of ring alive, folded assms(1)] ne,
          THEN conjunct2, unfolded set_r])
  show ?thesis unfolding Let_def
    by (intro conjI p f s [THEN conjunct2, THEN conjunct2] len ns own)
qed

definition ring4 :: "ring_point list" where
  "ring4 = [\<lparr>rp_token = 10, rp_peer_id = 1\<rparr>, \<lparr>rp_token = 20, rp_peer_id = 2\<rparr>,
     \<lparr>rp_token = 30, rp_peer_id = 1\<rparr>, \<lparr>rp_token = 40, rp_peer_id = 3\<rparr>]"

definition scan :: token_search where
  "scan ring key =
     (let i = length (takeWhile (\<lambda>p. rp_token p < key) ring)
      in if i < length ring \<and> rp_token (ring ! i) = key then Inr i else Inl i)"

lemma ring4_nonempty: "ring4 \<noteq> []" by (simp add: ring4_def)

lemma ring4_sorted: "cs_ring (cluster_state_new ring4 alive) = ring4"
  by (simp add: cluster_ring ring4_def)

lemma scan_ok:
  assumes "sorted (map rp_token ring)"
  shows "search_ok scan ring key"
proof -
  let ?below = "\<lambda>p. rp_token p < key"
  let ?i = "length (takeWhile ?below ring)"
  have le: "?i \<le> length ring" by (rule length_takeWhile_le)
  have below: "\<forall>j < ?i. rp_token (ring ! j) < key"
    by (metis nth_mem set_takeWhileD takeWhile_nth)
  show ?thesis
  proof (cases "?i < length ring")
    case True
    then have "\<not> rp_token (ring ! ?i) < key" by (rule nth_length_takeWhile)
    moreover have "rp_token (ring ! ?i) \<le> rp_token (ring ! j)" if "?i \<le> j" "j < length ring" for j
      using sorted_nth_mono [OF assms, of ?i j] that True by simp
    ultimately show ?thesis using True le below by (fastforce simp: search_ok_def scan_def Let_def)
  next
    case False
    with le below show ?thesis by (simp add: search_ok_def scan_def Let_def)
  qed
qed

theorem apl_correct_witness:
  "(let c = cluster_state_new ring4 {1, 3}; apl = get_apl_ann scan c 15 2
    in walk_order scan c 15 = [2, 1, 3] \<and> map an_peer_id (primaries apl) = [1] \<and> map an_peer_id (fallbacks apl) = [3])"
proof -
  let ?c = "cluster_state_new ring4 {1, 3}"
  have w: "walk_order scan ?c 15 = [2, 1, 3]"
    unfolding walk_order_def ring4_sorted
    by (simp add: ring4_def scan_def primary_index_def firsts_def rotate1_def)
  show ?thesis
    using apl_correct [OF refl ring4_nonempty _ scan_ok [OF cluster_ring_sorted], of 2 "{1, 3}" 15] by (simp add: w Let_def)
qed

end
