(* ===== verification/Auto_Eject.thy ===== *)
theory Auto_Eject
  imports Prelude
begin

text \<open>
  The consecutive-failure tracker of \<open>crates/dynomite/src/net/auto_eject.rs\<close>.  Instants and durations
  are nanosecond counts, and the caller passes the current instant as in the source.  The abstract
  specification keeps only the length of the current failure streak and the instant of its last
  failure; the tracker implements it.
\<close>

datatype auto_eject_state = Reachable | Ejected

record auto_eject =
  ae_enabled :: bool
  ae_failure_limit :: u32
  ae_retry_after :: nat
  ae_failures :: u32
  ae_next_retry :: "nat option"

definition auto_eject_new :: "bool \<Rightarrow> u32 \<Rightarrow> nat \<Rightarrow> auto_eject" where
  "auto_eject_new enabled limit retry_after =
     \<lparr>ae_enabled = enabled, ae_failure_limit = limit, ae_retry_after = retry_after, ae_failures = 0, ae_next_retry = None\<rparr>"

definition record_attempt :: "nat \<Rightarrow> auto_eject \<Rightarrow> auto_eject_state \<times> auto_eject" where
  "record_attempt now ae =
     (if \<not> ae_enabled ae then (Reachable, ae)
      else case ae_next_retry ae of
        Some eta \<Rightarrow> if now < eta then (Ejected, ae) else (Reachable, ae\<lparr>ae_next_retry := None\<rparr>)
      | None \<Rightarrow> (Reachable, ae))"

definition record_success :: "nat \<Rightarrow> auto_eject \<Rightarrow> auto_eject" where
  "record_success now ae = ae\<lparr>ae_failures := 0, ae_next_retry := None\<rparr>"

definition record_failure :: "nat \<Rightarrow> auto_eject \<Rightarrow> auto_eject_state \<times> auto_eject" where
  "record_failure now ae =
     (let ae = ae\<lparr>ae_failures := saturating_add (ae_failures ae) 1\<rparr>
      in if ae_enabled ae \<and> ae_failures ae \<ge> ae_failure_limit ae
         then (Ejected, ae\<lparr>ae_next_retry := Some (now + ae_retry_after ae)\<rparr>)
         else (Reachable, ae))"

definition auto_eject_reset :: "auto_eject \<Rightarrow> auto_eject" where
  "auto_eject_reset ae = ae\<lparr>ae_failures := 0, ae_next_retry := None\<rparr>"

section \<open>Histories and the abstract specification\<close>

datatype eject_event = At_Attempt nat | At_Success nat | At_Failure nat | At_Reset nat

fun event_at :: "eject_event \<Rightarrow> nat" where
  "event_at (At_Attempt t) = t"
| "event_at (At_Success t) = t"
| "event_at (At_Failure t) = t"
| "event_at (At_Reset t) = t"

fun eject_step :: "eject_event \<Rightarrow> auto_eject \<Rightarrow> auto_eject" where
  "eject_step (At_Attempt t) ae = snd (record_attempt t ae)"
| "eject_step (At_Success t) ae = record_success t ae"
| "eject_step (At_Failure t) ae = snd (record_failure t ae)"
| "eject_step (At_Reset t) ae = auto_eject_reset ae"

text \<open>The streak of failures since the last success or reset, and the instant of its last failure.\<close>

fun streak_step :: "eject_event \<Rightarrow> nat \<times> nat \<Rightarrow> nat \<times> nat" where
  "streak_step (At_Failure t) (n, lf) = (Suc n, t)"
| "streak_step (At_Attempt t) s = s"
| "streak_step (At_Success t) s = (0, 0)"
| "streak_step (At_Reset t) s = (0, 0)"

definition streak :: "eject_event list \<Rightarrow> nat \<times> nat" where
  "streak es = fold streak_step es (0, 0)"

definition window_open :: "bool \<Rightarrow> u32 \<Rightarrow> nat \<Rightarrow> nat \<times> nat \<Rightarrow> nat \<Rightarrow> bool" where
  "window_open enabled limit retry_after = (\<lambda>(n, lf) now.
     enabled \<and> 0 < n \<and> unat limit \<le> n \<and> now < lf + retry_after)"

text \<open>The simulation relation at an instant not before the last event.\<close>

definition tracks :: "auto_eject \<Rightarrow> nat \<times> nat \<Rightarrow> nat \<Rightarrow> bool" where
  "tracks ae = (\<lambda>(n, lf) now.
     unat (ae_failures ae) = min n (2 ^ 32 - 1)
     \<and> (case ae_next_retry ae of
          Some eta \<Rightarrow> ae_enabled ae \<and> 0 < n \<and> unat (ae_failure_limit ae) \<le> n \<and> eta = lf + ae_retry_after ae
        | None \<Rightarrow> \<not> (ae_enabled ae \<and> 0 < n \<and> unat (ae_failure_limit ae) \<le> n) \<or> lf + ae_retry_after ae \<le> now))"

lemma tracks_later: "tracks ae s now \<Longrightarrow> now \<le> now' \<Longrightarrow> tracks ae s now'"
  by (auto simp: tracks_def split: option.splits)

lemma limit_reached: "unat f = min n (2 ^ 32 - 1) \<Longrightarrow> limit \<le> f \<longleftrightarrow> unat limit \<le> n" for f limit :: u32
  using unsigned_less [where ?'a = nat and w = limit] by (auto simp: word_le_nat_alt)

lemma tracks_step:
  assumes "tracks ae s now" and "now \<le> event_at e"
  shows "tracks (eject_step e ae) (streak_step e s) (event_at e)"
proof (cases e)
  case (At_Attempt t)
  with assms show ?thesis by (cases s) (auto simp: tracks_def record_attempt_def split: option.splits)
next
  case (At_Failure t)
  obtain n lf where s: "s = (n, lf)" by (cases s)
  let ?f = "saturating_add (ae_failures ae) 1"
  have "unat (ae_failures ae) = min n (2 ^ 32 - 1)" using assms(1) by (simp add: tracks_def s)
  then have f: "unat ?f = min (Suc n) (2 ^ 32 - 1)" by (simp add: unat_saturating_add)
  have "ae_failure_limit ae \<le> ?f \<longleftrightarrow> unat (ae_failure_limit ae) \<le> Suc n" using limit_reached [OF f] .
  moreover have "ae_next_retry ae = None \<or> unat (ae_failure_limit ae) \<le> Suc n"
    using assms(1) by (auto simp: tracks_def s split: option.splits)
  ultimately show ?thesis
    using f assms(1) by (auto simp: At_Failure s tracks_def record_failure_def Let_def split: option.splits)
qed (auto simp: tracks_def record_success_def auto_eject_reset_def split: prod.split)

lemma step_config:
  "ae_enabled (eject_step e ae) = ae_enabled ae" "ae_failure_limit (eject_step e ae) = ae_failure_limit ae"
  "ae_retry_after (eject_step e ae) = ae_retry_after ae"
  by (cases e; simp add: record_attempt_def record_success_def record_failure_def auto_eject_reset_def Let_def
      split: option.splits)+

lemma run_config:
  "ae_enabled (fold eject_step es ae) = ae_enabled ae \<and> ae_failure_limit (fold eject_step es ae) = ae_failure_limit ae
   \<and> ae_retry_after (fold eject_step es ae) = ae_retry_after ae"
  by (induction es arbitrary: ae) (simp_all add: step_config)

lemma tracks_run:
  assumes "tracks ae s now" and "sorted (now # map event_at es)"
  shows "tracks (fold eject_step es ae) (fold streak_step es s) (last (now # map event_at es))"
  using assms
proof (induction es arbitrary: ae s now)
  case (Cons e es)
  have "tracks (eject_step e ae) (streak_step e s) (event_at e)" using tracks_step [OF Cons.prems(1), of e] Cons.prems(2) by simp
  moreover have "sorted (event_at e # map event_at es)" using Cons.prems(2) by simp
  ultimately show ?case using Cons.IH by simp
qed simp

lemma attempt_abstract:
  "tracks ae s now \<Longrightarrow> fst (record_attempt now ae) = Ejected \<longleftrightarrow>
   window_open (ae_enabled ae) (ae_failure_limit ae) (ae_retry_after ae) s now"
  by (cases s) (auto simp: tracks_def record_attempt_def window_open_def split: option.splits)

section \<open>Properties\<close>

text \<open>
  C15. The tracker implements its specification: after any history of attempts, successes, failures and
  resets in the order of time, an attempt is refused exactly when ejection is enabled, the failures
  since the last success or reset have reached the limit, and the window that starts with the last of
  them is still open; in particular every target becomes reachable again once the window has passed.
\<close>

theorem auto_eject_implements:
  assumes "sorted (map event_at es)" and "\<forall>e \<in> set es. event_at e \<le> now"
  shows "fst (record_attempt now (fold eject_step es (auto_eject_new enabled limit retry_after))) = Ejected \<longleftrightarrow>
    window_open enabled limit retry_after (streak es) now"
proof -
  let ?ae = "auto_eject_new enabled limit retry_after"
  have "tracks ?ae (0, 0) 0" by (simp add: tracks_def auto_eject_new_def)
  then have "tracks (fold eject_step es ?ae) (streak es) (last (0 # map event_at es))"
    unfolding streak_def using assms(1) by (intro tracks_run) simp_all
  moreover have "last (0 # map event_at es) \<le> now" using assms(2) by (cases es rule: rev_cases) auto
  ultimately have "tracks (fold eject_step es ?ae) (streak es) now" by (rule tracks_later)
  from attempt_abstract [OF this] show ?thesis by (simp add: run_config) (simp add: auto_eject_new_def)
qed

theorem auto_eject_implements_witness:
  "fst (record_attempt 12 (fold eject_step [At_Failure 3, At_Failure 9] (auto_eject_new True 2 5))) = Ejected
   \<and> fst (record_attempt 14 (fold eject_step [At_Failure 3, At_Failure 9] (auto_eject_new True 2 5))) = Reachable"
proof -
  have "sorted (map event_at [At_Failure 3, At_Failure 9])" "\<forall>e \<in> set [At_Failure 3, At_Failure 9]. event_at e \<le> 12"
    "\<forall>e \<in> set [At_Failure 3, At_Failure 9]. event_at e \<le> 14" by simp_all
  note h = this
  have "fst (record_attempt 12 (fold eject_step [At_Failure 3, At_Failure 9] (auto_eject_new True 2 5))) = Ejected"
    using auto_eject_implements [OF h(1,2)] by (simp add: window_open_def streak_def)
  moreover have "fst (record_attempt 14 (fold eject_step [At_Failure 3, At_Failure 9] (auto_eject_new True 2 5))) \<noteq> Ejected"
    using auto_eject_implements [OF h(1,3)] by (simp add: window_open_def streak_def)
  ultimately show ?thesis using auto_eject_state.exhaust by blast
qed

text \<open>The limit itself ejects: with a limit of two the second failure does.\<close>

lemma eject_at_limit:
  "fst (record_failure t (snd (record_failure t (auto_eject_new True 2 r)))) = Ejected"
  by (simp add: record_failure_def auto_eject_new_def Let_def saturating_add_def)

end
