(* ===== verification/BTree.thy ===== *)
theory BTree
  imports Prelude
begin

text \<open>
  The ordered containers of the Rust standard library as the sources use them.  A
  \<open>BTreeMap<K, V>\<close> is its entry list in ascending key order and a \<open>BTreeSet<T>\<close> its element list in
  ascending order, so derived equality is list equality and iteration order is list order.  The
  theory provides the operations the sources call (\<open>insert\<close>, \<open>entry().or_insert()\<close>, \<open>get_mut\<close>),
  the extensionality principle for ordered entry lists, and the pointwise join of two maps that
  every replicated data type is built from.
\<close>

named_theorems bt_simps \<open>lookup after each map operation\<close>
named_theorems bt_intros \<open>every map and set operation keeps the order\<close>

section \<open>Ordered maps\<close>

type_synonym ('k, 'v) btmap = "('k \<times> 'v) list"

definition bt_sorted :: "('k::linorder, 'v) btmap \<Rightarrow> bool" where
  "bt_sorted m = sorted_wrt (<) (map fst m)"

fun bt_insert :: "'k::linorder \<Rightarrow> 'v \<Rightarrow> ('k, 'v) btmap \<Rightarrow> ('k, 'v) btmap" where
  "bt_insert k v [] = [(k, v)]"
| "bt_insert k v ((k', v') # m) =
     (if k < k' then (k, v) # (k', v') # m
      else if k = k' then (k, v) # m
      else (k', v') # bt_insert k v m)"

text \<open>\<open>map.get(k).unwrap_or(d)\<close>, \<open>entry(k).or_insert(d)\<close> followed by an update, and \<open>get_mut\<close>.\<close>

definition bt_get_or :: "'v \<Rightarrow> ('k, 'v) btmap \<Rightarrow> 'k \<Rightarrow> 'v" where
  "bt_get_or d m k = (case map_of m k of None \<Rightarrow> d | Some v \<Rightarrow> v)"

definition bt_entry :: "'k::linorder \<Rightarrow> 'v \<Rightarrow> ('v \<Rightarrow> 'v) \<Rightarrow> ('k, 'v) btmap \<Rightarrow> ('k, 'v) btmap" where
  "bt_entry k d f m = bt_insert k (f (bt_get_or d m k)) m"

definition bt_modify :: "'k::linorder \<Rightarrow> ('v \<Rightarrow> 'v) \<Rightarrow> ('k, 'v) btmap \<Rightarrow> ('k, 'v) btmap" where
  "bt_modify k f m = (case map_of m k of None \<Rightarrow> m | Some v \<Rightarrow> bt_insert k (f v) m)"

lemma bt_sorted_Nil [simp, bt_intros]: "bt_sorted []"
  by (simp add: bt_sorted_def)

lemma bt_sorted_Cons:
  "bt_sorted ((k, v) # m) \<longleftrightarrow> (\<forall>k' \<in> fst ` set m. k < k') \<and> bt_sorted m"
  by (auto simp: bt_sorted_def)

lemma bt_sorted_distinct: "bt_sorted m \<Longrightarrow> distinct (map fst m)"
  unfolding bt_sorted_def by (simp add: strict_sorted_iff)

lemma fst_set_bt_insert: "fst ` set (bt_insert k v m) = insert k (fst ` set m)"
  by (induction k v m rule: bt_insert.induct) auto

lemma set_bt_insert: "x \<in> set (bt_insert k v m) \<Longrightarrow> x = (k, v) \<or> x \<in> set m"
  by (induction k v m rule: bt_insert.induct) (auto split: if_splits)

lemma bt_sorted_insert [bt_intros]: "bt_sorted m \<Longrightarrow> bt_sorted (bt_insert k v m)"
  by (induction k v m rule: bt_insert.induct) (auto simp: bt_sorted_Cons fst_set_bt_insert)

lemma map_of_bt_insert [bt_simps]:
  "bt_sorted m \<Longrightarrow> map_of (bt_insert k v m) = (map_of m)(k \<mapsto> v)"
proof (induction k v m rule: bt_insert.induct)
  case (1 k v)
  show ?case by simp
next
  case (2 k v k' v' m)
  then show ?case by (auto simp: bt_sorted_Cons fun_eq_iff)
qed

lemma bt_sorted_entry [bt_intros]: "bt_sorted m \<Longrightarrow> bt_sorted (bt_entry k d f m)"
  by (simp add: bt_entry_def bt_sorted_insert)

lemma map_of_bt_entry [bt_simps]:
  "bt_sorted m \<Longrightarrow> map_of (bt_entry k d f m) = (map_of m)(k \<mapsto> f (bt_get_or d m k))"
  by (simp add: bt_entry_def map_of_bt_insert)

lemma bt_sorted_modify [bt_intros]: "bt_sorted m \<Longrightarrow> bt_sorted (bt_modify k f m)"
  by (simp add: bt_modify_def bt_sorted_insert split: option.split)

lemma map_of_bt_modify [bt_simps]:
  "bt_sorted m \<Longrightarrow> map_of (bt_modify k f m) = (map_of m)(k := map_option f (map_of m k))"
  by (auto simp: bt_modify_def map_of_bt_insert fun_eq_iff split: option.split)

text \<open>Ordered entry lists with the same lookups are the same list.\<close>

lemma bt_ext:
  assumes "bt_sorted a" and "bt_sorted b" and "map_of a = map_of b"
  shows "a = b"
proof -
  from assms have d: "distinct (map fst a)" "distinct (map fst b)"
    by (auto dest: bt_sorted_distinct)
  with assms(3) have eq: "set a = set b" by (simp add: map_of_inject_set)
  have "inj_on fst (set a \<union> set b)" using d(1) eq by (simp add: distinct_map)
  moreover have "sorted (map fst a)" "sorted (map fst b)"
    using assms(1,2) by (simp_all add: bt_sorted_def strict_sorted_imp_sorted)
  ultimately show ?thesis using d eq by (intro map_sorted_distinct_set_unique)
qed

text \<open>A map is well formed when it is ordered and every value fits its key.\<close>

definition bt_all :: "('k::linorder \<Rightarrow> 'v \<Rightarrow> bool) \<Rightarrow> ('k, 'v) btmap \<Rightarrow> bool" where
  "bt_all P m \<longleftrightarrow> bt_sorted m \<and> (\<forall>(k, v) \<in> set m. P k v)"

lemma bt_all_sorted: "bt_all P m \<Longrightarrow> bt_sorted m"
  by (simp add: bt_all_def)

lemma bt_all_value: "bt_all P m \<Longrightarrow> map_of m k = Some v \<Longrightarrow> P k v"
  by (auto simp: bt_all_def dest: map_of_SomeD)

lemma bt_allI:
  assumes "bt_sorted m" and "\<And>k v. map_of m k = Some v \<Longrightarrow> P k v"
  shows "bt_all P m"
  using assms by (auto simp: bt_all_def bt_sorted_distinct)

lemma bt_all_Nil [simp, bt_intros]: "bt_all P []"
  by (simp add: bt_all_def)

lemma bt_all_insert [bt_intros]: "bt_all P m \<Longrightarrow> P k v \<Longrightarrow> bt_all P (bt_insert k v m)"
  by (rule bt_allI)
    (auto simp: map_of_bt_insert bt_sorted_insert bt_all_sorted dest: bt_all_value split: if_splits)

text \<open>Inserting the entries of a map one by one, in any order, rebuilds it.\<close>

lemma bt_sorted_fold_insert: "bt_sorted m \<Longrightarrow> bt_sorted (fold (\<lambda>(k, v). bt_insert k v) es m)"
  by (induction es arbitrary: m) (auto simp: bt_sorted_insert)

lemma map_of_fold_insert:
  assumes "distinct (map fst es)" and "bt_sorted m"
  shows "map_of (fold (\<lambda>(k, v). bt_insert k v) es m) k =
    (case map_of es k of None \<Rightarrow> map_of m k | Some v \<Rightarrow> Some v)"
  using assms
proof (induction es arbitrary: m)
  case Nil
  then show ?case by simp
next
  case (Cons e es)
  obtain k' v' where e: "e = (k', v')" by (cases e)
  from Cons.prems e have "k' \<notin> fst ` set es" and d: "distinct (map fst es)" by auto
  then have "map_of es k' = None" by (simp add: map_of_eq_None_iff)
  with Cons.IH [OF d bt_sorted_insert [OF Cons.prems(2)], of k' v'] Cons.prems(2) show ?case
    by (auto simp: e map_of_bt_insert split: option.split)
qed

lemma bt_rebuild: "bt_sorted es \<Longrightarrow> fold (\<lambda>(k, v). bt_insert k v) es [] = es"
  by (rule bt_ext)
    (auto simp: fun_eq_iff map_of_fold_insert bt_sorted_distinct bt_sorted_fold_insert split: option.split)

section \<open>Ordered sets\<close>

type_synonym 'a btset = "'a list"

definition bs_sorted :: "'a::linorder btset \<Rightarrow> bool" where
  "bs_sorted s = sorted_wrt (<) s"

fun bs_insert :: "'a::linorder \<Rightarrow> 'a btset \<Rightarrow> 'a btset" where
  "bs_insert x [] = [x]"
| "bs_insert x (y # s) = (if x < y then x # y # s else if x = y then y # s else y # bs_insert x s)"

text \<open>\<open>for t in other { self.insert(t) }\<close>.\<close>

definition bs_union :: "'a::linorder btset \<Rightarrow> 'a btset \<Rightarrow> 'a btset" where
  "bs_union s t = fold bs_insert t s"

lemma bs_sorted_Nil [simp, bt_intros]: "bs_sorted []"
  by (simp add: bs_sorted_def)

lemma bs_sorted_single [simp]: "bs_sorted [x]"
  by (simp add: bs_sorted_def)

lemma set_bs_insert [simp]: "set (bs_insert x s) = insert x (set s)"
  by (induction s) auto

lemma bs_sorted_insert [bt_intros]: "bs_sorted s \<Longrightarrow> bs_sorted (bs_insert x s)"
  unfolding bs_sorted_def by (induction s) (auto simp: sorted_wrt.simps)

lemma set_bs_union [simp]: "set (bs_union s t) = set s \<union> set t"
  unfolding bs_union_def by (induction t arbitrary: s) auto

lemma bs_sorted_union [bt_intros]: "bs_sorted s \<Longrightarrow> bs_sorted (bs_union s t)"
  unfolding bs_union_def by (induction t arbitrary: s) (auto intro: bs_sorted_insert)

lemma bs_ext: "bs_sorted s \<Longrightarrow> bs_sorted t \<Longrightarrow> set s = set t \<Longrightarrow> s = t"
  unfolding bs_sorted_def by (rule strict_sorted_equal)

section \<open>Pointwise join of two maps\<close>

text \<open>
  The merge loop the sources write for every map-shaped state:
  \<open>for (k, v) in &other { let e = self.entry(k).or_insert(d); e.merge(v) }\<close>, where the default may
  depend on the key.
\<close>

definition bt_join ::
  "('k::linorder \<Rightarrow> 'v) \<Rightarrow> ('v \<Rightarrow> 'v \<Rightarrow> 'v) \<Rightarrow> ('k, 'v) btmap \<Rightarrow> ('k, 'v) btmap \<Rightarrow> ('k, 'v) btmap"
where
  "bt_join d j self other = fold (\<lambda>(k, v) m. bt_entry k (d k) (\<lambda>e. j e v) m) other self"

lemma bt_join_simps [simp]:
  "bt_join d j self [] = self"
  "bt_join d j self ((k, v) # other) = bt_join d j (bt_entry k (d k) (\<lambda>e. j e v) self) other"
  by (simp_all add: bt_join_def)

lemma bt_sorted_join [bt_intros]: "bt_sorted a \<Longrightarrow> bt_sorted (bt_join d j a b)"
proof (induction b arbitrary: a)
  case Nil
  then show ?case by simp
next
  case (Cons kv b)
  then show ?case by (cases kv) (simp add: bt_sorted_entry)
qed

lemma map_of_bt_join [bt_simps]:
  assumes "bt_sorted a" and "bt_sorted b"
  shows "map_of (bt_join d j a b) k =
    (case map_of b k of None \<Rightarrow> map_of a k | Some v \<Rightarrow> Some (j (bt_get_or (d k) a k) v))"
  using assms
proof (induction b arbitrary: a)
  case Nil
  then show ?case by simp
next
  case (Cons kv b)
  obtain k' v' where kv: "kv = (k', v')" by (cases kv)
  let ?a = "bt_entry k' (d k') (\<lambda>e. j e v') a"
  from Cons.prems kv have b: "bt_sorted b" and k': "map_of b k' = None"
    by (auto simp: bt_sorted_Cons map_of_eq_None_iff)
  from Cons.prems have a: "bt_sorted ?a" by (simp add: bt_sorted_entry)
  have look: "map_of ?a k = (if k = k' then Some (j (bt_get_or (d k) a k) v') else map_of a k)"
    using Cons.prems(1) by (auto simp: map_of_bt_entry)
  have gor: "k \<noteq> k' \<Longrightarrow> bt_get_or (d k) ?a k = bt_get_or (d k) a k"
    using look by (simp add: bt_get_or_def)
  show ?case
  proof (cases "k = k'")
    case True
    with Cons.IH [OF a b] kv k' look show ?thesis by simp
  next
    case False
    with Cons.IH [OF a b] kv look gor show ?thesis by (simp split: option.split)
  qed
qed

end
