(* ===== verification/Capability.thy ===== *)
theory Capability
  imports BTree "HOL-Library.List_Lexorder"
begin

text \<open>
  Capability negotiation at the peer handshake: \<open>crates/dynomite/src/cluster/capability\<close> (trait,
  advertisement codec, registry and negotiator) and the \<open>Handshake\<close> payload of
  \<open>crates/dynomite/src/proto/dnode.rs\<close>.  The hash maps of the registry are kept in key order; every
  use of their iteration order in the source goes through a sort or into another map.  The lemmas
  show that an advertisement survives the wire and that two nodes which exchange advertisements
  settle on the same value whenever they have one in common.
\<close>

section \<open>Advertisements and their codec\<close>

definition CAP_AD_MAGIC :: bytes where "CAP_AD_MAGIC = [67, 65, 80]"
definition CAP_AD_VERSION :: u8 where "CAP_AD_VERSION = 1"
definition CAP_AD_MAX_ENTRIES :: nat where "CAP_AD_MAX_ENTRIES = 1024"
definition CAP_AD_MAX_VALUE_LEN :: nat where "CAP_AD_MAX_VALUE_LEN = 16 * 1024"
definition CAP_AD_MAX_NAME_LEN :: nat where "CAP_AD_MAX_NAME_LEN = 256"

datatype capability_codec_error =
    Cap_Truncated | Cap_BadMagic | Cap_NonAsciiName | Cap_TooManyEntries nat

record capability_ad_entry =
  ce_name :: bytes
  ce_supported :: "bytes list"

record capability_ad =
  ad_entries :: "capability_ad_entry list"

text \<open>\<open>u16::try_from(len).unwrap_or(u16::MAX)\<close>.\<close>

definition u16_of_len :: "nat \<Rightarrow> u16" where
  "u16_of_len n = (if n < 2 ^ 16 then of_nat n else - 1)"

definition ad_encode_value :: "bytes \<Rightarrow> bytes" where
  "ad_encode_value v = le_bytes 4 (unat (u32_of_len (length v))) @ v"

definition ad_encode_entry :: "capability_ad_entry \<Rightarrow> bytes" where
  "ad_encode_entry e =
     le_bytes 2 (unat (u16_of_len (length (ce_name e)))) @ ce_name e
     @ le_bytes 2 (unat (u16_of_len (length (ce_supported e))))
     @ concat (map ad_encode_value (ce_supported e))"

definition ad_encode :: "capability_ad \<Rightarrow> bytes" where
  "ad_encode ad =
     CAP_AD_MAGIC @ [CAP_AD_VERSION] @ le_bytes 4 (unat (u32_of_len (length (ad_entries ad))))
     @ concat (map ad_encode_entry (ad_entries ad))"

definition cap_read_slice :: "bytes \<Rightarrow> nat \<Rightarrow> capability_codec_error + bytes \<times> bytes" where
  "cap_read_slice cur len =
     (if length cur < len then Inl Cap_Truncated else Inr (take len cur, drop len cur))"

definition cap_read_u16 :: "bytes \<Rightarrow> capability_codec_error + u16 \<times> bytes" where
  "cap_read_u16 cur =
     (case cap_read_slice cur 2 of Inl e \<Rightarrow> Inl e | Inr (bs, cur) \<Rightarrow> Inr (of_nat (le_val bs), cur))"

definition cap_read_u32 :: "bytes \<Rightarrow> capability_codec_error + u32 \<times> bytes" where
  "cap_read_u32 cur =
     (case cap_read_slice cur 4 of Inl e \<Rightarrow> Inl e | Inr (bs, cur) \<Rightarrow> Inr (of_nat (le_val bs), cur))"

fun ad_decode_values :: "nat \<Rightarrow> bytes \<Rightarrow> capability_codec_error + bytes list \<times> bytes" where
  "ad_decode_values 0 cur = Inr ([], cur)"
| "ad_decode_values (Suc n) cur =
     (case cap_read_u32 cur of
        Inl e \<Rightarrow> Inl e
      | Inr (vlen, cur) \<Rightarrow>
          if unat vlen > CAP_AD_MAX_VALUE_LEN then Inl (Cap_TooManyEntries (unat vlen))
          else case cap_read_slice cur (unat vlen) of
            Inl e \<Rightarrow> Inl e
          | Inr (v, cur) \<Rightarrow>
              (case ad_decode_values n cur of Inl e \<Rightarrow> Inl e | Inr (vs, cur) \<Rightarrow> Inr (v # vs, cur)))"

definition is_ascii :: "bytes \<Rightarrow> bool" where
  "is_ascii bs = list_all (\<lambda>b. b < 128) bs"

definition ad_decode_entry :: "bytes \<Rightarrow> capability_codec_error + capability_ad_entry \<times> bytes" where
  "ad_decode_entry cur =
     (case cap_read_u16 cur of
        Inl e \<Rightarrow> Inl e
      | Inr (name_len, cur) \<Rightarrow>
          if unat name_len > CAP_AD_MAX_NAME_LEN then Inl (Cap_TooManyEntries (unat name_len))
          else case cap_read_slice cur (unat name_len) of
            Inl e \<Rightarrow> Inl e
          | Inr (name, cur) \<Rightarrow>
              if \<not> is_ascii name then Inl Cap_NonAsciiName
              else case cap_read_u16 cur of
                Inl e \<Rightarrow> Inl e
              | Inr (val_count, cur) \<Rightarrow>
                  (case ad_decode_values (unat val_count) cur of
                     Inl e \<Rightarrow> Inl e
                   | Inr (vs, cur) \<Rightarrow> Inr (\<lparr>ce_name = name, ce_supported = vs\<rparr>, cur)))"

fun ad_decode_entries :: "nat \<Rightarrow> bytes \<Rightarrow> capability_codec_error + capability_ad_entry list" where
  "ad_decode_entries 0 cur = Inr []"
| "ad_decode_entries (Suc n) cur =
     (case ad_decode_entry cur of
        Inl e \<Rightarrow> Inl e
      | Inr (entry, cur) \<Rightarrow>
          (case ad_decode_entries n cur of Inl e \<Rightarrow> Inl e | Inr es \<Rightarrow> Inr (entry # es)))"

definition ad_decode :: "bytes \<Rightarrow> capability_codec_error + capability_ad" where
  "ad_decode bs =
     (if length bs < length CAP_AD_MAGIC + 1 + 4 then Inl Cap_Truncated
      else if take (length CAP_AD_MAGIC) bs \<noteq> CAP_AD_MAGIC then Inl Cap_BadMagic
      else
        let bs = drop (length CAP_AD_MAGIC) bs in
        if bs ! 0 \<noteq> CAP_AD_VERSION then Inl Cap_BadMagic
        else case cap_read_u32 (drop 1 bs) of
          Inl e \<Rightarrow> Inl e
        | Inr (count, cur) \<Rightarrow>
            if unat count > CAP_AD_MAX_ENTRIES then Inl (Cap_TooManyEntries (unat count))
            else (case ad_decode_entries (unat count) cur of
                    Inl e \<Rightarrow> Inl e | Inr es \<Rightarrow> Inr \<lparr>ad_entries = es\<rparr>))"

text \<open>The handshake payload around an advertisement.\<close>

definition HANDSHAKE_MAGIC :: bytes where "HANDSHAKE_MAGIC = [68, 72, 83, 49]"

definition handshake_encode :: "capability_ad \<Rightarrow> bytes" where
  "handshake_encode caps = HANDSHAKE_MAGIC @ le_bytes 2 0 @ ad_encode caps"

definition handshake_decode :: "bytes \<Rightarrow> capability_codec_error + capability_ad" where
  "handshake_decode bs =
     (if length bs < length HANDSHAKE_MAGIC + 2 then Inl Cap_Truncated
      else if take (length HANDSHAKE_MAGIC) bs \<noteq> HANDSHAKE_MAGIC then Inl Cap_BadMagic
      else
        let flags_off = length HANDSHAKE_MAGIC;
            flags = (of_nat (le_val [bs ! flags_off, bs ! (flags_off + 1)]) :: u16)
        in if flags \<noteq> 0 then Inl Cap_BadMagic else ad_decode (drop (flags_off + 2) bs))"

section \<open>Capabilities and the registry\<close>

text \<open>
  The trait \<open>Capability\<close>.  \<open>cap_type\<close> stands for the \<open>TypeId\<close> of the implementing type, which
  \<open>current\<close> compares when it downcasts.
\<close>

record 'v capability =
  cap_type :: nat
  cap_name :: bytes
  supported_values :: "'v list"
  cap_merge :: "'v list \<Rightarrow> 'v option"
  encode_value :: "'v \<Rightarrow> bytes"
  decode_value :: "bytes \<Rightarrow> 'v option"

record cap_slot =
  sl_type :: nat
  sl_supported_bytes :: "bytes list"
  sl_floor_bytes :: bytes
  sl_merge :: "bytes list \<Rightarrow> bytes option"

record capability_registry =
  reg_slots :: "(bytes, cap_slot) btmap"
  reg_negotiated :: "(bytes, bytes) btmap"

definition registry_new :: capability_registry where
  "registry_new = \<lparr>reg_slots = [], reg_negotiated = []\<rparr>"

definition merge_fn :: "'v capability \<Rightarrow> bytes list \<Rightarrow> bytes option" where
  "merge_fn cap peer_blobs =
     map_option (encode_value cap) (cap_merge cap (List.map_filter (decode_value cap) peer_blobs))"

definition slot_of :: "'v capability \<Rightarrow> cap_slot" where
  "slot_of cap =
     (let supported = map (encode_value cap) (supported_values cap)
      in \<lparr>sl_type = cap_type cap, sl_supported_bytes = supported, sl_floor_bytes = hd supported,
          sl_merge = merge_fn cap\<rparr>)"

text \<open>\<open>None\<close> is the panic on a non-ASCII name or an empty value list.\<close>

definition register :: "'v capability \<Rightarrow> capability_registry \<Rightarrow> capability_registry option" where
  "register cap reg =
     (if \<not> is_ascii (cap_name cap) then None
      else if supported_values cap = [] then None
      else Some (reg\<lparr>reg_slots := bt_insert (cap_name cap) (slot_of cap) (reg_slots reg),
                     reg_negotiated := filter (\<lambda>(k, _). k \<noteq> cap_name cap) (reg_negotiated reg)\<rparr>))"

definition local_advertise :: "capability_registry \<Rightarrow> capability_ad" where
  "local_advertise reg =
     \<lparr>ad_entries = sort_by (\<lambda>a b. compare_of (ce_name a) (ce_name b))
        (map (\<lambda>(name, slot). \<lparr>ce_name = name, ce_supported = sl_supported_bytes slot\<rparr>) (reg_slots reg))\<rparr>"

definition peer_by_name :: "capability_ad \<Rightarrow> (bytes, bytes list) btmap" where
  "peer_by_name ad = fold (\<lambda>e. bt_insert (ce_name e) (ce_supported e)) (ad_entries ad) []"

definition choose_value :: "(bytes, bytes list) btmap \<Rightarrow> bytes \<Rightarrow> cap_slot \<Rightarrow> bytes" where
  "choose_value peer name slot =
     (case map_of peer name of
        Some peer_supported \<Rightarrow>
          (case sl_merge slot peer_supported of Some v \<Rightarrow> v | None \<Rightarrow> sl_floor_bytes slot)
      | None \<Rightarrow> sl_floor_bytes slot)"

definition negotiate_with_floor :: "capability_registry \<Rightarrow> capability_ad \<Rightarrow> (bytes, bytes) btmap" where
  "negotiate_with_floor reg ad =
     fold (\<lambda>(name, slot). bt_insert name (choose_value (peer_by_name ad) name slot)) (reg_slots reg) []"

definition negotiate :: "capability_ad \<Rightarrow> capability_registry \<Rightarrow> (bytes, bytes) btmap \<times> capability_registry" where
  "negotiate ad reg =
     (let result = negotiate_with_floor reg ad
      in (result, reg\<lparr>reg_negotiated := fold (\<lambda>(n, v). bt_insert n v) result (reg_negotiated reg)\<rparr>))"

definition current :: "'v capability \<Rightarrow> bytes \<Rightarrow> capability_registry \<Rightarrow> 'v option" where
  "current cap name reg =
     (case map_of (reg_slots reg) name of
        None \<Rightarrow> None
      | Some slot \<Rightarrow>
          if sl_type slot \<noteq> cap_type cap then None
          else decode_value cap
            (case map_of (reg_negotiated reg) name of Some v \<Rightarrow> v | None \<Rightarrow> sl_floor_bytes slot))"

section \<open>The stock capabilities\<close>

text \<open>\<open>Iterator::max\<close>, and the merge, encoder and decoder the three integer capabilities share.\<close>

definition iter_max :: "'a::linorder list \<Rightarrow> 'a option" where
  "iter_max xs = (case xs of [] \<Rightarrow> None | x # xs \<Rightarrow> Some (fold max xs x))"

definition u32_merge :: "u32 list \<Rightarrow> u32 list \<Rightarrow> u32 option" where
  "u32_merge supported peer = iter_max (filter (\<lambda>v. v \<in> set peer) supported)"

definition u32_encode :: "u32 \<Rightarrow> bytes" where
  "u32_encode v = le_bytes 4 (unat v)"

definition u32_decode :: "bytes \<Rightarrow> u32 option" where
  "u32_decode b = (if length b = 4 then Some (of_nat (le_val b)) else None)"

definition u32_capability :: "nat \<Rightarrow> bytes \<Rightarrow> u32 list \<Rightarrow> u32 capability" where
  "u32_capability ty name supported =
     \<lparr>cap_type = ty, cap_name = name, supported_values = supported, cap_merge = u32_merge supported,
      encode_value = u32_encode, decode_value = u32_decode\<rparr>"

definition bool_merge :: "bool list \<Rightarrow> bool list \<Rightarrow> bool option" where
  "bool_merge supported peer =
     (if True \<in> set supported \<and> True \<in> set peer then Some True
      else if False \<in> set supported \<and> False \<in> set peer then Some False
      else None)"

definition bool_encode :: "bool \<Rightarrow> bytes" where
  "bool_encode v = [if v then 1 else 0]"

definition bool_decode :: "bytes \<Rightarrow> bool option" where
  "bool_decode b = (if b = [0] then Some False else if b = [1] then Some True else None)"

definition ascii_bytes :: "string \<Rightarrow> bytes" where
  "ascii_bytes s = map of_char s"

definition dnode_framing_version :: "u32 capability" where
  "dnode_framing_version = u32_capability 0 (ascii_bytes ''dnode_framing_version'') [1, 2]"

definition aae_tree_format :: "u32 capability" where
  "aae_tree_format = u32_capability 1 (ascii_bytes ''aae_tree_format'') [1]"

definition crdt_object_format :: "u32 capability" where
  "crdt_object_format = u32_capability 2 (ascii_bytes ''crdt_object_format'') [1]"

definition gossip_phi_negotiable :: "bool capability" where
  "gossip_phi_negotiable =
     \<lparr>cap_type = 3, cap_name = ascii_bytes ''gossip_phi_threshold_negotiable'',
      supported_values = [False, True], cap_merge = bool_merge [False, True],
      encode_value = bool_encode, decode_value = bool_decode\<rparr>"

definition default_registry :: "capability_registry option" where
  "default_registry =
     Option.bind (register dnode_framing_version registry_new) (\<lambda>r.
     Option.bind (register aae_tree_format r) (\<lambda>r.
     Option.bind (register crdt_object_format r) (\<lambda>r. register gossip_phi_negotiable r)))"

section \<open>The wire form loses nothing\<close>

definition entry_ok :: "capability_ad_entry \<Rightarrow> bool" where
  "entry_ok e \<longleftrightarrow> length (ce_name e) \<le> CAP_AD_MAX_NAME_LEN \<and> is_ascii (ce_name e)
     \<and> length (ce_supported e) < 2 ^ 16 \<and> (\<forall>v \<in> set (ce_supported e). length v \<le> CAP_AD_MAX_VALUE_LEN)"

definition ad_ok :: "capability_ad \<Rightarrow> bool" where
  "ad_ok ad \<longleftrightarrow> length (ad_entries ad) \<le> CAP_AD_MAX_ENTRIES \<and> (\<forall>e \<in> set (ad_entries ad). entry_ok e)"

lemmas cap_bounds = CAP_AD_MAX_NAME_LEN_def CAP_AD_MAX_VALUE_LEN_def CAP_AD_MAX_ENTRIES_def

lemma cap_read_slice_append [codec]: "n = length xs \<Longrightarrow> cap_read_slice (xs @ rest) n = Inr (xs, rest)"
  by (simp add: cap_read_slice_def)

lemma cap_read_u16_append [codec]: "n < 65536 \<Longrightarrow> cap_read_u16 (le_bytes 2 n @ rest) = Inr (of_nat n, rest)"
  by (simp add: cap_read_u16_def cap_read_slice_append le_val_le_bytes)

lemma cap_read_u32_append [codec]: "n < 4294967296 \<Longrightarrow> cap_read_u32 (le_bytes 4 n @ rest) = Inr (of_nat n, rest)"
  by (simp add: cap_read_u32_def cap_read_slice_append le_val_le_bytes)

lemma unat_u16_of_len [simp]: "n < 2 ^ 16 \<Longrightarrow> unat (u16_of_len n) = n"
  by (simp add: u16_of_len_def unat_of_nat take_bit_nat_eq_self)

lemma ad_decode_values_encode:
  "\<forall>v \<in> set vs. length v \<le> CAP_AD_MAX_VALUE_LEN \<Longrightarrow>
   ad_decode_values (length vs) (concat (map ad_encode_value vs) @ rest) = Inr (vs, rest)"
  by (induction vs) (auto simp: ad_encode_value_def cap_bounds codec unat_of_nat_small)

lemma ad_decode_entry_encode: "entry_ok e \<Longrightarrow> ad_decode_entry (ad_encode_entry e @ rest) = Inr (e, rest)"
  by (auto simp: entry_ok_def ad_decode_entry_def ad_encode_entry_def cap_bounds codec unat_of_nat_small ad_decode_values_encode)

lemma ad_decode_entries_encode:
  "\<forall>e \<in> set es. entry_ok e \<Longrightarrow> ad_decode_entries (length es) (concat (map ad_encode_entry es) @ rest) = Inr es"
  by (induction es) (auto simp: ad_decode_entry_encode)

lemma ad_decode_encode [codec]: "ad_ok ad \<Longrightarrow> ad_decode (ad_encode ad @ rest) = Inr ad"
  by (simp add: ad_ok_def ad_decode_def ad_encode_def CAP_AD_MAGIC_def cap_bounds cap_read_u32_append unat_of_nat_small
      ad_decode_entries_encode)

lemma handshake_decode_encode [codec]: "ad_ok ad \<Longrightarrow> handshake_decode (handshake_encode ad @ rest) = Inr ad"
  by (simp add: handshake_decode_def handshake_encode_def HANDSHAKE_MAGIC_def le_bytes_def le_val_def
      numeral_2_eq_2 numeral_3_eq_3 ad_decode_encode)

section \<open>Negotiation\<close>

text \<open>
  The interface the registry relies on: a value codec that loses nothing, and a merge that picks the
  greatest value both sides support.
\<close>

locale max_common =
  fixes merge :: "'v::linorder list \<Rightarrow> 'v list \<Rightarrow> 'v option"
    and encode :: "'v \<Rightarrow> bytes"
    and decode :: "bytes \<Rightarrow> 'v option"
  assumes decode_encode: "decode (encode v) = Some v"
    and merge_max: "merge local peer =
      (if set local \<inter> set peer = {} then None else Some (Max (set local \<inter> set peer)))"
begin

lemma decode_all: "List.map_filter decode (map encode vs) = vs"
  by (induction vs) (simp_all add: List.map_filter_simps decode_encode)

lemma merge_sym: "merge a b = merge b a"
  by (simp add: merge_max Int_commute)

end

lemma iter_max_Max: "iter_max xs = (if xs = [] then None else Some (Max (set xs)))"
  by (cases xs) (simp_all add: iter_max_def Max.set_eq_fold [symmetric] del: set_simps)

interpretation u32_values: max_common u32_merge u32_encode u32_decode
proof
  fix v :: u32 and vs ws :: "u32 list"
  have "unat v < 256 ^ 4" using unsigned_less [where ?'a = nat and w = v] by simp
  then show "u32_decode (u32_encode v) = Some v"
    by (simp add: u32_decode_def u32_encode_def le_val_le_bytes)
  have "set (filter (\<lambda>v. v \<in> set ws) vs) = set vs \<inter> set ws" by auto
  then show "u32_merge vs ws = (if set vs \<inter> set ws = {} then None else Some (Max (set vs \<inter> set ws)))"
    by (simp add: u32_merge_def iter_max_Max flip: set_empty)
qed

lemma Max_bool: "A \<noteq> {} \<Longrightarrow> Max A = (True \<in> A)" for A :: "bool set"
proof (cases "True \<in> A")
  case True
  then have "Max A = True" by (intro Max_eqI) auto
  with True show ?thesis by simp
next
  case False
  moreover assume "A \<noteq> {}"
  moreover have "A \<subseteq> {True, False}" by auto
  ultimately have "A = {False}" by blast
  then show ?thesis by simp
qed

interpretation bool_values: max_common bool_merge bool_encode bool_decode
proof
  fix v and vs ws :: "bool list"
  show "bool_decode (bool_encode v) = Some v" by (simp add: bool_decode_def bool_encode_def)
  have "set vs \<inter> set ws = {} \<longleftrightarrow> \<not> (True \<in> set vs \<and> True \<in> set ws) \<and> \<not> (False \<in> set vs \<and> False \<in> set ws)"
    unfolding set_eq_iff all_bool_eq by blast
  then show "bool_merge vs ws = (if set vs \<inter> set ws = {} then None else Some (Max (set vs \<inter> set ws)))"
    by (auto simp: bool_merge_def Max_bool)
qed

text \<open>Lookups in a registry, its advertisement and the outcome of a negotiation.\<close>

definition registry_ok :: "capability_registry \<Rightarrow> bool" where
  "registry_ok reg \<longleftrightarrow> bt_sorted (reg_slots reg) \<and> bt_sorted (reg_negotiated reg)"

lemma register_ok:
  assumes "registry_ok reg" and "register cap reg = Some reg'"
  shows "registry_ok reg' \<and> map_of (reg_slots reg') = (map_of (reg_slots reg))(cap_name cap \<mapsto> slot_of cap)
    \<and> map_of (reg_negotiated reg') (cap_name cap) = None \<and> supported_values cap \<noteq> []"
proof -
  have "bt_sorted (filter P m)" if "bt_sorted m" for P and m :: "(bytes, bytes) btmap"
    using that by (simp add: bt_sorted_def sorted_wrt_map sorted_wrt_filter)
  with assms show ?thesis
    by (auto simp: register_def registry_ok_def bt_simps bt_sorted_insert map_of_eq_None_iff split: if_splits)
qed

lemma map_of_fold_bt:
  "bt_sorted m \<Longrightarrow> map_of (fold (\<lambda>e. bt_insert (f e) (g e)) es m) = fold (\<lambda>e t. t(f e \<mapsto> g e)) es (map_of m)"
  by (induction es arbitrary: m) (simp_all add: bt_simps bt_sorted_insert)

lemma fold_upd_other: "k \<notin> f ` set es \<Longrightarrow> fold (\<lambda>e t. t(f e \<mapsto> g e)) es t k = t k"
  by (induction es arbitrary: t) (auto simp: fun_upd_def)

lemma fold_upd_distinct:
  "distinct (map f es) \<Longrightarrow> e \<in> set es \<Longrightarrow> fold (\<lambda>e t. t(f e \<mapsto> g e)) es t (f e) = Some (g e)"
proof (induction es arbitrary: t)
  case (Cons x es)
  show ?case
  proof (cases "e = x")
    case True
    with Cons.prems show ?thesis
      using fold_upd_other [of "f x" f es g "t(f x \<mapsto> g x)"] by (simp del: fun_upd_apply) simp
  next
    case False
    with Cons show ?thesis by simp
  qed
qed simp

lemma peer_by_name_advertise:
  assumes "registry_ok reg" and "map_of (reg_slots reg) name = Some slot"
  shows "map_of (peer_by_name (local_advertise reg)) name = Some (sl_supported_bytes slot)"
proof -
  let ?es = "ad_entries (local_advertise reg)"
  let ?e = "\<lambda>(name, slot). \<lparr>ce_name = name, ce_supported = sl_supported_bytes slot\<rparr>"
  have es: "?es = sort_key ce_name (map ?e (reg_slots reg))"
    by (simp add: local_advertise_def sort_by_key)
  have "distinct (map fst (reg_slots reg))" using assms(1) by (simp add: registry_ok_def bt_sorted_distinct)
  moreover have "map ce_name (map ?e (reg_slots reg)) = map fst (reg_slots reg)" by (auto simp: comp_def)
  ultimately have "distinct (map ce_name (map ?e (reg_slots reg)))" by (simp only:)
  then have d: "distinct (map ce_name ?es)" unfolding es distinct_map distinct_sort set_sort .
  have "?e (name, slot) \<in> set ?es" using map_of_SomeD [OF assms(2)] unfolding es by force
  from fold_upd_distinct [OF d this, of ce_supported Map.empty] show ?thesis
    by (simp add: peer_by_name_def map_of_fold_bt)
qed

lemma negotiate_slot:
  assumes "registry_ok reg" and "map_of (reg_slots reg) name = Some slot"
  shows "map_of (reg_negotiated (snd (negotiate ad reg))) name = Some (choose_value (peer_by_name ad) name slot)"
proof -
  have d: "distinct (map fst (reg_slots reg))" and n: "bt_sorted (reg_negotiated reg)"
    using assms(1) by (simp_all add: registry_ok_def bt_sorted_distinct)
  let ?g = "\<lambda>(n, s). choose_value (peer_by_name ad) n s"
  let ?r = "negotiate_with_floor reg ad"
  have r: "?r = fold (\<lambda>e. bt_insert (fst e) (?g e)) (reg_slots reg) []"
    by (simp add: negotiate_with_floor_def case_prod_unfold)
  then have "map_of ?r name = Some (choose_value (peer_by_name ad) name slot)"
    using fold_upd_distinct [OF d map_of_SomeD [OF assms(2)], of ?g Map.empty] by (simp add: map_of_fold_bt)
  moreover have "bt_sorted ?r"
    using bt_sorted_fold_insert [of "[]" "map (\<lambda>e. (fst e, ?g e)) (reg_slots reg)"] by (simp add: r fold_map comp_def)
  ultimately show ?thesis
    using fold_upd_distinct [OF bt_sorted_distinct map_of_SomeD, of ?r name _ snd "map_of (reg_negotiated reg)"] n
    by (simp add: negotiate_def Let_def case_prod_unfold map_of_fold_bt)
qed

text \<open>The value a node with \<open>local\<close> settles on against a peer with \<open>peer\<close>.\<close>

definition settled :: "u32 list \<Rightarrow> u32 list \<Rightarrow> u32" where
  "settled local peer =
     (if set local \<inter> set peer = {} then hd local else Max (set local \<inter> set peer))"

lemma current_after_negotiate:
  assumes "registry_ok ra" and "register (u32_capability ty name vs) ra = Some a"
    and "registry_ok rb" and "register (u32_capability ty name ws) rb = Some b"
  shows "current (u32_capability ty name vs) name (snd (negotiate (local_advertise b) a)) = Some (settled vs ws)"
proof -
  let ?va = "u32_capability ty name vs" and ?vb = "u32_capability ty name ws"
  have a: "registry_ok a" "map_of (reg_slots a) name = Some (slot_of ?va)" "vs \<noteq> []"
    using register_ok [OF assms(1,2)] by (simp_all add: u32_capability_def)
  have b: "registry_ok b" "map_of (reg_slots b) name = Some (slot_of ?vb)"
    using register_ok [OF assms(3,4)] by (simp_all add: u32_capability_def)
  have "sl_supported_bytes (slot_of ?vb) = map u32_encode ws" by (simp add: slot_of_def Let_def u32_capability_def)
  with peer_by_name_advertise [OF b]
  have "choose_value (peer_by_name (local_advertise b)) name (slot_of ?va) = u32_encode (settled vs ws)"
    using a(3) by (simp add: choose_value_def slot_of_def Let_def merge_fn_def u32_capability_def u32_values.decode_all
        u32_values.merge_max settled_def hd_map)
  with negotiate_slot [OF a(1,2), of "local_advertise b"] a(2) show ?thesis
    by (simp add: current_def negotiate_def Let_def slot_of_def u32_capability_def u32_values.decode_encode)
qed

section \<open>Properties\<close>

text \<open>
  C40. An advertisement survives the wire: whatever bytes follow it, decoding the encoding of an
  advertisement within the bounds (at most 1024 entries, ASCII names of at most 256 bytes, fewer than
  65536 values of at most 16384 bytes each) gives it back, bare and inside a handshake; and no
  handshake with another magic, with flags set or shorter than its prefix is accepted.
\<close>

theorem capability_codec_roundtrip:
  assumes "ad_ok ad"
  shows "ad_decode (ad_encode ad @ rest) = Inr ad
    \<and> handshake_decode (handshake_encode ad @ rest) = Inr ad
    \<and> (handshake_decode bs = Inr ad' \<longrightarrow> take 4 bs = HANDSHAKE_MAGIC \<and> 6 \<le> length bs \<and> bs ! 4 = 0 \<and> bs ! 5 = 0)"
proof -
  have len: "length HANDSHAKE_MAGIC = 4" by (simp add: HANDSHAKE_MAGIC_def)
  have "bs ! 4 = 0 \<and> bs ! 5 = 0" if "(of_nat (le_val [bs ! 4, bs ! 5]) :: u16) = 0"
  proof -
    have "le_val [bs ! 4, bs ! 5] < 2 ^ 16" using le_val_bound [of "[bs ! 4, bs ! 5]"] by simp
    with that unat_of_nat_small [where ?'a = 16, of "le_val [bs ! 4, bs ! 5]"] have "le_val [bs ! 4, bs ! 5] = 0"
      by (simp del: of_nat_eq_0_iff)
    then show ?thesis by (simp add: le_val_def unat_eq_zero)
  qed
  then have "handshake_decode bs = Inr ad' \<longrightarrow> take 4 bs = HANDSHAKE_MAGIC \<and> 6 \<le> length bs \<and> bs ! 4 = 0 \<and> bs ! 5 = 0"
    using len by (auto simp: handshake_decode_def Let_def split: if_splits)
  with assms show ?thesis by (simp add: codec)
qed

definition sample_ad :: capability_ad where
  "sample_ad = \<lparr>ad_entries = [\<lparr>ce_name = [102], ce_supported = [[1, 0, 0, 0], []]\<rparr>]\<rparr>"

theorem capability_codec_roundtrip_witness:
  "ad_ok sample_ad \<and> handshake_decode (handshake_encode sample_ad @ [9]) = Inr sample_ad"
proof -
  have ok: "ad_ok sample_ad" by (simp add: sample_ad_def ad_ok_def entry_ok_def is_ascii_def cap_bounds)
  from ok capability_codec_roundtrip [OF ok, of "[9]"] show ?thesis by blast
qed

text \<open>
  C20. Two nodes that register one integer capability, each with its own supported values, and exchange
  advertisements through the handshake settle on one value: the greatest both support, and where
  they share none each stays at its own floor, the first value it lists.
\<close>

theorem negotiation_agrees:
  assumes "registry_ok ra" and "register (u32_capability ty name vs) ra = Some a"
    and "registry_ok rb" and "register (u32_capability ty name ws) rb = Some b"
    and "ad_ok (local_advertise a)" and "ad_ok (local_advertise b)"
  shows "\<exists>from_a from_b. handshake_decode (handshake_encode (local_advertise a)) = Inr from_a
    \<and> handshake_decode (handshake_encode (local_advertise b)) = Inr from_b
    \<and> current (u32_capability ty name vs) name (snd (negotiate from_b a)) = Some (settled vs ws)
    \<and> current (u32_capability ty name ws) name (snd (negotiate from_a b)) = Some (settled ws vs)
    \<and> (set vs \<inter> set ws \<noteq> {} \<longrightarrow> settled vs ws = settled ws vs)"
proof -
  have "handshake_decode (handshake_encode (local_advertise a)) = Inr (local_advertise a)"
    "handshake_decode (handshake_encode (local_advertise b)) = Inr (local_advertise b)"
    using handshake_decode_encode [OF assms(5), of "[]"] handshake_decode_encode [OF assms(6), of "[]"] by simp_all
  moreover have "set vs \<inter> set ws \<noteq> {} \<longrightarrow> settled vs ws = settled ws vs" by (simp add: settled_def Int_commute)
  ultimately show ?thesis
    using current_after_negotiate [OF assms(1,2,3,4)] current_after_negotiate [OF assms(3,4,1,2)] by blast
qed

theorem negotiation_agrees_witness:
  "\<exists>a b from_b. register (u32_capability 0 [102] [1, 2]) registry_new = Some a
     \<and> register (u32_capability 0 [102] [1]) registry_new = Some b
     \<and> handshake_decode (handshake_encode (local_advertise b)) = Inr from_b
     \<and> current (u32_capability 0 [102] [1, 2]) [102] (snd (negotiate from_b a)) = Some 1"
proof -
  have new: "registry_ok registry_new" by (simp add: registry_ok_def registry_new_def)
  obtain a where a: "register (u32_capability 0 [102] [1, 2]) registry_new = Some a"
    by (simp add: register_def u32_capability_def is_ascii_def)
  obtain b where b: "register (u32_capability 0 [102] [1]) registry_new = Some b"
    by (simp add: register_def u32_capability_def is_ascii_def)
  have "ad_ok (local_advertise a)" "ad_ok (local_advertise b)"
    using a b by (auto simp: register_def u32_capability_def is_ascii_def registry_new_def local_advertise_def
        sort_by_def ad_ok_def entry_ok_def cap_bounds slot_of_def u32_encode_def)
  from negotiation_agrees [OF new a new b this] a b show ?thesis by (auto simp: settled_def)
qed

text \<open>
  The value in force is that of the latest peer alone: a node that met a peer with only the first
  version and then one with both is back at the second.
\<close>

lemma negotiation_forgets_older_peers:
  assumes "registry_ok r" and "register (u32_capability ty name [1, 2]) r = Some a"
    and "registry_ok rn" and "register (u32_capability ty name [1, 2]) rn = Some newer"
  shows "current (u32_capability ty name [1, 2]) name
    (snd (negotiate (local_advertise newer) (snd (negotiate ad a)))) = Some 2"
proof -
  let ?c = "u32_capability ty name [1, 2]"
  have a: "registry_ok a" "map_of (reg_slots a) name = Some (slot_of ?c)"
    using register_ok [OF assms(1,2)] by (simp_all add: u32_capability_def)
  let ?a = "snd (negotiate ad a)"
  have "reg_slots ?a = reg_slots a" by (simp add: negotiate_def Let_def)
  moreover have "bt_sorted (reg_negotiated ?a)"
    using a(1) by (simp add: negotiate_def Let_def registry_ok_def bt_sorted_fold_insert)
  ultimately have a': "registry_ok ?a" "map_of (reg_slots ?a) name = Some (slot_of ?c)"
    using a by (simp_all add: registry_ok_def)
  have n: "registry_ok newer" "map_of (reg_slots newer) name = Some (slot_of ?c)"
    using register_ok [OF assms(3,4)] by (simp_all add: u32_capability_def)
  have "choose_value (peer_by_name (local_advertise newer)) name (slot_of ?c) = u32_encode 2"
    using peer_by_name_advertise [OF n]
    by (simp add: choose_value_def slot_of_def Let_def merge_fn_def u32_capability_def u32_values.decode_all [of "[1, 2]", simplified]
        u32_values.merge_max)
  with negotiate_slot [OF a', of "local_advertise newer"] a'(2) show ?thesis
    by (simp add: current_def negotiate_def Let_def slot_of_def u32_capability_def u32_values.decode_encode)
qed

end
