(* ===== verification/Ascii.thy ===== *)
theory Ascii
  imports Prelude
begin

text \<open>
  ASCII text in byte strings: digits, the decimal form that \<open>write!("{}", n)\<close> produces, and the
  facts the decimal readers of the development share.
\<close>

abbreviation is_ascii_digit :: "u8 \<Rightarrow> bool" where
  "is_ascii_digit b \<equiv> 48 \<le> b \<and> b \<le> 57"

text \<open>Decimal digits as ASCII bytes, the most significant first.\<close>

fun dec_bytes :: "nat \<Rightarrow> bytes" where
  "dec_bytes n = (if n < 10 then [48 + of_nat n] else dec_bytes (n div 10) @ [48 + of_nat (n mod 10)])"

declare dec_bytes.simps [simp del]

lemma digit_byte:
  assumes "d < 10"
  shows "48 \<le> (48 + of_nat d :: u8)" "(48 + of_nat d :: u8) \<le> 57"
    "(ucast (48 + of_nat d - 48 :: u8) :: u32) = of_nat d"
    "(48 + of_nat d :: u8) \<noteq> 45" "(48 + of_nat d :: u8) = 48 \<longleftrightarrow> d = 0"
proof -
  have "d \<in> {0, 1, 2, 3, 4, 5, 6, 7, 8, 9}" using assms by auto
  then show "48 \<le> (48 + of_nat d :: u8)" "(48 + of_nat d :: u8) \<le> 57"
    "(ucast (48 + of_nat d - 48 :: u8) :: u32) = of_nat d"
    "(48 + of_nat d :: u8) \<noteq> 45" "(48 + of_nat d :: u8) = 48 \<longleftrightarrow> d = 0"
    by auto
qed

lemma length_dec_bytes: "n < 10 ^ Suc k \<Longrightarrow> length (dec_bytes n) \<le> Suc k"
proof (induction k arbitrary: n)
  case 0
  then show ?case by (simp add: dec_bytes.simps [of n])
next
  case (Suc k)
  then have "n div 10 < 10 ^ Suc k" by (simp add: less_mult_imp_div_less)
  with Suc.IH [of "n div 10"] show ?case by (simp add: dec_bytes.simps [of n])
qed

lemma hd_dec_bytes: "\<exists>d bs. d < 10 \<and> dec_bytes n = (48 + of_nat d) # bs \<and> (d = 0 \<longrightarrow> n = 0)"
proof (induction n rule: dec_bytes.induct)
  case (1 n)
  show ?case
  proof (cases "n < 10")
    case True
    then show ?thesis by (auto simp: dec_bytes.simps [of n])
  next
    case False
    with 1 obtain d bs where "d < 10" "dec_bytes (n div 10) = (48 + of_nat d) # bs" "d = 0 \<longrightarrow> n div 10 = 0"
      by blast
    with False show ?thesis by (auto simp: dec_bytes.simps [of n])
  qed
qed

lemma digit_byte_facts:
  assumes "d < 10"
  shows "is_ascii_digit (48 + of_nat d)" "(ucast (48 + of_nat d - 48 :: u8) :: 'a::len word) = of_nat d"
proof -
  show "is_ascii_digit (48 + of_nat d)" using digit_byte [OF assms] by simp
  have "unat (of_nat d :: u8) = d" using assms by (simp add: unat_of_nat take_bit_nat_eq_self)
  then show "(ucast (48 + of_nat d - 48 :: u8) :: 'a::len word) = of_nat d"
    by (metis add_diff_cancel_left' of_nat_unat)
qed

text \<open>Induction over the digits of a number, the last digit last.\<close>

lemma dec_bytes_induct [case_names digit more]:
  assumes "\<And>n. n < 10 \<Longrightarrow> dec_bytes n = [48 + of_nat n] \<Longrightarrow> P n"
    and "\<And>n d. 0 < n \<Longrightarrow> d < 10 \<Longrightarrow> dec_bytes (n * 10 + d) = dec_bytes n @ [48 + of_nat d] \<Longrightarrow> P n \<Longrightarrow> P (n * 10 + d)"
  shows "P n"
proof (induction n rule: dec_bytes.induct)
  case (1 n)
  show ?case
  proof (cases "n < 10")
    case True
    then show ?thesis using assms(1) by (simp add: dec_bytes.simps [of n])
  next
    case False
    then have "P (n div 10 * 10 + n mod 10)"
      using 1 by (intro assms(2)) (auto simp: dec_bytes.simps [of n])
    then show ?thesis by simp
  qed
qed

end
