(* ===== verification/Token.thy ===== *)
theory Token
  imports Ascii "HOL-Library.Product_Lexorder" "HOL-Library.List_Lexorder"
begin

text \<open>
  Ring coordinates: the signed-magnitude token of \<open>crates/dynomite/src/hashkit/token.rs\<close>, its
  comparison and its textual parser.  The comparison is shown to be the order of a key, hence a
  total preorder; the parser is shown to read back every 32-bit number.
\<close>

section \<open>Tokens\<close>

definition TOKEN_WORD_CAPACITY :: nat where
  "TOKEN_WORD_CAPACITY = 4"

definition DIGITS_PER_INT :: nat where
  "DIGITS_PER_INT = 10"

definition RADIX_VAL_C_REFERENCE :: u32 where
  "RADIX_VAL_C_REFERENCE = 0x17179149"

datatype sign = Sign_Negative | Sign_Zero | Sign_Positive

fun as_i32 :: "sign \<Rightarrow> int" where
  "as_i32 Sign_Negative = -1"
| "as_i32 Sign_Zero = 0"
| "as_i32 Sign_Positive = 1"

datatype token_error =
    LengthExceeds nat
  | EmptyToken
  | DanglingMinus
  | GroupOverruns
  | MisalignedGroups
  | NonDigit u8

record dyn_token =
  tk_sign :: sign
  tk_mag :: "u32 list"
  tk_len :: nat

definition token_default :: dyn_token where
  "token_default = \<lparr>tk_sign = Sign_Zero, tk_mag = replicate TOKEN_WORD_CAPACITY 0, tk_len = 0\<rparr>"

definition token_size :: "nat \<Rightarrow> dyn_token \<Rightarrow> token_error + dyn_token" where
  "token_size len t =
     (if len > TOKEN_WORD_CAPACITY then Inl (LengthExceeds len)
      else Inr (t\<lparr>tk_len := len, tk_sign := Sign_Zero\<rparr>))"

definition set_int :: "u32 \<Rightarrow> dyn_token \<Rightarrow> dyn_token" where
  "set_int val t = t\<lparr>tk_mag := (tk_mag t)[0 := val], tk_len := 1,
     tk_sign := (if val > 0 then Sign_Positive else Sign_Zero)\<rparr>"

definition get_int :: "dyn_token \<Rightarrow> u32" where
  "get_int t = (if tk_len t = 0 then 0 else tk_mag t ! 0)"

text \<open>\<open>size(1).expect(..)\<close> followed by \<open>set_int\<close>.\<close>

definition from_u32 :: "u32 \<Rightarrow> dyn_token" where
  "from_u32 value = (case token_size 1 token_default of Inl _ \<Rightarrow> token_default | Inr t \<Rightarrow> set_int value t)"

text \<open>\<open>None\<close> is the failed assertion.\<close>

definition set_len_keep :: "nat \<Rightarrow> dyn_token \<Rightarrow> dyn_token option" where
  "set_len_keep len t = (if len \<le> TOKEN_WORD_CAPACITY then Some (t\<lparr>tk_len := len\<rparr>) else None)"

definition set_sign :: "sign \<Rightarrow> dyn_token \<Rightarrow> dyn_token" where
  "set_sign s t = t\<lparr>tk_sign := s\<rparr>"

text \<open>\<open>mag()\<close>: the words in use.\<close>

definition token_mag :: "dyn_token \<Rightarrow> u32 list" where
  "token_mag t = take (tk_len t) (tk_mag t)"

fun cmp_mag :: "u32 list \<Rightarrow> u32 list \<Rightarrow> ordering" where
  "cmp_mag (a # as) (b # bs) = (if a \<noteq> b then (if a > b then Greater else Less) else cmp_mag as bs)"
| "cmp_mag _ _ = Equal"

definition token_cmp :: "dyn_token \<Rightarrow> dyn_token \<Rightarrow> ordering" where
  "token_cmp self other =
     (if tk_sign self = tk_sign other then
        (if tk_sign self = Sign_Zero then Equal
         else if tk_len self = tk_len other then cmp_mag (token_mag self) (token_mag other)
         else if tk_len self > tk_len other then Greater else Less)
      else if as_i32 (tk_sign self) > as_i32 (tk_sign other) then Greater else Less)"

definition token_eq :: "dyn_token \<Rightarrow> dyn_token \<Rightarrow> bool" where
  "token_eq self other = (token_cmp self other = Equal)"

text \<open>What \<open>Hash::hash\<close> feeds to the hasher.\<close>

definition token_hash_input :: "dyn_token \<Rightarrow> int \<times> nat \<times> u32 list" where
  "token_hash_input t = (as_i32 (tk_sign t), tk_len t, token_mag t)"

section \<open>Textual form\<close>

fun atoui_loop :: "u32 \<Rightarrow> bytes \<Rightarrow> token_error + u32" where
  "atoui_loop acc [] = Inr acc"
| "atoui_loop acc (b # bs) =
     (if 48 \<le> b \<and> b \<le> 57 then atoui_loop (acc * 10 + ucast (b - 48)) bs else Inl (NonDigit b))"

definition atoui :: "bytes \<Rightarrow> token_error + u32" where
  "atoui bs = atoui_loop 0 bs"

text \<open>
  The two carry loops of \<open>add_next_word\<close>, from the last word in use down to the first; each step
  returns the buffer and the carry.
\<close>

primrec radix_loop :: "nat \<Rightarrow> u32 list \<times> u64 \<Rightarrow> u32 list \<times> u64" where
  "radix_loop 0 st = st"
| "radix_loop (Suc i) st =
     (let product = ucast RADIX_VAL_C_REFERENCE * ucast (fst st ! i) + snd st in
      radix_loop i ((fst st)[i := ucast product], drop_bit 32 product))"

primrec carry_loop :: "nat \<Rightarrow> u32 list \<times> u64 \<Rightarrow> u32 list \<times> u64" where
  "carry_loop 0 st = st"
| "carry_loop (Suc i) st =
     (let s = ucast (fst st ! i) + snd st in carry_loop i ((fst st)[i := ucast s], drop_bit 32 s))"

definition add_next_word :: "u32 list \<Rightarrow> nat \<Rightarrow> u32 \<Rightarrow> u32 list" where
  "add_next_word buf len next_int =
     (let buf1 = fst (radix_loop len (buf, 0));
          sum = (ucast (buf1 ! (len - 1)) :: u64) + ucast next_int;
          buf2 = buf1[len - 1 := ucast sum]
      in if len \<ge> 2 then fst (carry_loop (len - 1) (buf2, drop_bit 32 sum)) else buf2)"

text \<open>The loop over the remaining groups of ten digits.\<close>

function group_loop :: "bytes \<Rightarrow> nat \<Rightarrow> u32 list \<Rightarrow> token_error + u32 list" where
  "group_loop payload p buf =
     (if p < length payload then
        (let e = p + DIGITS_PER_INT in
         if e > length payload then Inl MisalignedGroups
         else case atoui (slice payload p e) of
           Inl err \<Rightarrow> Inl err
         | Inr local \<Rightarrow> group_loop payload e (add_next_word buf 1 local))
      else Inr buf)"
  by auto
termination
  by (relation "measure (\<lambda>(payload, p, _). length payload - p)") (auto simp: DIGITS_PER_INT_def)

declare group_loop.simps [simp del]

definition token_signed :: "bytes \<Rightarrow> token_error + (sign \<times> bytes)" where
  "token_signed bs =
     (if bs = [] then Inl EmptyToken
      else if bs ! 0 = 45 then
        (if length bs < 2 then Inl DanglingMinus else Inr (Sign_Negative, drop 1 bs))
      else if length bs = 1 \<and> bs ! 0 = 48 then Inr (Sign_Zero, bs)
      else Inr (Sign_Positive, bs))"

definition parse_token :: "bytes \<Rightarrow> token_error + dyn_token" where
  "parse_token bs =
     (case token_signed bs of
        Inl e \<Rightarrow> Inl e
      | Inr (sg, payload) \<Rightarrow>
          (let digits = length payload;
               first_group_len = (if digits mod DIGITS_PER_INT = 0 then DIGITS_PER_INT
                                  else digits mod DIGITS_PER_INT)
           in
           if first_group_len > digits then Inl GroupOverruns
           else case atoui (take first_group_len payload) of
             Inl e \<Rightarrow> Inl e
           | Inr w \<Rightarrow>
               (case group_loop payload first_group_len ((replicate TOKEN_WORD_CAPACITY 0)[0 := w]) of
                  Inl e \<Rightarrow> Inl e
                | Inr buf \<Rightarrow> Inr \<lparr>tk_sign = sg, tk_mag = buf, tk_len = 1\<rparr>)))"

section \<open>The comparison is a total preorder\<close>

definition token_ok :: "dyn_token \<Rightarrow> bool" where
  "token_ok t \<longleftrightarrow> length (tk_mag t) = TOKEN_WORD_CAPACITY \<and> tk_len t \<le> TOKEN_WORD_CAPACITY"

text \<open>The sign decides, then the number of words, then the words from the first.\<close>

definition token_key :: "dyn_token \<Rightarrow> int \<times> nat \<times> u32 list" where
  "token_key t = (if tk_sign t = Sign_Zero then (0, 0, [])
     else (as_i32 (tk_sign t), tk_len t, token_mag t))"

lemma cmp_mag_order: "length as = length bs \<Longrightarrow> cmp_mag as bs = compare_of as bs"
  by (induction as bs rule: cmp_mag.induct) (auto simp: compare_of_def)

lemma as_i32_inject: "as_i32 s = as_i32 s' \<longleftrightarrow> s = s'"
  by (cases s; cases s') auto

lemma token_cmp_key:
  assumes "token_ok a" and "token_ok b"
  shows "token_cmp a b = compare_of (token_key a) (token_key b)"
proof (cases "tk_sign a = tk_sign b")
  case True
  then show ?thesis
    using assms by (auto simp: token_cmp_def token_key_def cmp_mag_order token_mag_def token_ok_def
        compare_of_def)
next
  case False
  have "tk_sign t \<noteq> Sign_Zero \<Longrightarrow> as_i32 (tk_sign t) \<noteq> 0" for t by (cases "tk_sign t") auto
  then show ?thesis
    using False as_i32_inject [of "tk_sign a" "tk_sign b"]
    by (auto simp: token_cmp_def token_key_def compare_of_def)
qed

lemma token_ok_from_u32 [simp]: "token_ok (from_u32 v)"
  by (simp add: token_ok_def from_u32_def token_size_def set_int_def token_default_def TOKEN_WORD_CAPACITY_def)

lemma from_u32_eq:
  "from_u32 v = \<lparr>tk_sign = (if v > 0 then Sign_Positive else Sign_Zero), tk_mag = [v, 0, 0, 0], tk_len = 1\<rparr>"
  by (simp add: from_u32_def token_size_def set_int_def token_default_def TOKEN_WORD_CAPACITY_def
      numeral_eq_Suc)

lemma from_u32_cmp: "token_cmp (from_u32 a) (from_u32 b) = compare_of a b"
  by (auto simp: token_cmp_def from_u32_eq token_mag_def compare_of_def word_gt_0)



text \<open>Tokens that are equal need not hash alike: zero tokens ignore their words in the comparison.\<close>

lemma token_eq_hash_differs:
  "token_eq token_default (from_u32 0) \<and> token_hash_input token_default \<noteq> token_hash_input (from_u32 0)"
  by (simp add: token_eq_def token_cmp_def token_hash_input_def from_u32_eq token_default_def)

text \<open>The multiplier is a power of nine, not a neighbour of \<open>10 ^ 9\<close>.\<close>

lemma radix_is_power_of_nine: "unat RADIX_VAL_C_REFERENCE = 9 ^ 9 \<and> unat RADIX_VAL_C_REFERENCE < 10 ^ 9"
  by (simp add: RADIX_VAL_C_REFERENCE_def)

section \<open>Parsing decimal numbers\<close>

lemma atoui_loop_append:
  "atoui_loop a (xs @ ys) = (case atoui_loop a xs of Inl e \<Rightarrow> Inl e | Inr b \<Rightarrow> atoui_loop b ys)"
  by (induction a xs rule: atoui_loop.induct) auto

lemma atoui_dec: "atoui (dec_bytes n) = Inr (of_nat n)"
proof (induction n rule: dec_bytes.induct)
  case (1 n)
  show ?case
  proof (cases "n < 10")
    case True
    then show ?thesis using digit_byte [of n] by (simp add: atoui_def dec_bytes.simps [of n])
  next
    case False
    have "of_nat (n div 10) * 10 + of_nat (n mod 10) = (of_nat n :: u32)"
      by (metis div_mult_mod_eq of_nat_add of_nat_mult of_nat_numeral)
    with False 1 digit_byte [of "n mod 10"] show ?thesis
      by (simp add: atoui_def dec_bytes.simps [of n] atoui_loop_append)
  qed
qed

text \<open>
  Every 32-bit number survives its textual form: parsing its decimal digits gives the token
  that the number itself makes.
\<close>

theorem parse_token_decimal: "parse_token (dec_bytes (unat v)) = Inr (from_u32 v)"
proof -
  let ?n = "unat v" let ?bs = "dec_bytes ?n" let ?l = "length ?bs"
  obtain d bs where d: "d < 10" and bs: "?bs = (48 + of_nat d) # bs" and z: "d = 0 \<longrightarrow> ?n = 0"
    using hd_dec_bytes [of ?n] by blast
  have "?n < 2 ^ 32" using unsigned_less [where ?'a = nat and w = v] by simp
  then have le: "?l \<le> 10" using length_dec_bytes [of ?n 9] by simp
  have ne: "?l \<noteq> 0" using bs by simp
  have first: "(if ?l mod DIGITS_PER_INT = 0 then DIGITS_PER_INT else ?l mod DIGITS_PER_INT) = ?l"
    using le ne by (cases "?l = 10") (auto simp: DIGITS_PER_INT_def)
  have sg: "token_signed ?bs = Inr (if v > 0 then Sign_Positive else Sign_Zero, ?bs)"
  proof (cases "?n = 0")
    case True
    then have "v = 0" by (simp add: unat_eq_zero)
    then show ?thesis by (simp add: token_signed_def dec_bytes.simps)
  next
    case False
    then have "d \<noteq> 0" "v > 0" using z by (auto simp: word_gt_0)
    then show ?thesis using d digit_byte [OF d] by (simp add: token_signed_def bs)
  qed
  have "group_loop ?bs ?l buf = Inr buf" for buf by (simp add: group_loop.simps)
  then show ?thesis
    unfolding parse_token_def sg by (simp add: first Let_def atoui_dec from_u32_eq TOKEN_WORD_CAPACITY_def numeral_eq_Suc)
qed

end
