(* ===== verification/Hash_Crc.thy ===== *)
theory Hash_Crc
  imports Token
begin

text \<open>
  The cyclic redundancy checks of \<open>crates/dynomite/src/hashkit/crc16.rs\<close> and \<open>crc32.rs\<close>, with their
  lookup tables.  The tables are shown to be what the generator polynomials give, and the
  table-driven loops to compute the bit-serial checksum.
\<close>

unbundle bit_operations_syntax

section \<open>Tables\<close>

definition CRC16TAB :: "u16 list" where
  "CRC16TAB =
    [
     0x0000, 0x1021, 0x2042, 0x3063, 0x4084, 0x50a5, 0x60c6, 0x70e7, 0x8108, 0x9129,
     0xa14a, 0xb16b, 0xc18c, 0xd1ad, 0xe1ce, 0xf1ef, 0x1231, 0x0210, 0x3273, 0x2252,
     0x52b5, 0x4294, 0x72f7, 0x62d6, 0x9339, 0x8318, 0xb37b, 0xa35a, 0xd3bd, 0xc39c,
     0xf3ff, 0xe3de, 0x2462, 0x3443, 0x0420, 0x1401, 0x64e6, 0x74c7, 0x44a4, 0x5485,
     0xa56a, 0xb54b, 0x8528, 0x9509, 0xe5ee, 0xf5cf, 0xc5ac, 0xd58d, 0x3653, 0x2672,
     0x1611, 0x0630, 0x76d7, 0x66f6, 0x5695, 0x46b4, 0xb75b, 0xa77a, 0x9719, 0x8738,
     0xf7df, 0xe7fe, 0xd79d, 0xc7bc, 0x48c4, 0x58e5, 0x6886, 0x78a7, 0x0840, 0x1861,
     0x2802, 0x3823, 0xc9cc, 0xd9ed, 0xe98e, 0xf9af, 0x8948, 0x9969, 0xa90a, 0xb92b,
     0x5af5, 0x4ad4, 0x7ab7, 0x6a96, 0x1a71, 0x0a50, 0x3a33, 0x2a12, 0xdbfd, 0xcbdc,
     0xfbbf, 0xeb9e, 0x9b79, 0x8b58, 0xbb3b, 0xab1a, 0x6ca6, 0x7c87, 0x4ce4, 0x5cc5,
     0x2c22, 0x3c03, 0x0c60, 0x1c41, 0xedae, 0xfd8f, 0xcdec, 0xddcd, 0xad2a, 0xbd0b,
     0x8d68, 0x9d49, 0x7e97, 0x6eb6, 0x5ed5, 0x4ef4, 0x3e13, 0x2e32, 0x1e51, 0x0e70,
     0xff9f, 0xefbe, 0xdfdd, 0xcffc, 0xbf1b, 0xaf3a, 0x9f59, 0x8f78, 0x9188, 0x81a9,
     0xb1ca, 0xa1eb, 0xd10c, 0xc12d, 0xf14e, 0xe16f, 0x1080, 0x00a1, 0x30c2, 0x20e3,
     0x5004, 0x4025, 0x7046, 0x6067, 0x83b9, 0x9398, 0xa3fb, 0xb3da, 0xc33d, 0xd31c,
     0xe37f, 0xf35e, 0x02b1, 0x1290, 0x22f3, 0x32d2, 0x4235, 0x5214, 0x6277, 0x7256,
     0xb5ea, 0xa5cb, 0x95a8, 0x8589, 0xf56e, 0xe54f, 0xd52c, 0xc50d, 0x34e2, 0x24c3,
     0x14a0, 0x0481, 0x7466, 0x6447, 0x5424, 0x4405, 0xa7db, 0xb7fa, 0x8799, 0x97b8,
     0xe75f, 0xf77e, 0xc71d, 0xd73c, 0x26d3, 0x36f2, 0x0691, 0x16b0, 0x6657, 0x7676,
     0x4615, 0x5634, 0xd94c, 0xc96d, 0xf90e, 0xe92f, 0x99c8, 0x89e9, 0xb98a, 0xa9ab,
     0x5844, 0x4865, 0x7806, 0x6827, 0x18c0, 0x08e1, 0x3882, 0x28a3, 0xcb7d, 0xdb5c,
     0xeb3f, 0xfb1e, 0x8bf9, 0x9bd8, 0xabbb, 0xbb9a, 0x4a75, 0x5a54, 0x6a37, 0x7a16,
     0x0af1, 0x1ad0, 0x2ab3, 0x3a92, 0xfd2e, 0xed0f, 0xdd6c, 0xcd4d, 0xbdaa, 0xad8b,
     0x9de8, 0x8dc9, 0x7c26, 0x6c07, 0x5c64, 0x4c45, 0x3ca2, 0x2c83, 0x1ce0, 0x0cc1,
     0xef1f, 0xff3e, 0xcf5d, 0xdf7c, 0xaf9b, 0xbfba, 0x8fd9, 0x9ff8, 0x6e17, 0x7e36,
     0x4e55, 0x5e74, 0x2e93, 0x3eb2, 0x0ed1, 0x1ef0
    ]"

definition CRC32TAB :: "u32 list" where
  "CRC32TAB =
    [
     0x00000000, 0x77073096, 0xee0e612c, 0x990951ba, 0x076dc419, 0x706af48f,
     0xe963a535, 0x9e6495a3, 0x0edb8832, 0x79dcb8a4, 0xe0d5e91e, 0x97d2d988,
     0x09b64c2b, 0x7eb17cbd, 0xe7b82d07, 0x90bf1d91, 0x1db71064, 0x6ab020f2,
     0xf3b97148, 0x84be41de, 0x1adad47d, 0x6ddde4eb, 0xf4d4b551, 0x83d385c7,
     0x136c9856, 0x646ba8c0, 0xfd62f97a, 0x8a65c9ec, 0x14015c4f, 0x63066cd9,
     0xfa0f3d63, 0x8d080df5, 0x3b6e20c8, 0x4c69105e, 0xd56041e4, 0xa2677172,
     0x3c03e4d1, 0x4b04d447, 0xd20d85fd, 0xa50ab56b, 0x35b5a8fa, 0x42b2986c,
     0xdbbbc9d6, 0xacbcf940, 0x32d86ce3, 0x45df5c75, 0xdcd60dcf, 0xabd13d59,
     0x26d930ac, 0x51de003a, 0xc8d75180, 0xbfd06116, 0x21b4f4b5, 0x56b3c423,
     0xcfba9599, 0xb8bda50f, 0x2802b89e, 0x5f058808, 0xc60cd9b2, 0xb10be924,
     0x2f6f7c87, 0x58684c11, 0xc1611dab, 0xb6662d3d, 0x76dc4190, 0x01db7106,
     0x98d220bc, 0xefd5102a, 0x71b18589, 0x06b6b51f, 0x9fbfe4a5, 0xe8b8d433,
     0x7807c9a2, 0x0f00f934, 0x9609a88e, 0xe10e9818, 0x7f6a0dbb, 0x086d3d2d,
     0x91646c97, 0xe6635c01, 0x6b6b51f4, 0x1c6c6162, 0x856530d8, 0xf262004e,
     0x6c0695ed, 0x1b01a57b, 0x8208f4c1, 0xf50fc457, 0x65b0d9c6, 0x12b7e950,
     0x8bbeb8ea, 0xfcb9887c, 0x62dd1ddf, 0x15da2d49, 0x8cd37cf3, 0xfbd44c65,
     0x4db26158, 0x3ab551ce, 0xa3bc0074, 0xd4bb30e2, 0x4adfa541, 0x3dd895d7,
     0xa4d1c46d, 0xd3d6f4fb, 0x4369e96a, 0x346ed9fc, 0xad678846, 0xda60b8d0,
     0x44042d73, 0x33031de5, 0xaa0a4c5f, 0xdd0d7cc9, 0x5005713c, 0x270241aa,
     0xbe0b1010, 0xc90c2086, 0x5768b525, 0x206f85b3, 0xb966d409, 0xce61e49f,
     0x5edef90e, 0x29d9c998, 0xb0d09822, 0xc7d7a8b4, 0x59b33d17, 0x2eb40d81,
     0xb7bd5c3b, 0xc0ba6cad, 0xedb88320, 0x9abfb3b6, 0x03b6e20c, 0x74b1d29a,
     0xead54739, 0x9dd277af, 0x04db2615, 0x73dc1683, 0xe3630b12, 0x94643b84,
     0x0d6d6a3e, 0x7a6a5aa8, 0xe40ecf0b, 0x9309ff9d, 0x0a00ae27, 0x7d079eb1,
     0xf00f9344, 0x8708a3d2, 0x1e01f268, 0x6906c2fe, 0xf762575d, 0x806567cb,
     0x196c3671, 0x6e6b06e7, 0xfed41b76, 0x89d32be0, 0x10da7a5a, 0x67dd4acc,
     0xf9b9df6f, 0x8ebeeff9, 0x17b7be43, 0x60b08ed5, 0xd6d6a3e8, 0xa1d1937e,
     0x38d8c2c4, 0x4fdff252, 0xd1bb67f1, 0xa6bc5767, 0x3fb506dd, 0x48b2364b,
     0xd80d2bda, 0xaf0a1b4c, 0x36034af6, 0x41047a60, 0xdf60efc3, 0xa867df55,
     0x316e8eef, 0x4669be79, 0xcb61b38c, 0xbc66831a, 0x256fd2a0, 0x5268e236,
     0xcc0c7795, 0xbb0b4703, 0x220216b9, 0x5505262f, 0xc5ba3bbe, 0xb2bd0b28,
     0x2bb45a92, 0x5cb36a04, 0xc2d7ffa7, 0xb5d0cf31, 0x2cd99e8b, 0x5bdeae1d,
     0x9b64c2b0, 0xec63f226, 0x756aa39c, 0x026d930a, 0x9c0906a9, 0xeb0e363f,
     0x72076785, 0x05005713, 0x95bf4a82, 0xe2b87a14, 0x7bb12bae, 0x0cb61b38,
     0x92d28e9b, 0xe5d5be0d, 0x7cdcefb7, 0x0bdbdf21, 0x86d3d2d4, 0xf1d4e242,
     0x68ddb3f8, 0x1fda836e, 0x81be16cd, 0xf6b9265b, 0x6fb077e1, 0x18b74777,
     0x88085ae6, 0xff0f6a70, 0x66063bca, 0x11010b5c, 0x8f659eff, 0xf862ae69,
     0x616bffd3, 0x166ccf45, 0xa00ae278, 0xd70dd2ee, 0x4e048354, 0x3903b3c2,
     0xa7672661, 0xd06016f7, 0x4969474d, 0x3e6e77db, 0xaed16a4a, 0xd9d65adc,
     0x40df0b66, 0x37d83bf0, 0xa9bcae53, 0xdebb9ec5, 0x47b2cf7f, 0x30b5ffe9,
     0xbdbdf21c, 0xcabac28a, 0x53b39330, 0x24b4a3a6, 0xbad03605, 0xcdd70693,
     0x54de5729, 0x23d967bf, 0xb3667a2e, 0xc4614ab8, 0x5d681b02, 0x2a6f2b94,
     0xb40bbe37, 0xc30c8ea1, 0x5a05df1b, 0x2d02ef8d
    ]"

section \<open>Checksums\<close>

text \<open>One iteration of each loop; the index is masked to eight bits, so it is in range.\<close>

definition crc16_step :: "u8 \<Rightarrow> u32 \<Rightarrow> u32" where
  "crc16_step byte crc =
     (let idx = (drop_bit 8 crc XOR ucast byte) AND 0xff in push_bit 8 crc XOR ucast (CRC16TAB ! unat idx))"

definition crc16_hash :: "bytes \<Rightarrow> dyn_token" where
  "crc16_hash key = from_u32 (fold crc16_step key 0)"

definition crc32_step :: "u8 \<Rightarrow> u32 \<Rightarrow> u32" where
  "crc32_step byte crc = drop_bit 8 crc XOR CRC32TAB ! unat ((crc XOR ucast byte) AND 0xff)"

definition hash_libmemcached :: "bytes \<Rightarrow> dyn_token" where
  "hash_libmemcached key =
     (let crc = fold crc32_step key (- 1) in from_u32 (drop_bit 16 (NOT crc) AND 0x7fff))"

definition hash_standard :: "bytes \<Rightarrow> dyn_token" where
  "hash_standard key = (let crc = fold crc32_step key (NOT 0) in from_u32 (crc XOR NOT 0))"

definition to_ascii_lowercase :: "u8 \<Rightarrow> u8" where
  "to_ascii_lowercase b = (if 65 \<le> b \<and> b \<le> 90 then b + 32 else b)"

definition crc32_sz :: "bytes \<Rightarrow> u32 \<Rightarrow> u32" where
  "crc32_sz buf in_crc32 = NOT (fold (\<lambda>b crc. crc32_step (to_ascii_lowercase b) crc) buf (NOT in_crc32))"

section \<open>Bit-serial reference\<close>

text \<open>
  Division of the message polynomial, one bit at a time: the reflected CRC-32 register shifts right
  and the CRC-16 register left.
\<close>

definition crc32_bit :: "u32 \<Rightarrow> u32" where
  "crc32_bit c = (if bit c 0 then drop_bit 1 c XOR 0xedb88320 else drop_bit 1 c)"

definition crc32_byte :: "u8 \<Rightarrow> u32 \<Rightarrow> u32" where
  "crc32_byte b c = (crc32_bit ^^ 8) (c XOR ucast b)"

definition crc16_bit :: "u16 \<Rightarrow> u16" where
  "crc16_bit c = (if bit c 15 then push_bit 1 c XOR 0x1021 else push_bit 1 c)"

definition crc16_byte :: "u8 \<Rightarrow> u16 \<Rightarrow> u16" where
  "crc16_byte b c = (crc16_bit ^^ 8) (c XOR push_bit 8 (ucast b))"

section \<open>The tables are the polynomials\<close>

text \<open>
  Shifting with feedback is linear over exclusive-or, so the table is determined by its entries at
  the powers of two; \<open>xor_table\<close> builds it from them by doubling.
\<close>

definition xor_linear :: "('a::len word \<Rightarrow> 'b::len word) \<Rightarrow> bool" where
  "xor_linear f \<longleftrightarrow> (\<forall>a b. f (a XOR b) = f a XOR f b)"

lemma xor_linearD: "xor_linear f \<Longrightarrow> f (a XOR b) = f a XOR f b"
  by (simp add: xor_linear_def)

lemma xor_linear_0: "xor_linear f \<Longrightarrow> f 0 = 0"
  using xor_linearD [of f 0 0] by simp

lemma xor_linear_funpow: "xor_linear f \<Longrightarrow> xor_linear (f ^^ n)" for f :: "'a::len word \<Rightarrow> 'a word"
  by (induction n) (auto simp: xor_linear_def)

primrec xor_table :: "('a::len word \<Rightarrow> 'b::len word) \<Rightarrow> nat \<Rightarrow> 'b word list" where
  "xor_table f 0 = [0]"
| "xor_table f (Suc n) = xor_table f n @ map (\<lambda>x. f (push_bit n 1) XOR x) (xor_table f n)"

lemma of_nat_split: "j < 2 ^ n \<Longrightarrow> (of_nat (2 ^ n + j) :: 'a::len word) = push_bit n 1 XOR of_nat j"
proof -
  assume "j < 2 ^ n"
  then have j: "take_bit n j = j" by (simp add: take_bit_nat_eq_self_iff)
  have "bit j m \<Longrightarrow> m < n" for m using j by (metis bit_take_bit_iff)
  then have "push_bit n 1 AND (of_nat j :: 'a word) = 0"
    by (intro bit_word_eqI) (auto simp: bit_simps)
  moreover from this have "push_bit n 1 XOR (of_nat j :: 'a word) = push_bit n 1 OR of_nat j"
    by (intro bit_word_eqI) (metis bit_and_iff bit_or_iff bit_xor_iff bit_0_eq bot_apply bot_bool_def)
  ultimately show ?thesis
    using word_plus_and_or [of "push_bit n 1" "of_nat j :: 'a word"] by (simp add: push_bit_eq_mult)
qed

lemma xor_table_map:
  "xor_linear f \<Longrightarrow> xor_table f n = map (\<lambda>i. f (of_nat i)) [0..<2 ^ n]"
proof (induction n)
  case 0
  then show ?case by (simp add: xor_linear_0)
next
  case (Suc n)
  have "[0..<2 ^ Suc n] = [0..<2 ^ n] @ map (\<lambda>i. 2 ^ n + i) [0..<2 ^ n]"
    using upt_add_eq_append [of 0 "2 ^ n" "2 ^ n"] map_add_upt [of "2 ^ n" "2 ^ n"]
    by (simp add: mult_2 add.commute)
  moreover have "map (\<lambda>i. f (of_nat i)) (map (\<lambda>i. 2 ^ n + i) [0..<2 ^ n])
      = map (\<lambda>i. f (push_bit n 1) XOR f (of_nat i)) [0..<2 ^ n]"
    using xor_linearD [OF Suc.prems] of_nat_split [where ?'a = 'a] by (auto simp del: of_nat_add)
  ultimately show ?case using Suc by (simp add: comp_def)
qed

lemma crc32_bit_linear: "xor_linear crc32_bit"
  unfolding xor_linear_def crc32_bit_def
  by (auto simp: bit_simps bit_eq_iff)

lemma crc16_bit_linear: "xor_linear crc16_bit"
  unfolding xor_linear_def crc16_bit_def
  by (auto simp: bit_simps bit_eq_iff)

lemma funpow_8: "(f ^^ 8) x = f (f (f (f (f (f (f (f x)))))))"
  by (simp add: eval_nat_numeral)

definition xor_double :: "'a::len word \<Rightarrow> 'a word list \<Rightarrow> 'a word list" where
  "xor_double p t = t @ map (\<lambda>x. p XOR x) t"

lemma xor_table_8:
  "xor_table f 8 = xor_double (f (push_bit 7 1)) (xor_double (f (push_bit 6 1)) (xor_double (f (push_bit 5 1))
     (xor_double (f (push_bit 4 1)) (xor_double (f (push_bit 3 1)) (xor_double (f (push_bit 2 1))
     (xor_double (f (push_bit 1 1)) (xor_double (f (push_bit 0 1)) [0])))))))"
proof -
  have "xor_table f (Suc n) = xor_double (f (push_bit n 1)) (xor_table f n)" for n
    by (simp add: xor_double_def)
  moreover from this [of 0] this [of 1] have "xor_table f 2 = xor_double (f 2) (xor_double (f 1) [0])"
    by (simp add: numeral_2_eq_2 del: xor_table.simps(2))
  ultimately have "xor_table f 2 = xor_double (f 2) (xor_double (f 1) [0])"
    and "xor_table f (Suc n) = xor_double (f (push_bit n 1)) (xor_table f n)" for n by blast+
  from this(1) this(2) [of 2] this(2) [of 3] this(2) [of 4] this(2) [of 5] this(2) [of 6] this(2) [of 7]
  show ?thesis by (simp del: xor_table.simps(2) push_bit_of_1)
qed

lemma crc32_powers:
  "(crc32_bit ^^ 8) (push_bit 0 1) = 0x77073096" "(crc32_bit ^^ 8) (push_bit 1 1) = 0xee0e612c"
  "(crc32_bit ^^ 8) (push_bit 2 1) = 0x076dc419" "(crc32_bit ^^ 8) (push_bit 3 1) = 0x0edb8832"
  "(crc32_bit ^^ 8) (push_bit 4 1) = 0x1db71064" "(crc32_bit ^^ 8) (push_bit 5 1) = 0x3b6e20c8"
  "(crc32_bit ^^ 8) (push_bit 6 1) = 0x76dc4190" "(crc32_bit ^^ 8) (push_bit 7 1) = 0xedb88320"
  by (simp_all add: funpow_8 crc32_bit_def)

lemma crc32_table: "CRC32TAB = xor_table (crc32_bit ^^ 8) 8"
  unfolding xor_table_8 crc32_powers CRC32TAB_def by (simp add: xor_double_def)

lemma crc16_powers:
  "(crc16_bit ^^ 8) (push_bit 8 (push_bit 0 1)) = 0x1021" "(crc16_bit ^^ 8) (push_bit 8 (push_bit 1 1)) = 0x2042"
  "(crc16_bit ^^ 8) (push_bit 8 (push_bit 2 1)) = 0x4084" "(crc16_bit ^^ 8) (push_bit 8 (push_bit 3 1)) = 0x8108"
  "(crc16_bit ^^ 8) (push_bit 8 (push_bit 4 1)) = 0x1231" "(crc16_bit ^^ 8) (push_bit 8 (push_bit 5 1)) = 0x2462"
  "(crc16_bit ^^ 8) (push_bit 8 (push_bit 6 1)) = 0x48c4" "(crc16_bit ^^ 8) (push_bit 8 (push_bit 7 1)) = 0x9188"
  by (simp_all add: funpow_8 crc16_bit_def)

lemma crc16_table: "CRC16TAB = xor_table (\<lambda>x. (crc16_bit ^^ 8) (push_bit 8 x)) 8"
  unfolding xor_table_8 crc16_powers CRC16TAB_def by (simp add: xor_double_def)

lemma crc32_table_nth: "i < 256 \<Longrightarrow> CRC32TAB ! i = (crc32_bit ^^ 8) (of_nat i)"
  using xor_linear_funpow [OF crc32_bit_linear, of 8] by (simp add: crc32_table xor_table_map)

lemma crc16_table_nth: "i < 256 \<Longrightarrow> CRC16TAB ! i = (crc16_bit ^^ 8) (push_bit 8 (of_nat i))"
proof -
  have "xor_linear (\<lambda>x. (crc16_bit ^^ 8) (push_bit 8 x))"
    using xor_linearD [OF xor_linear_funpow [OF crc16_bit_linear]]
    by (simp add: xor_linear_def push_bit_xor)
  then show "i < 256 \<Longrightarrow> CRC16TAB ! i = (crc16_bit ^^ 8) (push_bit 8 (of_nat i))"
    by (simp add: crc16_table xor_table_map)
qed

section \<open>The loops compute the bit-serial checksums\<close>

lemma crc32_shift: "take_bit n z = 0 \<Longrightarrow> (crc32_bit ^^ n) z = drop_bit n z"
proof (induction n arbitrary: z)
  case 0
  then show ?case by simp
next
  case (Suc n)
  have z: "\<not> bit z m" if "m \<le> n" for m
    using Suc.prems that by (metis bit_take_bit_iff le_imp_less_Suc bit_0_eq bot_apply bot_bool_def)
  then have "crc32_bit z = drop_bit 1 z" by (simp add: crc32_bit_def)
  moreover have "take_bit n (drop_bit 1 z) = 0"
    using z by (intro bit_word_eqI) (auto simp: bit_simps)
  ultimately show ?case using Suc.IH [of "drop_bit 1 z"] by (simp add: funpow_Suc_right del: funpow.simps(2))
qed

lemma crc16_shift: "drop_bit (16 - n) z = 0 \<Longrightarrow> n \<le> 16 \<Longrightarrow> (crc16_bit ^^ n) z = push_bit n z"
proof (induction n arbitrary: z)
  case 0
  then show ?case by simp
next
  case (Suc n)
  have z: "\<not> bit z m" if "m \<ge> 16 - Suc n" for m
  proof -
    have "bit (drop_bit (16 - Suc n) z) (m - (16 - Suc n)) = bit z m"
      using that by (simp add: bit_drop_bit_eq)
    with Suc.prems(1) show ?thesis by simp
  qed
  then have "crc16_bit z = push_bit 1 z" by (simp add: crc16_bit_def)
  moreover have "drop_bit (16 - n) (push_bit 1 z) = 0"
  proof (rule bit_word_eqI)
    fix m
    show "bit (drop_bit (16 - n) (push_bit 1 z)) m = bit 0 m"
      using z [of "16 - n + m - 1"] Suc.prems(2) unfolding bit_drop_bit_eq comp_def bit_push_bit_iff by auto
  qed
  ultimately show ?case
    using Suc.IH [of "push_bit 1 z"] Suc.prems(2) by (simp add: funpow_Suc_right del: funpow.simps(2))
qed

lemma unat_take_bit_8: "unat (take_bit 8 (x :: u32)) < 256"
  using take_bit_nat_less_exp [of 8 "unat x"] by (simp add: unsigned_take_bit_eq)

lemma crc32_table_byte: "CRC32TAB ! unat (take_bit 8 (x :: u32)) = (crc32_bit ^^ 8) (take_bit 8 x)"
  using crc32_table_nth [OF unat_take_bit_8] by simp

lemma crc16_table_byte:
  "CRC16TAB ! unat (take_bit 8 (x :: u32)) = (crc16_bit ^^ 8) (push_bit 8 (ucast (take_bit 8 x)))"
  using crc16_table_nth [OF unat_take_bit_8] by simp

lemma word_split_xor: "x = take_bit n x XOR push_bit n (drop_bit n x)" for x :: "'a::len word"
proof (rule bit_word_eqI)
  fix m assume "m < LENGTH('a)"
  then show "bit x m = bit (take_bit n x XOR push_bit n (drop_bit n x)) m"
    by (cases "m < n") (auto simp: bit_simps not_less)
qed

lemma crc32_split: "(crc32_bit ^^ 8) x = (crc32_bit ^^ 8) (take_bit 8 x) XOR drop_bit 8 x"
proof -
  let ?f = "crc32_bit ^^ 8" and ?h = "push_bit 8 (drop_bit 8 x)"
  have "?f x = ?f (take_bit 8 x XOR ?h)" using word_split_xor [of x 8] by simp
  also have "\<dots> = ?f (take_bit 8 x) XOR ?f ?h"
    by (rule xor_linearD [OF xor_linear_funpow [OF crc32_bit_linear]])
  also have "?f ?h = drop_bit 8 ?h" by (rule crc32_shift) (simp add: take_bit_push_bit)
  also have "drop_bit 8 ?h = drop_bit 8 x"
    by (rule bit_word_eqI) (auto simp: bit_simps dest: bit_imp_le_length)
  finally show ?thesis .
qed

lemma crc16_split: "(crc16_bit ^^ 8) x = (crc16_bit ^^ 8) (push_bit 8 (drop_bit 8 x)) XOR push_bit 8 x"
proof -
  let ?f = "crc16_bit ^^ 8" and ?l = "take_bit 8 x"
  have "?f x = ?f (push_bit 8 (drop_bit 8 x) XOR ?l)" using word_split_xor [of x 8] by (simp add: xor.commute)
  also have "\<dots> = ?f (push_bit 8 (drop_bit 8 x)) XOR ?f ?l"
    by (rule xor_linearD [OF xor_linear_funpow [OF crc16_bit_linear]])
  also have "?f ?l = push_bit 8 ?l" by (rule crc16_shift) (auto intro!: bit_word_eqI simp: bit_simps)
  also have "push_bit 8 ?l = push_bit 8 x" by (rule bit_word_eqI) (auto simp: bit_simps)
  finally show ?thesis .
qed

lemma crc32_step_serial: "crc32_step b c = crc32_byte b c"
proof -
  have "(c XOR ucast b) AND 0xff = take_bit 8 (c XOR ucast b)"
    by (simp add: take_bit_eq_mask mask_eq_exp_minus_1)
  moreover have "drop_bit 8 (c XOR ucast b) = drop_bit 8 c"
    by (rule bit_word_eqI) (auto simp: bit_simps dest: bit_imp_le_length)
  ultimately show ?thesis
    unfolding crc32_step_def crc32_byte_def crc32_split [of "c XOR ucast b"]
    by (simp only: crc32_table_byte xor.commute)
qed

lemma crc16_step_serial: "(ucast (crc16_step b c) :: u16) = crc16_byte b (ucast c)"
proof -
  let ?x = "ucast c XOR push_bit 8 (ucast b) :: u16"
  let ?i = "take_bit 8 (drop_bit 8 c XOR ucast b)"
  have i: "(drop_bit 8 c XOR ucast b) AND 0xff = ?i"
    by (simp add: take_bit_eq_mask mask_eq_exp_minus_1)
  have d: "drop_bit 8 ?x = ucast ?i"
    by (rule bit_word_eqI) (auto simp: bit_simps dest: bit_imp_le_length)
  have p: "push_bit 8 ?x = ucast (push_bit 8 c)"
    by (rule bit_word_eqI) (auto simp: bit_simps)
  have "(ucast (crc16_step b c) :: u16) = ucast (push_bit 8 c) XOR ucast (ucast (CRC16TAB ! unat ?i) :: u32)"
    unfolding crc16_step_def Let_def i by (rule bit_word_eqI) (auto simp: bit_simps)
  also have "ucast (ucast (CRC16TAB ! unat ?i) :: u32) = CRC16TAB ! unat ?i"
    by (rule bit_word_eqI) (auto simp: bit_simps)
  finally show ?thesis
    unfolding crc16_byte_def crc16_split [of ?x] d p crc16_table_byte by (simp only: xor.commute)
qed

lemma crc32_steps: "crc32_step = crc32_byte"
  by (simp add: fun_eq_iff crc32_step_serial)

lemma crc16_fold: "(ucast (fold crc16_step key c) :: u16) = fold crc16_byte key (ucast c)"
  by (induction key arbitrary: c) (simp_all add: crc16_step_serial)

text \<open>
  C23. The table-driven loops compute the checksums they name.  CRC-32 is the reflected division by
  \<open>0xEDB88320\<close> started at all ones (complemented, or cut to fifteen bits for the libmemcached
  variant), the low sixteen bits of the CRC-16 token are the division by \<open>0x1021\<close> started at zero,
  and the case-folding CRC can be fed in pieces.
\<close>

theorem crc_bit_serial:
  "hash_standard key = from_u32 (NOT (fold crc32_byte key (- 1)))
   \<and> hash_libmemcached key = from_u32 (take_bit 15 (drop_bit 16 (NOT (fold crc32_byte key (- 1)))))
   \<and> ucast (get_int (crc16_hash key)) = fold crc16_byte key 0
   \<and> crc32_sz buf c = NOT (fold crc32_byte (map to_ascii_lowercase buf) (NOT c))
   \<and> crc32_sz (buf @ buf') c = crc32_sz buf' (crc32_sz buf c)"
proof -
  have m: "x AND 0x7fff = take_bit 15 x" for x :: u32
    by (simp add: take_bit_eq_mask mask_eq_exp_minus_1)
  have lower: "fold (\<lambda>b. crc32_byte (to_ascii_lowercase b)) b x = fold crc32_byte (map to_ascii_lowercase b) x" for b x
    by (induction b arbitrary: x) simp_all
  have "get_int (crc16_hash key) = fold crc16_step key 0"
    by (simp add: crc16_hash_def get_int_def from_u32_eq)
  then have "ucast (get_int (crc16_hash key)) = fold crc16_byte key 0"
    using crc16_fold [of key 0] by simp
  then show ?thesis
    by (simp add: hash_standard_def hash_libmemcached_def crc32_sz_def crc32_steps m lower)
qed

text \<open>The CRC-16 accumulator is not cut to sixteen bits: older bytes stay above them.\<close>

lemma crc16_token_wide: "65535 < get_int (crc16_hash [97, 98])"
  by (simp add: get_int_def crc16_hash_def from_u32_eq crc16_step_def CRC16TAB_def)

end
