(* ===== verification/Hash_Mix.thy ===== *)
theory Hash_Mix
  imports Token
begin

text \<open>
  The mixing hashes of \<open>crates/dynomite/src/hashkit\<close>: \<open>one_at_a_time.rs\<close>, \<open>fnv.rs\<close>, \<open>hsieh.rs\<close>,
  \<open>murmur.rs\<close>, \<open>jenkins.rs\<close> and \<open>murmur3.rs\<close>.  All arithmetic wraps at the width of the register.
  A block loop consumes its slice from the front; the tail after it is what the remainder branches
  read.
\<close>

unbundle bit_operations_syntax

section \<open>One at a time\<close>

definition oaat_step :: "u8 \<Rightarrow> u32 \<Rightarrow> u32" where
  "oaat_step byte value =
     (let value = value + ucast byte;
          value = value + push_bit 10 value
      in value XOR drop_bit 6 value)"

definition one_at_a_time :: "bytes \<Rightarrow> dyn_token" where
  "one_at_a_time key =
     (let value = fold oaat_step key 0;
          value = value + push_bit 3 value;
          value = value XOR drop_bit 11 value;
          value = value + push_bit 15 value
      in from_u32 value)"

section \<open>FNV\<close>

definition FNV_64_INIT :: u64 where "FNV_64_INIT = 0xcbf29ce484222325"
definition FNV_64_PRIME :: u64 where "FNV_64_PRIME = 0x00000100000001b3"
definition FNV_32_INIT :: u32 where "FNV_32_INIT = 2166136261"
definition FNV_32_PRIME :: u32 where "FNV_32_PRIME = 16777619"

definition hash_fnv1_64 :: "bytes \<Rightarrow> dyn_token" where
  "hash_fnv1_64 key = from_u32 (ucast (fold (\<lambda>byte h. (h * FNV_64_PRIME) XOR ucast byte) key FNV_64_INIT))"

definition hash_fnv1a_64 :: "bytes \<Rightarrow> dyn_token" where
  "hash_fnv1a_64 key =
     (let prime = ucast FNV_64_PRIME in
      from_u32 (fold (\<lambda>byte h. (h XOR ucast byte) * prime) key (ucast FNV_64_INIT)))"

definition hash_fnv1_32 :: "bytes \<Rightarrow> dyn_token" where
  "hash_fnv1_32 key = from_u32 (fold (\<lambda>byte h. (h * FNV_32_PRIME) XOR ucast byte) key FNV_32_INIT)"

definition hash_fnv1a_32 :: "bytes \<Rightarrow> dyn_token" where
  "hash_fnv1a_32 key = from_u32 (fold (\<lambda>byte h. (h XOR ucast byte) * FNV_32_PRIME) key FNV_32_INIT)"

section \<open>Hsieh\<close>

text \<open>\<open>u16::from_le_bytes\<close> and \<open>u32::from_le_bytes\<close>.\<close>

definition get16 :: "u8 \<Rightarrow> u8 \<Rightarrow> u32" where
  "get16 d0 d1 = ucast d0 OR push_bit 8 (ucast d1)"

definition le32 :: "u8 \<Rightarrow> u8 \<Rightarrow> u8 \<Rightarrow> u8 \<Rightarrow> u32" where
  "le32 b0 b1 b2 b3 = ucast b0 OR push_bit 8 (ucast b1) OR push_bit 16 (ucast b2) OR push_bit 24 (ucast b3)"

fun hsieh_blocks :: "u32 \<Rightarrow> bytes \<Rightarrow> u32 \<times> bytes" where
  "hsieh_blocks h (b0 # b1 # b2 # b3 # rest) =
     (let h = h + get16 b0 b1;
          tmp = push_bit 11 (get16 b2 b3) XOR h;
          h = push_bit 16 h XOR tmp
      in hsieh_blocks (h + drop_bit 11 h) rest)"
| "hsieh_blocks h tail = (h, tail)"

fun hsieh_tail :: "u32 \<Rightarrow> bytes \<Rightarrow> u32" where
  "hsieh_tail h [t0, t1, t2] =
     (let h = h + get16 t0 t1;
          h = h XOR push_bit 16 h;
          h = h XOR push_bit 18 (ucast t2)
      in h + drop_bit 11 h)"
| "hsieh_tail h [t0, t1] =
     (let h = h + get16 t0 t1; h = h XOR push_bit 11 h in h + drop_bit 17 h)"
| "hsieh_tail h [t0] =
     (let h = h + ucast t0; h = h XOR push_bit 10 h in h + drop_bit 1 h)"
| "hsieh_tail h _ = h"

definition hsieh_hash :: "bytes \<Rightarrow> dyn_token" where
  "hsieh_hash key =
     (if key = [] then from_u32 0
      else
        let (h, tail) = hsieh_blocks 0 key;
            h = hsieh_tail h tail;
            h = h XOR push_bit 3 h;
            h = h + drop_bit 5 h;
            h = h XOR push_bit 4 h;
            h = h + drop_bit 17 h;
            h = h XOR push_bit 25 h;
            h = h + drop_bit 6 h
        in from_u32 h)"

section \<open>MurmurHash 2\<close>

definition murmur_M :: u32 where "murmur_M = 0x5bd1e995"

fun murmur_blocks :: "u32 \<Rightarrow> bytes \<Rightarrow> u32 \<times> bytes" where
  "murmur_blocks h (b0 # b1 # b2 # b3 # rest) =
     (let k = le32 b0 b1 b2 b3 * murmur_M;
          k = k XOR drop_bit 24 k;
          k = k * murmur_M
      in murmur_blocks ((h * murmur_M) XOR k) rest)"
| "murmur_blocks h tail = (h, tail)"

fun murmur_tail :: "u32 \<Rightarrow> bytes \<Rightarrow> u32" where
  "murmur_tail h [r0, r1, r2] =
     (h XOR push_bit 16 (ucast r2) XOR push_bit 8 (ucast r1) XOR ucast r0) * murmur_M"
| "murmur_tail h [r0, r1] = (h XOR push_bit 8 (ucast r1) XOR ucast r0) * murmur_M"
| "murmur_tail h [r0] = (h XOR ucast r0) * murmur_M"
| "murmur_tail h _ = h"

definition murmur_hash :: "bytes \<Rightarrow> dyn_token" where
  "murmur_hash key =
     (let seed = 0xdeadbeef * of_nat (length key);
          (h, remaining) = murmur_blocks (seed XOR of_nat (length key)) key;
          h = murmur_tail h remaining;
          h = h XOR drop_bit 13 h;
          h = h * murmur_M;
          h = h XOR drop_bit 15 h
      in from_u32 h)"

section \<open>Jenkins lookup3\<close>

definition JENKINS_INITVAL :: u32 where "JENKINS_INITVAL = 13"

definition jenkins_mix :: "u32 \<times> u32 \<times> u32 \<Rightarrow> u32 \<times> u32 \<times> u32" where
  "jenkins_mix st =
     (let (a, b, c) = st;
          a = a - c; a = a XOR word_rotl 4 c; c = c + b;
          b = b - a; b = b XOR word_rotl 6 a; a = a + c;
          c = c - b; c = c XOR word_rotl 8 b; b = b + a;
          a = a - c; a = a XOR word_rotl 16 c; c = c + b;
          b = b - a; b = b XOR word_rotl 19 a; a = a + c;
          c = c - b; c = c XOR word_rotl 4 b; b = b + a
      in (a, b, c))"

definition jenkins_finalize :: "u32 \<times> u32 \<times> u32 \<Rightarrow> u32 \<times> u32 \<times> u32" where
  "jenkins_finalize st =
     (let (a, b, c) = st;
          c = c XOR b; c = c - word_rotl 14 b;
          a = a XOR c; a = a - word_rotl 11 c;
          b = b XOR a; b = b - word_rotl 25 a;
          c = c XOR b; c = c - word_rotl 16 b;
          a = a XOR c; a = a - word_rotl 4 c;
          b = b XOR a; b = b - word_rotl 14 a;
          c = c XOR b; c = c - word_rotl 24 b
      in (a, b, c))"

function jenkins_loop :: "u32 \<times> u32 \<times> u32 \<Rightarrow> bytes \<Rightarrow> (u32 \<times> u32 \<times> u32) \<times> bytes" where
  "jenkins_loop st k =
     (if length k > 12 then
        (let (a, b, c) = st;
             a = a + ucast (k ! 0) + push_bit 8 (ucast (k ! 1)) + push_bit 16 (ucast (k ! 2))
                   + push_bit 24 (ucast (k ! 3));
             b = b + ucast (k ! 4) + push_bit 8 (ucast (k ! 5)) + push_bit 16 (ucast (k ! 6))
                   + push_bit 24 (ucast (k ! 7));
             c = c + ucast (k ! 8) + push_bit 8 (ucast (k ! 9)) + push_bit 16 (ucast (k ! 10))
                   + push_bit 24 (ucast (k ! 11))
         in jenkins_loop (jenkins_mix (a, b, c)) (drop 12 k))
      else (st, k))"
  by auto
termination
  by (relation "measure (\<lambda>(_, k). length k)") auto

declare jenkins_loop.simps [simp del]

definition jenkins_tail :: "u32 \<times> u32 \<times> u32 \<Rightarrow> bytes \<Rightarrow> u32 \<times> u32 \<times> u32" where
  "jenkins_tail st k =
     (let (a, b, c) = st; len = length k;
          c = (if len \<ge> 12 then c + push_bit 24 (ucast (k ! 11)) else c);
          c = (if len \<ge> 11 then c + push_bit 16 (ucast (k ! 10)) else c);
          c = (if len \<ge> 10 then c + push_bit 8 (ucast (k ! 9)) else c);
          c = (if len \<ge> 9 then c + ucast (k ! 8) else c);
          b = (if len \<ge> 8 then b + push_bit 24 (ucast (k ! 7)) else b);
          b = (if len \<ge> 7 then b + push_bit 16 (ucast (k ! 6)) else b);
          b = (if len \<ge> 6 then b + push_bit 8 (ucast (k ! 5)) else b);
          b = (if len \<ge> 5 then b + ucast (k ! 4) else b);
          a = (if len \<ge> 4 then a + push_bit 24 (ucast (k ! 3)) else a);
          a = (if len \<ge> 3 then a + push_bit 16 (ucast (k ! 2)) else a);
          a = (if len \<ge> 2 then a + push_bit 8 (ucast (k ! 1)) else a);
          a = (if len \<ge> 1 then a + ucast (k ! 0) else a)
      in (a, b, c))"

definition jenkins_hash :: "bytes \<Rightarrow> dyn_token" where
  "jenkins_hash key =
     (let init = 0xdeadbeef + of_nat (length key) + JENKINS_INITVAL in
      if length key = 0 then from_u32 init
      else
        let (st, k) = jenkins_loop (init, init, init) key;
            (a, b, c) = jenkins_finalize (jenkins_tail st k)
        in from_u32 c)"

end
