(* ===== verification/Hash_Murmur3.thy ===== *)
theory Hash_Murmur3
  imports Hash_Mix
begin

text \<open>
  MurmurHash3 as in \<open>crates/dynomite/src/hashkit/murmur3.rs\<close>: the 32-bit ring hash, the 128-bit x86
  fingerprint and the 64-bit hash that random slicing uses.  Blocks are consumed from the front of
  the key; the finalisers are shown to lose nothing.
\<close>

unbundle bit_operations_syntax

definition MURMUR3_SEED :: u32 where "MURMUR3_SEED = 0xc0a1e5ce"

definition murmur3_C1 :: u32 where "murmur3_C1 = 0x239b961b"
definition murmur3_C2 :: u32 where "murmur3_C2 = 0xab0e9789"
definition murmur3_C3 :: u32 where "murmur3_C3 = 0x38b34ae5"
definition murmur3_C4 :: u32 where "murmur3_C4 = 0xa1e38b93"
definition C1_64 :: u64 where "C1_64 = 0x87c37b91114253d5"
definition C2_64 :: u64 where "C2_64 = 0x4cf5ad432745937f"

definition fmix64 :: "u64 \<Rightarrow> u64" where
  "fmix64 h =
     (let h = h XOR drop_bit 33 h;
          h = h * 0xff51afd7ed558ccd;
          h = h XOR drop_bit 33 h;
          h = h * 0xc4ceb9fe1a85ec53
      in h XOR drop_bit 33 h)"

definition fmix32 :: "u32 \<Rightarrow> u32" where
  "fmix32 h =
     (let h = h XOR drop_bit 16 h;
          h = h * 0x85ebca6b;
          h = h XOR drop_bit 13 h;
          h = h * 0xc2b2ae35
      in h XOR drop_bit 16 h)"

section \<open>The 32-bit hash\<close>

definition x86_32_k1 :: "u32 \<Rightarrow> u32" where
  "x86_32_k1 k1 = word_rotl 15 (k1 * 0xcc9e2d51) * 0x1b873593"

fun x86_32_blocks :: "u32 \<Rightarrow> bytes \<Rightarrow> u32 \<times> bytes" where
  "x86_32_blocks h1 (b0 # b1 # b2 # b3 # rest) =
     x86_32_blocks (word_rotl 13 (h1 XOR x86_32_k1 (le32 b0 b1 b2 b3)) * 5 + 0xe6546b64) rest"
| "x86_32_blocks h1 tail = (h1, tail)"

definition murmur3_x86_32 :: "bytes \<Rightarrow> u32 \<Rightarrow> u32" where
  "murmur3_x86_32 key seed =
     (let (h1, tail) = x86_32_blocks seed key;
          k1 = 0;
          k1 = (if length tail = 3 then k1 XOR push_bit 16 (ucast (tail ! 2)) else k1);
          k1 = (if length tail \<ge> 2 then k1 XOR push_bit 8 (ucast (tail ! 1)) else k1);
          h1 = (if tail \<noteq> [] then h1 XOR x86_32_k1 (k1 XOR ucast (tail ! 0)) else h1);
          h1 = h1 XOR of_nat (length key)
      in fmix32 h1)"

definition murmur3_hash :: "bytes \<Rightarrow> dyn_token" where
  "murmur3_hash key = from_u32 (murmur3_x86_32 key MURMUR3_SEED)"

section \<open>The 128-bit x86 fingerprint\<close>

text \<open>The four mixing lines shared by the block loop and the tail.\<close>

definition x86_k1 :: "u32 \<Rightarrow> u32" where "x86_k1 k = word_rotl 15 (k * murmur3_C1) * murmur3_C2"
definition x86_k2 :: "u32 \<Rightarrow> u32" where "x86_k2 k = word_rotl 16 (k * murmur3_C2) * murmur3_C3"
definition x86_k3 :: "u32 \<Rightarrow> u32" where "x86_k3 k = word_rotl 17 (k * murmur3_C3) * murmur3_C4"
definition x86_k4 :: "u32 \<Rightarrow> u32" where "x86_k4 k = word_rotl 18 (k * murmur3_C4) * murmur3_C1"

definition word_at :: "bytes \<Rightarrow> nat \<Rightarrow> u32" where
  "word_at b off = le32 (b ! off) (b ! (off + 1)) (b ! (off + 2)) (b ! (off + 3))"

definition x86_128_block :: "bytes \<Rightarrow> u32 \<times> u32 \<times> u32 \<times> u32 \<Rightarrow> u32 \<times> u32 \<times> u32 \<times> u32" where
  "x86_128_block block st =
     (let (h1, h2, h3, h4) = st;
          h1 = h1 XOR x86_k1 (word_at block 0);
          h1 = (word_rotl 19 h1 + h2) * 5 + 0x561ccd1b;
          h2 = h2 XOR x86_k2 (word_at block 4);
          h2 = (word_rotl 17 h2 + h3) * 5 + 0x0bcaa747;
          h3 = h3 XOR x86_k3 (word_at block 8);
          h3 = (word_rotl 15 h3 + h4) * 5 + 0x96cd1c35;
          h4 = h4 XOR x86_k4 (word_at block 12);
          h4 = (word_rotl 13 h4 + h1) * 5 + 0x32ac3b17
      in (h1, h2, h3, h4))"

primrec x86_128_blocks :: "nat \<Rightarrow> bytes \<Rightarrow> u32 \<times> u32 \<times> u32 \<times> u32 \<Rightarrow> u32 \<times> u32 \<times> u32 \<times> u32" where
  "x86_128_blocks 0 body st = st"
| "x86_128_blocks (Suc n) body st = x86_128_blocks n (drop 16 body) (x86_128_block (take 16 body) st)"

text \<open>Little-endian assembly of a tail, each byte at its own shift, from the last to the first.\<close>

definition tail_xor :: "nat \<Rightarrow> bytes \<Rightarrow> nat \<Rightarrow> nat \<Rightarrow> u32 \<Rightarrow> u32" where
  "tail_xor rem tail i sh k = (if rem \<ge> i + 1 then k XOR push_bit sh (ucast (tail ! i)) else k)"

definition x86_128_tail ::
  "nat \<Rightarrow> bytes \<Rightarrow> u32 \<times> u32 \<times> u32 \<times> u32 \<Rightarrow> u32 \<times> u32 \<times> u32 \<times> u32"
where
  "x86_128_tail rem tail st =
     (let (h1, h2, h3, h4) = st;
          k4 = tail_xor rem tail 12 0 (tail_xor rem tail 13 8 (tail_xor rem tail 14 16 0));
          h4 = (if rem \<ge> 13 then h4 XOR x86_k4 k4 else h4);
          k3 = tail_xor rem tail 8 0 (tail_xor rem tail 9 8 (tail_xor rem tail 10 16 (tail_xor rem tail 11 24 0)));
          h3 = (if rem \<ge> 9 then h3 XOR x86_k3 k3 else h3);
          k2 = tail_xor rem tail 4 0 (tail_xor rem tail 5 8 (tail_xor rem tail 6 16 (tail_xor rem tail 7 24 0)));
          h2 = (if rem \<ge> 5 then h2 XOR x86_k2 k2 else h2);
          k1 = tail_xor rem tail 0 0 (tail_xor rem tail 1 8 (tail_xor rem tail 2 16 (tail_xor rem tail 3 24 0)));
          h1 = (if rem \<ge> 1 then h1 XOR x86_k1 k1 else h1)
      in (h1, h2, h3, h4))"

definition x86_128_sum :: "u32 \<times> u32 \<times> u32 \<times> u32 \<Rightarrow> u32 \<times> u32 \<times> u32 \<times> u32" where
  "x86_128_sum st = (let (h1, h2, h3, h4) = st; h1 = h1 + h2 + h3 + h4 in (h1, h2 + h1, h3 + h1, h4 + h1))"

definition murmur3_x86_128 :: "bytes \<Rightarrow> u32 \<Rightarrow> dyn_token" where
  "murmur3_x86_128 key seed =
     (let len = length key;
          nblocks = len div 16;
          body = take (nblocks * 16) key;
          tail = drop (nblocks * 16) key;
          (h1, h2, h3, h4) = x86_128_tail (len mod 16) tail (x86_128_blocks nblocks body (seed, seed, seed, seed));
          len32 = of_nat len;
          (h1, h2, h3, h4) = x86_128_sum (h1 XOR len32, h2 XOR len32, h3 XOR len32, h4 XOR len32);
          (h1, h2, h3, h4) = x86_128_sum (fmix32 h1, fmix32 h2, fmix32 h3, fmix32 h4)
      in case token_size 4 token_default of
           Inl _ \<Rightarrow> token_default
         | Inr t \<Rightarrow> t\<lparr>tk_mag := [h1, h2, h3, h4]\<rparr>)"

definition hash_x86_128 :: "bytes \<Rightarrow> dyn_token" where
  "hash_x86_128 key = murmur3_x86_128 key MURMUR3_SEED"

section \<open>The 64-bit hash\<close>

definition x64_k1 :: "u64 \<Rightarrow> u64" where "x64_k1 k = word_rotl 31 (k * C1_64) * C2_64"
definition x64_k2 :: "u64 \<Rightarrow> u64" where "x64_k2 k = word_rotl 33 (k * C2_64) * C1_64"

definition dword_at :: "bytes \<Rightarrow> nat \<Rightarrow> u64" where
  "dword_at b off = ucast (word_at b off) OR push_bit 32 (ucast (word_at b (off + 4)))"

definition x64_128_block :: "bytes \<Rightarrow> u64 \<times> u64 \<Rightarrow> u64 \<times> u64" where
  "x64_128_block block st =
     (let (h1, h2) = st;
          h1 = h1 XOR x64_k1 (dword_at block 0);
          h1 = (word_rotl 27 h1 + h2) * 5 + 0x52dce729;
          h2 = h2 XOR x64_k2 (dword_at block 8);
          h2 = (word_rotl 31 h2 + h1) * 5 + 0x38495ab5
      in (h1, h2))"

primrec x64_128_blocks :: "nat \<Rightarrow> bytes \<Rightarrow> u64 \<times> u64 \<Rightarrow> u64 \<times> u64" where
  "x64_128_blocks 0 body st = st"
| "x64_128_blocks (Suc n) body st = x64_128_blocks n (drop 16 body) (x64_128_block (take 16 body) st)"

definition tail_xor64 :: "nat \<Rightarrow> bytes \<Rightarrow> nat \<Rightarrow> nat \<Rightarrow> u64 \<Rightarrow> u64" where
  "tail_xor64 rem tail i sh k = (if rem \<ge> i + 1 then k XOR push_bit sh (ucast (tail ! i)) else k)"

definition x64_128_tail :: "nat \<Rightarrow> bytes \<Rightarrow> u64 \<times> u64 \<Rightarrow> u64 \<times> u64" where
  "x64_128_tail rem tail st =
     (let (h1, h2) = st;
          k2 = tail_xor64 rem tail 8 0 (tail_xor64 rem tail 9 8 (tail_xor64 rem tail 10 16
               (tail_xor64 rem tail 11 24 (tail_xor64 rem tail 12 32 (tail_xor64 rem tail 13 40
               (tail_xor64 rem tail 14 48 0))))));
          h2 = (if rem \<ge> 9 then h2 XOR x64_k2 k2 else h2);
          k1 = tail_xor64 rem tail 0 0 (tail_xor64 rem tail 1 8 (tail_xor64 rem tail 2 16
               (tail_xor64 rem tail 3 24 (tail_xor64 rem tail 4 32 (tail_xor64 rem tail 5 40
               (tail_xor64 rem tail 6 48 (tail_xor64 rem tail 7 56 0)))))));
          h1 = (if rem \<ge> 1 then h1 XOR x64_k1 k1 else h1)
      in (h1, h2))"

definition murmur3_x64_128 :: "bytes \<Rightarrow> u64 \<Rightarrow> u64 \<times> u64" where
  "murmur3_x64_128 key seed =
     (let len = length key;
          nblocks = len div 16;
          body = take (nblocks * 16) key;
          tail = drop (nblocks * 16) key;
          (h1, h2) = x64_128_tail (len mod 16) tail (x64_128_blocks nblocks body (seed, seed));
          h1 = h1 XOR of_nat len;
          h2 = h2 XOR of_nat len;
          h1 = h1 + h2;
          h2 = h2 + h1;
          h1 = fmix64 h1;
          h2 = fmix64 h2;
          h1 = h1 + h2;
          h2 = h2 + h1
      in (h1, h2))"

definition murmur3_x64_64 :: "u32 \<Rightarrow> bytes \<Rightarrow> u64" where
  "murmur3_x64_64 seed data = fst (murmur3_x64_128 data (ucast seed))"

section \<open>The finalisers are permutations\<close>

lemma xorshift_half_inj: "LENGTH('a) \<le> 2 * k \<Longrightarrow> inj (\<lambda>x :: 'a::len word. x XOR drop_bit k x)"
proof (rule inj_on_inverseI)
  fix x :: "'a word" assume "LENGTH('a) \<le> 2 * k"
  then show "(\<lambda>y. y XOR drop_bit k y) (x XOR drop_bit k x) = x"
    by (intro bit_word_eqI) (auto simp: bit_simps dest: bit_imp_le_length)
qed

lemma xorshift_13_inj: "inj (\<lambda>x :: u32. x XOR drop_bit 13 x)"
proof (rule inj_on_inverseI)
  fix x :: u32
  show "(\<lambda>y. y XOR drop_bit 13 y XOR drop_bit 26 y) (x XOR drop_bit 13 x) = x"
    by (intro bit_word_eqI) (auto simp: bit_simps dest: bit_imp_le_length)
qed

lemma mult_odd_inj: "c * c' = 1 \<Longrightarrow> inj (\<lambda>x :: 'a::len word. x * c)"
  by (rule inj_on_inverseI [where g = "\<lambda>y. y * c'"]) (simp add: mult.assoc)

text \<open>
  The final mixing steps of MurmurHash3 permute the 32-bit and the 64-bit words: distinct
  accumulators give distinct hashes, so mixing adds no collision.
\<close>

theorem fmix_injective: "inj fmix32 \<and> inj fmix64"
proof
  have m: "inj (\<lambda>x :: u32. x * 0x85ebca6b)" "inj (\<lambda>x :: u32. x * 0xc2b2ae35)"
    by (rule mult_odd_inj [of _ "0xa5cb9243"], simp) (rule mult_odd_inj [of _ "0x7ed1b41d"], simp)
  have f: "fmix32 = (\<lambda>x. x XOR drop_bit 16 x) \<circ> (\<lambda>x. x * 0xc2b2ae35) \<circ> (\<lambda>x. x XOR drop_bit 13 x)
      \<circ> (\<lambda>x. x * 0x85ebca6b) \<circ> (\<lambda>x. x XOR drop_bit 16 x)"
    by (simp only: fun_eq_iff fmix32_def Let_def comp_def simp_thms)
  have h: "inj (\<lambda>x :: u32. x XOR drop_bit 16 x)" by (rule xorshift_half_inj) simp
  show "inj fmix32" unfolding f by (intro inj_compose m xorshift_13_inj h)
  have m': "inj (\<lambda>x :: u64. x * 0xff51afd7ed558ccd)" "inj (\<lambda>x :: u64. x * 0xc4ceb9fe1a85ec53)"
    by (rule mult_odd_inj [of _ "0x4f74430c22a54005"], simp) (rule mult_odd_inj [of _ "0x9cb4b2f8129337db"], simp)
  have g: "fmix64 = (\<lambda>x. x XOR drop_bit 33 x) \<circ> (\<lambda>x. x * 0xc4ceb9fe1a85ec53) \<circ> (\<lambda>x. x XOR drop_bit 33 x)
      \<circ> (\<lambda>x. x * 0xff51afd7ed558ccd) \<circ> (\<lambda>x. x XOR drop_bit 33 x)"
    by (simp only: fun_eq_iff fmix64_def Let_def comp_def simp_thms)
  have h': "inj (\<lambda>x :: u64. x XOR drop_bit 33 x)" by (rule xorshift_half_inj) simp
  show "inj fmix64" unfolding g by (intro inj_compose m' h')
qed

end
