(* ===== verification/Md5.thy ===== *)
theory Md5
  imports Token
begin

text \<open>
  MD5 as in \<open>crates/dynomite/src/hashkit/md5.rs\<close>: the compression function with its 64-step table, the
  buffering context with the split bit counter, and the digest.  The context is shown to process
  exactly the padded message of RFC 1321.
\<close>

unbundle bit_operations_syntax

section \<open>Compression\<close>

datatype round_fn = MF | MG | MH | MI

fun round_apply :: "round_fn \<Rightarrow> u32 \<Rightarrow> u32 \<Rightarrow> u32 \<Rightarrow> u32" where
  "round_apply MF x y z = z XOR (x AND (y XOR z))"
| "round_apply MG x y z = y XOR (z AND (x XOR y))"
| "round_apply MH x y z = x XOR y XOR z"
| "round_apply MI x y z = y XOR (x OR NOT z)"

definition md5_step :: "round_fn \<Rightarrow> u32 \<Rightarrow> u32 \<Rightarrow> u32 \<Rightarrow> u32 \<Rightarrow> u32 \<Rightarrow> u32 \<Rightarrow> nat \<Rightarrow> u32" where
  "md5_step f a b c d x t s = word_rotl s (a + round_apply f b c d + x + t) + b"

text \<open>The 64 step calls of \<open>body\<close>: round function, index into the block, constant, rotation.\<close>

definition md5_steps :: "(round_fn \<times> nat \<times> u32 \<times> nat) list" where
  "md5_steps =
    [
     (MF, 0, 0xd76aa478, 7), (MF, 1, 0xe8c7b756, 12), (MF, 2, 0x242070db, 17), (MF, 3, 0xc1bdceee, 22),
     (MF, 4, 0xf57c0faf, 7), (MF, 5, 0x4787c62a, 12), (MF, 6, 0xa8304613, 17), (MF, 7, 0xfd469501, 22),
     (MF, 8, 0x698098d8, 7), (MF, 9, 0x8b44f7af, 12), (MF, 10, 0xffff5bb1, 17), (MF, 11, 0x895cd7be, 22),
     (MF, 12, 0x6b901122, 7), (MF, 13, 0xfd987193, 12), (MF, 14, 0xa679438e, 17), (MF, 15, 0x49b40821, 22),
     (MG, 1, 0xf61e2562, 5), (MG, 6, 0xc040b340, 9), (MG, 11, 0x265e5a51, 14), (MG, 0, 0xe9b6c7aa, 20),
     (MG, 5, 0xd62f105d, 5), (MG, 10, 0x02441453, 9), (MG, 15, 0xd8a1e681, 14), (MG, 4, 0xe7d3fbc8, 20),
     (MG, 9, 0x21e1cde6, 5), (MG, 14, 0xc33707d6, 9), (MG, 3, 0xf4d50d87, 14), (MG, 8, 0x455a14ed, 20),
     (MG, 13, 0xa9e3e905, 5), (MG, 2, 0xfcefa3f8, 9), (MG, 7, 0x676f02d9, 14), (MG, 12, 0x8d2a4c8a, 20),
     (MH, 5, 0xfffa3942, 4), (MH, 8, 0x8771f681, 11), (MH, 11, 0x6d9d6122, 16), (MH, 14, 0xfde5380c, 23),
     (MH, 1, 0xa4beea44, 4), (MH, 4, 0x4bdecfa9, 11), (MH, 7, 0xf6bb4b60, 16), (MH, 10, 0xbebfbc70, 23),
     (MH, 13, 0x289b7ec6, 4), (MH, 0, 0xeaa127fa, 11), (MH, 3, 0xd4ef3085, 16), (MH, 6, 0x04881d05, 23),
     (MH, 9, 0xd9d4d039, 4), (MH, 12, 0xe6db99e5, 11), (MH, 15, 0x1fa27cf8, 16), (MH, 2, 0xc4ac5665, 23),
     (MI, 0, 0xf4292244, 6), (MI, 7, 0x432aff97, 10), (MI, 14, 0xab9423a7, 15), (MI, 5, 0xfc93a039, 21),
     (MI, 12, 0x655b59c3, 6), (MI, 3, 0x8f0ccc92, 10), (MI, 10, 0xffeff47d, 15), (MI, 1, 0x85845dd1, 21),
     (MI, 8, 0x6fa87e4f, 6), (MI, 15, 0xfe2ce6e0, 10), (MI, 6, 0xa3014314, 15), (MI, 13, 0x4e0811a1, 21),
     (MI, 4, 0xf7537e82, 6), (MI, 11, 0xbd3af235, 10), (MI, 2, 0x2ad7d2bb, 15), (MI, 9, 0xeb86d391, 21)
    ]"

type_synonym md5_state = "u32 \<times> u32 \<times> u32 \<times> u32"

text \<open>
  Each call updates one register; the calls take the registers in the order \<open>a\<close>, \<open>d\<close>, \<open>c\<close>, \<open>b\<close>, which
  is a rotation of the state after every step.
\<close>

definition md5_apply :: "u32 list \<Rightarrow> round_fn \<times> nat \<times> u32 \<times> nat \<Rightarrow> md5_state \<Rightarrow> md5_state" where
  "md5_apply x stp st = (case (stp, st) of ((f, k, t, s), (a, b, c, d)) \<Rightarrow>
     (d, md5_step f a b c d (x ! k) t s, b, c))"

definition block_word :: "bytes \<Rightarrow> nat \<Rightarrow> u32" where
  "block_word block i =
     (let off = i * 4 in
      ucast (block ! off) OR push_bit 8 (ucast (block ! (off + 1)))
        OR push_bit 16 (ucast (block ! (off + 2))) OR push_bit 24 (ucast (block ! (off + 3))))"

definition md5_block :: "bytes \<Rightarrow> md5_state \<Rightarrow> md5_state" where
  "md5_block block st =
     (let x = map (block_word block) [0..<16];
          (saved_a, saved_b, saved_c, saved_d) = st;
          (a, b, c, d) = fold (md5_apply x) md5_steps st
      in (a + saved_a, b + saved_b, c + saved_c, d + saved_d))"

function md5_body :: "bytes \<Rightarrow> md5_state \<Rightarrow> md5_state" where
  "md5_body chunk st = (if chunk = [] then st else md5_body (drop 64 chunk) (md5_block (take 64 chunk) st))"
  by auto
termination
  by (relation "measure (\<lambda>(chunk, _). length chunk)") auto

declare md5_body.simps [simp del]

section \<open>Context\<close>

record md5_ctx =
  ctx_regs :: md5_state
  ctx_lo :: u32
  ctx_hi :: u32
  ctx_buffer :: bytes

definition ctx_new :: md5_ctx where
  "ctx_new = \<lparr>ctx_regs = (0x67452301, 0xefcdab89, 0x98badcfe, 0x10325476), ctx_lo = 0, ctx_hi = 0,
     ctx_buffer = replicate 64 0\<rparr>"

text \<open>\<open>buf[i..i + xs.len()].copy_from_slice(xs)\<close>.\<close>

definition write_at :: "'a list \<Rightarrow> nat \<Rightarrow> 'a list \<Rightarrow> 'a list" where
  "write_at buf i xs = take i buf @ xs @ drop (i + length xs) buf"

definition ctx_run :: "bytes \<Rightarrow> md5_ctx \<Rightarrow> md5_ctx" where
  "ctx_run data ctx = ctx\<lparr>ctx_regs := md5_body data (ctx_regs ctx)\<rparr>"

text \<open>The part of \<open>update\<close> after the buffer is empty: whole blocks, then the rest into the buffer.\<close>

definition ctx_fill :: "bytes \<Rightarrow> md5_ctx \<Rightarrow> md5_ctx" where
  "ctx_fill data ctx =
     (let whole = length data div 64 * 64;
          ctx = (if length data \<ge> 64 then ctx_run (take whole data) ctx else ctx);
          data = (if length data \<ge> 64 then drop whole data else data)
      in ctx\<lparr>ctx_buffer := write_at (ctx_buffer ctx) 0 data\<rparr>)"

definition ctx_update :: "bytes \<Rightarrow> md5_ctx \<Rightarrow> md5_ctx" where
  "ctx_update data ctx =
     (let saved_lo = ctx_lo ctx;
          added = (saved_lo + of_nat (length data)) AND 0x1fffffff;
          hi = (if added < saved_lo then ctx_hi ctx + 1 else ctx_hi ctx);
          ctx = ctx\<lparr>ctx_lo := added, ctx_hi := hi + of_nat (length data div 2 ^ 29)\<rparr>;
          used = unat (saved_lo AND 0x3f)
      in
      if used \<noteq> 0 then
        (let free = 64 - used in
         if length data < free then ctx\<lparr>ctx_buffer := write_at (ctx_buffer ctx) used data\<rparr>
         else
           let ctx = ctx\<lparr>ctx_buffer := write_at (ctx_buffer ctx) used (take free data)\<rparr> in
           ctx_fill (drop free data) (ctx_run (ctx_buffer ctx) ctx))
      else ctx_fill data ctx)"

definition le_word :: "u32 \<Rightarrow> bytes" where
  "le_word w = [ucast w, ucast (drop_bit 8 w), ucast (drop_bit 16 w), ucast (drop_bit 24 w)]"

text \<open>
  \<open>finalize\<close>: mark the end (running the block when no room is left for the length), then zeros and
  the length, then the registers as bytes.
\<close>

definition ctx_mark :: "md5_ctx \<Rightarrow> md5_ctx \<times> nat" where
  "ctx_mark ctx =
     (let used = unat (ctx_lo ctx AND 0x3f);
          buf = (ctx_buffer ctx)[used := 0x80];
          used = used + 1;
          free = 64 - used
      in
      if free < 8 then
        (let buf = write_at buf used (replicate (64 - used) 0) in (ctx_run buf (ctx\<lparr>ctx_buffer := buf\<rparr>), 0))
      else (ctx\<lparr>ctx_buffer := buf\<rparr>, used))"

definition ctx_finish :: "md5_ctx \<Rightarrow> nat \<Rightarrow> md5_ctx" where
  "ctx_finish ctx used =
     (let buf = write_at (ctx_buffer ctx) used (replicate (56 - used) 0);
          lo_bits = push_bit 3 (ctx_lo ctx);
          buf = write_at buf 56 (le_word lo_bits @ le_word (ctx_hi ctx))
      in ctx_run buf (ctx\<lparr>ctx_buffer := buf\<rparr>))"

definition ctx_finalize :: "md5_ctx \<Rightarrow> bytes" where
  "ctx_finalize ctx =
     (let (ctx, used) = ctx_mark ctx;
          (a, b, c, d) = ctx_regs (ctx_finish ctx used)
      in le_word a @ le_word b @ le_word c @ le_word d)"

definition md5_digest :: "bytes \<Rightarrow> bytes" where
  "md5_digest key = ctx_finalize (ctx_update key ctx_new)"

definition md5_hash :: "bytes \<Rightarrow> dyn_token" where
  "md5_hash key =
     (let r = md5_digest key in
      from_u32 (ucast (r ! 0) OR push_bit 8 (ucast (r ! 1)) OR push_bit 16 (ucast (r ! 2))
        OR push_bit 24 (ucast (r ! 3))))"

section \<open>The digest is that of the padded message\<close>

text \<open>
  RFC 1321: append \<open>0x80\<close>, then zeros up to 56 modulo 64, then the length in bits as eight
  little-endian bytes; run the compression over the 64-byte blocks.
\<close>

definition md5_pad :: "bytes \<Rightarrow> bytes" where
  "md5_pad m = m @ [0x80] @ replicate ((119 - length m mod 64) mod 64) 0
     @ rev (be_bytes 8 (8 * length m mod 2 ^ 64))"

definition md5_reference :: "bytes \<Rightarrow> bytes" where
  "md5_reference m =
     (let (a, b, c, d) = md5_body (md5_pad m) (0x67452301, 0xefcdab89, 0x98badcfe, 0x10325476)
      in le_word a @ le_word b @ le_word c @ le_word d)"

lemma md5_body_append:
  assumes "length xs mod 64 = 0"
  shows "md5_body (xs @ ys) st = md5_body ys (md5_body xs st)"
  using assms
proof (induction xs st rule: md5_body.induct)
  case (1 chunk st)
  show ?case
  proof (cases "chunk = []")
    case True
    then show ?thesis by (simp add: md5_body.simps [of "[]"])
  next
    case False
    with 1(2) have "64 \<le> length chunk" by (metis length_0_conv linorder_not_less mod_less)
    then have "take 64 (chunk @ ys) = take 64 chunk" "drop 64 (chunk @ ys) = drop 64 chunk @ ys" by simp_all
    moreover have "length (drop 64 chunk) mod 64 = 0"
      using 1(2) \<open>64 \<le> length chunk\<close> by (simp add: le_mod_geq)
    ultimately show ?thesis
      using False 1(1) [OF False] \<open>64 \<le> length chunk\<close>
      by (simp add: md5_body.simps [of chunk] md5_body.simps [of "chunk @ ys"])
  qed
qed

lemma of_nat_mod_256: "(of_nat (n mod 256) :: u8) = of_nat n"
  by (simp add: word_unat_eq_iff unat_of_nat)

lemma be_bytes_mod: "be_bytes n (x mod 256 ^ n) = be_bytes n x"
proof (induction n arbitrary: x)
  case 0
  show ?case by simp
next
  case (Suc n)
  have e: "x mod 256 ^ Suc n = 256 ^ n * (x div 256 ^ n mod 256) + x mod 256 ^ n"
    using mod_mult2_eq [of x "256 ^ n" 256] by (simp add: mult.commute)
  have "x mod 256 ^ Suc n div 256 ^ n = x div 256 ^ n mod 256" unfolding e by simp
  moreover have "x mod 256 ^ Suc n mod 256 ^ n = x mod 256 ^ n" unfolding e by simp
  ultimately show ?case using of_nat_mod_256 [of "x div 256 ^ n"] by simp
qed

lemma be_bytes_split: "be_bytes (m + n) x = be_bytes m (x div 256 ^ n) @ be_bytes n x"
proof (induction m arbitrary: x)
  case 0
  show ?case by simp
next
  case (Suc m)
  let ?y = "x mod 256 ^ (m + n)"
  have e: "?y = 256 ^ n * (x div 256 ^ n mod 256 ^ m) + x mod 256 ^ n"
    using mod_mult2_eq [of x "256 ^ n" "256 ^ m"] by (simp add: power_add mult.commute)
  have "x div 256 ^ (m + n) = x div 256 ^ n div 256 ^ m" by (metis div_mult2_eq mult.commute power_add)
  moreover have "?y div 256 ^ n = x div 256 ^ n mod 256 ^ m" unfolding e by simp
  moreover have "be_bytes n ?y = be_bytes n x"
  proof -
    have "?y mod 256 ^ n = x mod 256 ^ n" unfolding e by simp
    then show ?thesis by (metis be_bytes_mod)
  qed
  ultimately show ?case using Suc.IH [of ?y] by simp
qed

lemma le_word_be: "le_word w = rev (be_bytes 4 (unat w))"
proof -
  have d: "(of_nat (unat w div 2 ^ k) :: u8) = ucast (drop_bit k w)" for k
  proof -
    have "unat (drop_bit k w) = unat w div 2 ^ k"
      using unsigned_less [where ?'a = nat and w = w]
      by (simp only: unsigned_drop_bit_eq) (simp add: drop_bit_eq_div take_bit_nat_eq_self)
    then show ?thesis by (metis of_nat_unat)
  qed
  have "be_bytes 4 x = [of_nat (x div 2 ^ 24), of_nat (x div 2 ^ 16), of_nat (x div 2 ^ 8), of_nat x]" for x
  proof -
    have "be_bytes (Suc n) x = of_nat (x div 256 ^ n) # be_bytes n x" for n
      using be_bytes_split [of "Suc 0" n x] by (simp only: be_bytes.simps) simp
    note step = this
    have "be_bytes 2 x = [of_nat (x div 256), of_nat x]"
      using step [of 1] step [of 0] by (simp del: be_bytes.simps(2) add: numeral_2_eq_2)
    then show ?thesis using step [of 3] step [of 2] by (simp del: be_bytes.simps(2))
  qed
  then show ?thesis by (simp only: d) (simp add: le_word_def d [of 0, simplified])
qed

text \<open>The split counter holds the length: 29 bits in \<open>lo\<close>, the rest in \<open>hi\<close>.\<close>

lemma unat_lo: "unat ((of_nat n :: u32) AND 0x1fffffff) = n mod 2 ^ 29"
proof -
  have "(of_nat n :: u32) AND 0x1fffffff = take_bit 29 (of_nat n)"
    by (simp add: take_bit_eq_mask mask_eq_exp_minus_1)
  moreover have "unat (take_bit 29 (of_nat n :: u32)) = take_bit 29 n"
    by (simp only: unsigned_take_bit_eq unsigned_of_nat take_bit_take_bit) simp
  ultimately show ?thesis by (simp add: take_bit_eq_mod)
qed

lemma unat_low6: "unat ((w :: u32) AND 0x3f) = unat w mod 64"
proof -
  have "w AND 0x3f = take_bit 6 w" by (simp add: take_bit_eq_mask mask_eq_exp_minus_1)
  then show ?thesis by (simp only: unsigned_take_bit_eq) (simp add: take_bit_eq_mod)
qed

lemma length_field:
  "le_word (push_bit 3 ((of_nat n :: u32) AND 0x1fffffff)) @ le_word (of_nat (n div 2 ^ 29))
     = rev (be_bytes 8 (8 * n mod 2 ^ 64))"
proof -
  let ?x = "8 * n mod 2 ^ 64"
  have lo: "unat (push_bit 3 ((of_nat n :: u32) AND 0x1fffffff)) = ?x mod 2 ^ 32"
  proof -
    have "n mod 2 ^ 29 * 8 < 2 ^ 32" by simp
    then have "unat (push_bit 3 ((of_nat n :: u32) AND 0x1fffffff)) = n mod 2 ^ 29 * 8"
      by (simp only: unsigned_push_bit_eq unat_lo) (simp add: push_bit_eq_mult take_bit_nat_eq_self)
    also have "\<dots> = 8 * n mod 2 ^ 32" using mult_mod_right [of 8 n "2 ^ 29"] by (simp add: mult.commute)
    also have "\<dots> = ?x mod 2 ^ 32" by (simp add: mod_mod_cancel)
    finally show ?thesis .
  qed
  have "8 * n mod 2 ^ 64 div 2 ^ 32 = n div 2 ^ 29 mod 2 ^ 32"
  proof -
    have "8 * n mod (2 ^ 32 * 2 ^ 32) = 2 ^ 32 * (8 * n div 2 ^ 32 mod 2 ^ 32) + 8 * n mod 2 ^ 32"
      by (rule mod_mult2_eq)
    then have "8 * n mod 2 ^ 64 div 2 ^ 32 = 8 * n div 2 ^ 32 mod 2 ^ 32" by simp
    moreover have "8 * n div (8 * 2 ^ 29) = n div 2 ^ 29" by (rule div_mult_mult1) simp
    ultimately show ?thesis by simp
  qed
  then have hi: "unat (of_nat (n div 2 ^ 29) :: u32) = ?x div 2 ^ 32" by (simp add: unat_of_nat)
  have "be_bytes 8 ?x = be_bytes 4 (?x div 2 ^ 32) @ be_bytes 4 (?x mod 2 ^ 32)"
    using be_bytes_split [of 4 4 ?x] be_bytes_mod [of 4 ?x] by (simp del: be_bytes.simps)
  then show ?thesis unfolding le_word_be lo hi by (simp del: be_bytes.simps)
qed

lemma md5_update_new:
  fixes key :: bytes
  defines "r \<equiv> length key mod 64"
  defines "whole \<equiv> take (length key - r) key" and "rest \<equiv> drop (length key - r) key"
  shows "ctx_update key ctx_new =
    \<lparr>ctx_regs = md5_body whole (0x67452301, 0xefcdab89, 0x98badcfe, 0x10325476),
     ctx_lo = of_nat (length key) AND 0x1fffffff, ctx_hi = of_nat (length key div 2 ^ 29),
     ctx_buffer = rest @ replicate (64 - r) 0\<rparr>"
proof -
  have w: "length key div 64 * 64 = length key - r"
    unfolding r_def by (metis minus_mod_eq_div_mult)
  have small: "length key - r = 0" if "length key < 64" using that by (simp add: r_def)
  have b: "md5_body [] st = st" for st by (simp add: md5_body.simps [of "[]"])
  show ?thesis
  proof (cases "length key \<ge> 64")
    case True
    then show ?thesis
      by (simp add: ctx_update_def ctx_new_def Let_def ctx_fill_def ctx_run_def write_at_def whole_def rest_def w)
  next
    case False
    then have z: "length key - r = 0" "r = length key" using small by (simp_all add: r_def)
    with False show ?thesis
      by (simp add: ctx_update_def ctx_new_def Let_def ctx_fill_def ctx_run_def write_at_def whole_def rest_def b)
  qed
qed

lemma write_at_over:
  "length X = 56 \<Longrightarrow> length buf = 64 \<Longrightarrow> length L = 8 \<Longrightarrow> write_at (write_at buf 0 X) 56 L = X @ L"
  by (simp add: write_at_def)

definition md5_out :: "md5_state \<Rightarrow> bytes" where
  "md5_out st = (case st of (a, b, c, d) \<Rightarrow> le_word a @ le_word b @ le_word c @ le_word d)"

lemma ctx_finalize_blocks:
  assumes r: "unat (lo AND 0x3f) = r" "r < 64" "length rest = r" and j: "length js = 63 - r"
    and L: "L = le_word (push_bit 3 lo) @ le_word hi"
  shows "ctx_finalize \<lparr>ctx_regs = st, ctx_lo = lo, ctx_hi = hi, ctx_buffer = rest @ z # js\<rparr> =
    md5_out (if r < 56 then md5_body (rest @ [0x80] @ replicate (55 - r) 0 @ L) st
         else md5_body (replicate 56 0 @ L) (md5_body (rest @ [0x80] @ replicate (63 - r) 0) st))"
proof -
  have l8: "length L = 8" by (simp add: L le_word_def)
  have set: "(rest @ z # js)[r := 0x80] = rest @ [0x80] @ js" using r by (simp add: list_update_append)
  let ?ctx = "\<lparr>ctx_regs = st, ctx_lo = lo, ctx_hi = hi, ctx_buffer = rest @ z # js\<rparr>"
  show ?thesis
  proof (cases "r < 56")
    case True
    then have Suc56: "56 - r = Suc (55 - r)" by simp
    have mark: "ctx_mark ?ctx = (?ctx\<lparr>ctx_buffer := rest @ [0x80] @ js\<rparr>, r + 1)"
      using True r by (simp add: ctx_mark_def Let_def set del: append_Cons append_Nil)
    have "write_at (write_at (rest @ [0x80] @ js) (r + 1) (replicate (56 - (r + 1)) 0)) 56 L
        = rest @ [0x80] @ replicate (55 - r) 0 @ L"
      using True r j l8 by (simp add: write_at_def Suc56)
    then show ?thesis
      using True by (simp add: ctx_finalize_def mark ctx_finish_def Let_def ctx_run_def md5_out_def flip: L)
  next
    case False
    have "write_at (rest @ [0x80] @ js) (r + 1) (replicate (64 - (r + 1)) 0) = rest @ [0x80] @ replicate (63 - r) 0"
      using r j by (simp add: write_at_def)
    then have mark: "ctx_mark ?ctx =
        (ctx_run (rest @ [0x80] @ replicate (63 - r) 0) (?ctx\<lparr>ctx_buffer := rest @ [0x80] @ replicate (63 - r) 0\<rparr>), 0)"
      using False r by (simp add: ctx_mark_def Let_def set del: append_Cons append_Nil)
    have "write_at (write_at (rest @ [0x80] @ replicate (63 - r) 0) 0 (replicate 56 0)) 56 L = replicate 56 0 @ L"
      using r l8 by (intro write_at_over) auto
    then show ?thesis
      using False by (simp add: ctx_finalize_def mark ctx_finish_def Let_def ctx_run_def md5_out_def flip: L)
  qed
qed

text \<open>
  C22. The MD5 context is the RFC 1321 digest: for every key, buffering the key and finalising
  gives the same bytes as running the compression over the padded message, whatever the length
  relative to the block size and with the bit length carried modulo \<open>2 ^ 64\<close>.
\<close>

theorem md5_digest_rfc1321: "md5_digest key = md5_reference key"
proof -
  define r where "r = length key mod 64"
  define whole where "whole = take (length key - r) key"
  define rest where "rest = drop (length key - r) key"
  let ?init = "(0x67452301, 0xefcdab89, 0x98badcfe, 0x10325476) :: md5_state"
  let ?len = "rev (be_bytes 8 (8 * length key mod 2 ^ 64))"
  have key: "key = whole @ rest" by (simp add: whole_def rest_def)
  have r: "r < 64" "length rest = r" by (simp_all add: r_def rest_def)
  have "length whole = length key div 64 * 64" by (simp add: whole_def r_def minus_mod_eq_div_mult)
  then have wmod: "length whole mod 64 = 0" by simp
  have upd: "ctx_update key ctx_new = \<lparr>ctx_regs = md5_body whole ?init,
      ctx_lo = of_nat (length key) AND 0x1fffffff, ctx_hi = of_nat (length key div 2 ^ 29),
      ctx_buffer = rest @ replicate (64 - r) 0\<rparr>"
    unfolding whole_def rest_def r_def by (rule md5_update_new)
  have used: "unat (((of_nat (length key) :: u32) AND 0x1fffffff) AND 0x3f) = r"
    unfolding unat_low6 unat_lo r_def using mod_mod_cancel [of 64 "2 ^ 29" "length key"] by simp
  have pad: "md5_pad key = whole @ rest @ [0x80] @ replicate ((119 - r) mod 64) 0 @ ?len"
    unfolding md5_pad_def r_def [symmetric] by (subst (1) key) simp
  have "replicate (64 - r) (0 :: u8) = 0 # replicate (63 - r) 0"
    using r by (simp add: Suc_diff_Suc flip: replicate_Suc)
  then have dig: "md5_digest key = md5_out (if r < 56
      then md5_body (rest @ [0x80] @ replicate (55 - r) 0 @ ?len) (md5_body whole ?init)
      else md5_body (replicate 56 0 @ ?len) (md5_body (rest @ [0x80] @ replicate (63 - r) 0) (md5_body whole ?init)))"
    unfolding md5_digest_def upd
    using ctx_finalize_blocks [OF used r length_replicate length_field [symmetric]] by (simp only:)
  have ref: "md5_reference key = md5_out (md5_body (rest @ [0x80] @ replicate ((119 - r) mod 64) 0 @ ?len) (md5_body whole ?init))"
    unfolding md5_reference_def pad md5_body_append [OF wmod] md5_out_def Let_def by (rule refl)
  show ?thesis
  proof (cases "r < 56")
    case True
    then have "(119 - r) mod 64 = 55 - r" by (simp add: le_mod_geq)
    with True show ?thesis unfolding dig ref by simp
  next
    case False
    then have "replicate ((119 - r) mod 64) (0 :: u8) = replicate (63 - r) 0 @ replicate 56 0"
      using r by (simp flip: replicate_add)
    moreover have "length (rest @ [0x80] @ replicate (63 - r) 0) mod 64 = 0" using r by simp
    ultimately show ?thesis
      using False md5_body_append [of "rest @ [0x80] @ replicate (63 - r) 0" "replicate 56 0 @ ?len"]
      unfolding dig ref by simp
  qed
qed

end
