(* ===== verification/Ring_Order.thy ===== *)
theory Ring_Order
  imports Token
begin

text \<open>
  What the ring lookups rely on: a comparator that is the order of a key on well-formed
  coordinates.  The locale gives the facts that the vnode ring and the ketama continuum share: the
  comparator sorts by the key, and a bisection over a sorted list finds the first entry that is not
  below the search coordinate.  The token comparison of \<open>hashkit/token.rs\<close> interprets it.
\<close>

section \<open>Bisection\<close>

text \<open>First index in \<open>[l, r)\<close> where \<open>p\<close> fails, for a \<open>p\<close> that holds on a prefix; \<open>r\<close> if there is none.\<close>

function bisect :: "(nat \<Rightarrow> bool) \<Rightarrow> nat \<Rightarrow> nat \<Rightarrow> nat" where
  "bisect p l r =
     (if l < r then
        (let m = l + (r - l) div 2 in if p m then bisect p (m + 1) r else bisect p l m)
      else r)"
  by auto
termination
  by (relation "measure (\<lambda>(_, l, r). r - l)") (auto simp: Let_def)

declare bisect.simps [simp del]

lemma bisect_correct:
  assumes "l \<le> r" and "\<forall>i j. i \<le> j \<longrightarrow> j < r \<longrightarrow> p j \<longrightarrow> p i"
  shows "l \<le> bisect p l r \<and> bisect p l r \<le> r
    \<and> (\<forall>i. l \<le> i \<longrightarrow> i < bisect p l r \<longrightarrow> p i) \<and> (bisect p l r < r \<longrightarrow> \<not> p (bisect p l r))"
  using assms
proof (induction p l r rule: bisect.induct)
  case (1 p l r)
  show ?case
  proof (cases "l < r")
    case False
    with 1(3) show ?thesis by (simp add: bisect.simps)
  next
    case True
    define m where "m = l + (r - l) div 2"
    have m: "l \<le> m" "m < r" using True by (auto simp: m_def)
    note down = 1(4)
    show ?thesis
    proof (cases "p m")
      case True
      have eq: "bisect p l r = bisect p (m + 1) r"
        using \<open>l < r\<close> True by (simp add: bisect.simps [of p l r] m_def Let_def)
      have pre: "\<forall>i \<le> m. p i" using down m(2) True by blast
      have "m + 1 \<le> r" using m(2) by simp
      note ih = 1(1) [OF \<open>l < r\<close> m_def True this down]
      have "p i" if "i < bisect p (m + 1) r" for i using ih pre that by (cases "i \<le> m") auto
      then show ?thesis using ih m unfolding eq by auto
    next
      case False
      have eq: "bisect p l r = bisect p l m"
        using \<open>l < r\<close> False by (simp add: bisect.simps [of p l r] m_def Let_def)
      have "\<forall>i j. i \<le> j \<longrightarrow> j < m \<longrightarrow> p j \<longrightarrow> p i" using down m(2) by (meson less_trans)
      from 1(2) [OF \<open>l < r\<close> m_def False m(1) this] m False show ?thesis unfolding eq by (auto simp: le_less)
    qed
  qed
qed

section \<open>Sorting with an equivalent comparator\<close>

lemma insert_by_cong:
  "(\<And>y. y \<in> set ys \<Longrightarrow> c y x = d y x) \<Longrightarrow> insert_by c x ys = insert_by d x ys"
  by (induction ys) auto

lemma set_insert_by: "set (insert_by c x ys) = insert x (set ys)"
  by (induction ys) auto

lemma set_sort_by: "set (sort_by c xs) = set xs"
  by (induction xs) (auto simp: sort_by_def set_insert_by)

lemma sort_by_cong:
  assumes "\<And>a b. a \<in> set xs \<Longrightarrow> b \<in> set xs \<Longrightarrow> c a b = d a b"
  shows "sort_by c xs = sort_by d xs"
  using assms
proof (induction xs)
  case Nil
  then show ?case by (simp add: sort_by_def)
next
  case (Cons x xs)
  have "insert_by c x (sort_by d xs) = insert_by d x (sort_by d xs)"
    using Cons.prems by (intro insert_by_cong) (auto simp: set_sort_by)
  with Cons show ?case by (simp add: sort_by_def)
qed

section \<open>The interface\<close>

locale ring_order =
  fixes okt :: "'t \<Rightarrow> bool"
    and cmp :: "'t \<Rightarrow> 't \<Rightarrow> ordering"
    and key :: "'t \<Rightarrow> 'k::linorder"
  assumes cmp_key: "okt a \<Longrightarrow> okt b \<Longrightarrow> cmp a b = compare_of (key a) (key b)"
begin

lemma cmp_Less: "okt a \<Longrightarrow> okt b \<Longrightarrow> cmp a b = Less \<longleftrightarrow> key a < key b"
  by (simp add: cmp_key compare_of_def)

lemma sort_by_cmp:
  "\<forall>x \<in> set xs. okt (tok x) \<Longrightarrow> sort_by (\<lambda>a b. cmp (tok a) (tok b)) xs = sort_key (key \<circ> tok) xs"
proof -
  assume "\<forall>x \<in> set xs. okt (tok x)"
  then have "sort_by (\<lambda>a b. cmp (tok a) (tok b)) xs =
      sort_by (\<lambda>a b. compare_of ((key \<circ> tok) a) ((key \<circ> tok) b)) xs"
    by (intro sort_by_cong) (auto simp: cmp_key)
  then show ?thesis using sort_by_key [of "key \<circ> tok" xs] by simp
qed

text \<open>
  The owner of a coordinate on a sorted ring: the first entry not below it, the first entry of all
  when there is none.
\<close>

definition owner_index :: "'t list \<Rightarrow> 't \<Rightarrow> nat" where
  "owner_index ts t = (case position (\<lambda>x. key t \<le> key x) ts of None \<Rightarrow> 0 | Some i \<Rightarrow> i)"

lemma owner_index_eq:
  assumes "i < length ts" and "key t \<le> key (ts ! i)" and "\<And>j. j < i \<Longrightarrow> key (ts ! j) < key t"
  shows "owner_index ts t = i"
proof (cases "position (\<lambda>x. key t \<le> key x) ts")
  case None
  with assms(1,2) show ?thesis by (auto simp: position_None)
next
  case (Some k)
  from position_Some [OF this] have k: "k < length ts" "key t \<le> key (ts ! k)" "\<forall>j < k. \<not> key t \<le> key (ts ! j)"
    by auto
  have "\<not> k < i" using assms(3) k(2) by (meson leD)
  moreover have "\<not> i < k" using k(3) assms(2) by blast
  ultimately show ?thesis using Some by (simp add: owner_index_def)
qed

lemma owner_index_wrap: "\<forall>x \<in> set ts. key x < key t \<Longrightarrow> owner_index ts t = 0"
  by (simp add: owner_index_def position_None [THEN iffD2] not_le)

lemma bisect_owner:
  assumes "sorted (map key ts)" and "\<forall>x \<in> set ts. okt x" and "okt t" and "ts \<noteq> []"
    and "r = bisect (\<lambda>i. cmp (ts ! i) t = Less) 0 (length ts)"
  shows "(if r = length ts then 0 else r) = owner_index ts t"
proof -
  have less: "cmp (ts ! i) t = Less \<longleftrightarrow> key (ts ! i) < key t" if "i < length ts" for i
    using that assms(2,3) by (simp add: cmp_Less)
  have mono: "i \<le> j \<Longrightarrow> j < length ts \<Longrightarrow> key (ts ! i) \<le> key (ts ! j)" for i j
    using sorted_nth_mono [OF assms(1)] by simp
  have down: "\<forall>i j. i \<le> j \<longrightarrow> j < length ts \<longrightarrow> cmp (ts ! j) t = Less \<longrightarrow> cmp (ts ! i) t = Less"
    using mono by (auto simp: less intro: le_less_trans)
  note b = bisect_correct [of 0 "length ts" "\<lambda>i. cmp (ts ! i) t = Less", OF le0 down, folded assms(5)]
  show ?thesis
  proof (cases "r = length ts")
    case True
    then have "\<forall>x \<in> set ts. key x < key t" using b less by (auto simp: in_set_conv_nth)
    then show ?thesis using True by (simp add: owner_index_wrap)
  next
    case False
    then have "r < length ts" using b by simp
    moreover have "key (ts ! j) < key t" if "j < r" for j using b that less \<open>r < length ts\<close> by simp
    moreover have "key t \<le> key (ts ! r)" using b less \<open>r < length ts\<close> by (simp add: not_less)
    ultimately show ?thesis using False owner_index_eq by simp
  qed
qed

end

interpretation tok: ring_order token_ok token_cmp token_key
  by unfold_locales (rule token_cmp_key)

end
