(* ===== verification/Hashkit.thy ===== *)
theory Hashkit
  imports Hash_Crc Hash_Murmur3 Md5 Ring_Order
begin

text \<open>
  The front of \<open>crates/dynomite/src/hashkit\<close>: the algorithm table and its dispatch (\<open>mod.rs\<close>), the
  generator behind the random distribution (\<open>random.rs\<close>), and the modula and ketama continua
  (\<open>modula.rs\<close>, \<open>ketama.rs\<close>).
\<close>

unbundle bit_operations_syntax

section \<open>Algorithms\<close>

datatype hash_type =
    OneAtATime | HT_Md5 | Crc16 | Crc32 | Crc32a | Fnv1_64 | Fnv1a_64 | Fnv1_32 | Fnv1a_32
  | Hsieh | Murmur | Jenkins | Murmur3 | Murmur3X64_64

fun hash_type_as_str :: "hash_type \<Rightarrow> string" where
  "hash_type_as_str OneAtATime = ''one_at_a_time''"
| "hash_type_as_str HT_Md5 = ''md5''"
| "hash_type_as_str Crc16 = ''crc16''"
| "hash_type_as_str Crc32 = ''crc32''"
| "hash_type_as_str Crc32a = ''crc32a''"
| "hash_type_as_str Fnv1_64 = ''fnv1_64''"
| "hash_type_as_str Fnv1a_64 = ''fnv1a_64''"
| "hash_type_as_str Fnv1_32 = ''fnv1_32''"
| "hash_type_as_str Fnv1a_32 = ''fnv1a_32''"
| "hash_type_as_str Hsieh = ''hsieh''"
| "hash_type_as_str Murmur = ''murmur''"
| "hash_type_as_str Jenkins = ''jenkins''"
| "hash_type_as_str Murmur3 = ''murmur3''"
| "hash_type_as_str Murmur3X64_64 = ''murmur3_x64_64''"

definition hash_type_all :: "hash_type list" where
  "hash_type_all =
     [OneAtATime, HT_Md5, Crc16, Crc32, Crc32a, Fnv1_64, Fnv1a_64, Fnv1_32, Fnv1a_32,
      Hsieh, Murmur, Jenkins, Murmur3, Murmur3X64_64]"

definition hash_type_from_name :: "string \<Rightarrow> hash_type option" where
  "hash_type_from_name name = find (\<lambda>h. hash_type_as_str h = name) hash_type_all"

fun hash :: "hash_type \<Rightarrow> bytes \<Rightarrow> dyn_token" where
  "hash OneAtATime key = one_at_a_time key"
| "hash HT_Md5 key = md5_hash key"
| "hash Crc16 key = crc16_hash key"
| "hash Crc32 key = hash_libmemcached key"
| "hash Crc32a key = hash_standard key"
| "hash Fnv1_64 key = hash_fnv1_64 key"
| "hash Fnv1a_64 key = hash_fnv1a_64 key"
| "hash Fnv1_32 key = hash_fnv1_32 key"
| "hash Fnv1a_32 key = hash_fnv1a_32 key"
| "hash Hsieh key = hsieh_hash key"
| "hash Murmur key = murmur_hash key"
| "hash Jenkins key = jenkins_hash key"
| "hash Murmur3 key = murmur3_hash key"
| "hash Murmur3X64_64 key = from_u32 (ucast (drop_bit 32 (murmur3_x64_64 0xc0a1e5ce key)))"

definition hash64 :: "hash_type \<Rightarrow> bytes \<Rightarrow> u64" where
  "hash64 ty key =
     (if ty = Murmur3X64_64 then murmur3_x64_64 0xc0a1e5ce key
      else push_bit 32 (ucast (get_int (hash ty key))))"

section \<open>Pseudo-random source\<close>

record pseudo_rng =
  rng_state :: u64

definition rng_from_seed :: "u64 \<Rightarrow> pseudo_rng" where
  "rng_from_seed seed = \<lparr>rng_state = (if seed = 0 then 0x9E3779B97F4A7C15 else seed)\<rparr>"

definition next_u32 :: "pseudo_rng \<Rightarrow> u32 \<times> pseudo_rng" where
  "next_u32 rng =
     (let s = rng_state rng * 6364136223846793005 + 1442695040888963407
      in (ucast (drop_bit 32 s), \<lparr>rng_state = s\<rparr>))"

definition next_index :: "u32 \<Rightarrow> pseudo_rng \<Rightarrow> u32 \<times> pseudo_rng" where
  "next_index modulus rng =
     (if modulus = 0 then (0, rng) else let (v, rng) = next_u32 rng in (v mod modulus, rng))"

text \<open>\<open>clock_seed\<close>, with the clock reading (seconds and nanoseconds since the epoch) as argument.\<close>

definition clock_seed :: "(u64 \<times> u32) option \<Rightarrow> u64" where
  "clock_seed reading = (case reading of None \<Rightarrow> 0 | Some (secs, nanos) \<Rightarrow> secs * 1000000000 + ucast nanos)"

section \<open>Modula\<close>

record server_spec =
  sp_name :: bytes
  sp_weight :: u32

text \<open>The slots, in declaration order; a slot is the server's index.\<close>

definition modula_build :: "server_spec list \<Rightarrow> nat list" where
  "modula_build servers =
     concat (map (\<lambda>(idx, server). replicate (unat (sp_weight server)) idx) (enumerate 0 servers))"

datatype distribution_error = EmptyContinuum | HostTooLong bytes

definition modula_dispatch :: "nat list \<Rightarrow> u32 \<Rightarrow> distribution_error + nat" where
  "modula_dispatch slots h =
     (if slots = [] then Inl EmptyContinuum else Inr (slots ! (unat h mod length slots)))"

section \<open>Ketama\<close>

definition POINTS_PER_HASH :: nat where "POINTS_PER_HASH = 4"
definition MAX_HOSTLEN :: nat where "MAX_HOSTLEN = 86"

record continuum_point =
  cp_token :: dyn_token
  cp_server :: nat

definition ketama_point :: "bytes \<Rightarrow> nat \<Rightarrow> u32" where
  "ketama_point digest x =
     (let off = x * 4 in
      push_bit 24 (ucast (digest ! (3 + off))) OR push_bit 16 (ucast (digest ! (2 + off)))
        OR push_bit 8 (ucast (digest ! (1 + off))) OR ucast (digest ! off))"

text \<open>The host string \<open>"{name}-{index}"\<close>; \<open>45\<close> is the hyphen.\<close>

definition ketama_host :: "bytes \<Rightarrow> nat \<Rightarrow> bytes" where
  "ketama_host name idx = name @ [45] @ dec_bytes idx"

text \<open>The loop over the pointer groups of one server, in ascending order.\<close>

fun ketama_groups :: "nat \<Rightarrow> bytes \<Rightarrow> nat list \<Rightarrow> distribution_error + continuum_point list" where
  "ketama_groups server name [] = Inr []"
| "ketama_groups server name (idx # idxs) =
     (let host = ketama_host name idx in
      if length host \<ge> MAX_HOSTLEN then Inl (HostTooLong host)
      else
        let digest = md5_digest host;
            pts = map (\<lambda>x. \<lparr>cp_token = from_u32 (ketama_point digest x), cp_server = server\<rparr>) [0..<POINTS_PER_HASH]
        in case ketama_groups server name idxs of Inl e \<Rightarrow> Inl e | Inr rest \<Rightarrow> Inr (pts @ rest))"

text \<open>
  \<open>groups weight tw nlive\<close> is the number of digests per server, the floored floating-point
  expression of \<open>build\<close>.
\<close>

fun ketama_servers ::
  "(u32 \<Rightarrow> nat \<Rightarrow> nat \<Rightarrow> nat) \<Rightarrow> nat \<Rightarrow> nat \<Rightarrow> (nat \<times> server_spec) list \<Rightarrow> distribution_error + continuum_point list"
where
  "ketama_servers groups tw nlive [] = Inr []"
| "ketama_servers groups tw nlive ((i, s) # rest) =
     (case ketama_groups i (sp_name s) [0..<groups (sp_weight s) tw nlive] of
        Inl e \<Rightarrow> Inl e
      | Inr pts \<Rightarrow>
          (case ketama_servers groups tw nlive rest of Inl e \<Rightarrow> Inl e | Inr later \<Rightarrow> Inr (pts @ later)))"

definition ketama_build ::
  "(u32 \<Rightarrow> nat \<Rightarrow> nat \<Rightarrow> nat) \<Rightarrow> server_spec list \<Rightarrow> distribution_error + continuum_point list"
where
  "ketama_build groups servers =
     (let total_weight = sum_list (map (\<lambda>s. unat (sp_weight s)) servers) in
      if servers = [] then Inr []
      else if total_weight = 0 then Inr []
      else case ketama_servers groups total_weight (length servers) (enumerate 0 servers) of
        Inl e \<Rightarrow> Inl e
      | Inr points \<Rightarrow> Inr (sort_by (\<lambda>a b. token_cmp (cp_token a) (cp_token b)) points))"

function ketama_search :: "continuum_point list \<Rightarrow> dyn_token \<Rightarrow> nat \<Rightarrow> nat \<Rightarrow> nat" where
  "ketama_search points h left right =
     (if left < right then
        (let mid = left + (right - left) div 2 in
         case token_cmp (cp_token (points ! mid)) h of
           Less \<Rightarrow> ketama_search points h (mid + 1) right
         | _ \<Rightarrow> ketama_search points h left mid)
      else right)"
  by auto
termination
  by (relation "measure (\<lambda>(_, _, l, r). r - l)") (auto simp: Let_def)

declare ketama_search.simps [simp del]

definition ketama_dispatch :: "continuum_point list \<Rightarrow> dyn_token \<Rightarrow> distribution_error + nat" where
  "ketama_dispatch points h =
     (if points = [] then Inl EmptyContinuum
      else
        let right = ketama_search points h 0 (length points);
            pos = (if right = length points then 0 else right)
        in Inr (cp_server (points ! pos)))"

section \<open>Every key token is one word\<close>

lemma from_u32_len [simp]: "tk_len (from_u32 v) = 1"
  by (simp add: from_u32_eq)

lemma hash_is_u32: "hash ty key = from_u32 (get_int (hash ty key))"
proof -
  have "\<exists>v. hash ty key = from_u32 v"
    by (cases ty) (auto simp: one_at_a_time_def md5_hash_def crc16_hash_def hash_libmemcached_def
        hash_standard_def hash_fnv1_64_def hash_fnv1a_64_def hash_fnv1_32_def hash_fnv1a_32_def
        hsieh_hash_def murmur_hash_def jenkins_hash_def murmur3_hash_def Let_def
        split: prod.splits)
  then show ?thesis by (auto simp: get_int_def from_u32_eq)
qed

text \<open>
  C38. Whatever algorithm is configured, a key's ring token is a single word: it is well formed, it is
  the token of its 32-bit value, it compares with the one-word node tokens numerically, and it is
  the high half of the 64-bit hash that random slicing uses.
\<close>

theorem hash_token_one_word:
  "tk_len (hash ty key) = 1 \<and> token_ok (hash ty key) \<and> hash ty key = from_u32 (get_int (hash ty key))
   \<and> token_cmp (hash ty key) (from_u32 node) = compare_of (get_int (hash ty key)) node
   \<and> ucast (drop_bit 32 (hash64 ty key)) = get_int (hash ty key)"
proof -
  let ?v = "get_int (hash ty key)"
  have h: "hash ty key = from_u32 ?v" by (rule hash_is_u32)
  have len: "tk_len (hash ty key) = 1" by (subst h) simp
  have "token_ok (hash ty key)" by (subst h) simp
  moreover have "token_cmp (hash ty key) (from_u32 node) = compare_of ?v node"
    by (subst h) (rule from_u32_cmp)
  moreover have "ucast (drop_bit 32 (hash64 ty key)) = ?v"
  proof (cases "ty = Murmur3X64_64")
    case True
    then show ?thesis by (simp add: hash64_def get_int_def from_u32_eq)
  next
    case False
    have "ucast (drop_bit 32 (push_bit 32 (ucast v :: u64))) = v" for v :: u32
      by (rule bit_word_eqI) (auto simp: bit_simps)
    with False show ?thesis by (simp add: hash64_def)
  qed
  ultimately show ?thesis using len h by blast
qed

section \<open>Distributions\<close>

lemma hash_name_roundtrip: "hash_type_from_name (hash_type_as_str ty) = Some ty"
  by (cases ty) (simp_all add: hash_type_from_name_def hash_type_all_def)

lemma next_index_bound: "modulus \<noteq> 0 \<Longrightarrow> fst (next_index modulus rng) < modulus"
  by (simp add: next_index_def case_prod_unfold Let_def word_mod_less_divisor word_gt_0)

lemma count_replicate: "count_list (replicate n x) y = (if x = y then n else 0)"
  by (induction n) auto

lemma modula_count_from:
  "count_list (concat (map (\<lambda>(idx, s). replicate (unat (sp_weight s)) idx) (enumerate k servers))) i =
     (if k \<le> i \<and> i < k + length servers then unat (sp_weight (servers ! (i - k))) else 0)"
proof (induction servers arbitrary: k)
  case (Cons s servers)
  then show ?case by (auto simp: count_replicate nth_Cons')
qed simp

lemma modula_count:
  "count_list (modula_build servers) i = (if i < length servers then unat (sp_weight (servers ! i)) else 0)"
  using modula_count_from [of 0 servers i] by (simp add: modula_build_def)

lemma count_list_card: "count_list xs y = card {r. r < length xs \<and> xs ! r = y}"
  by (simp add: count_list_eq_length_filter length_filter_conv_card eq_commute)

lemma modula_dispatch_residue:
  "length slots \<le> 2 ^ 32 \<Longrightarrow> r < length slots \<Longrightarrow> modula_dispatch slots (of_nat r) = Inr i \<longleftrightarrow> slots ! r = i"
  by (auto simp: modula_dispatch_def unat_of_nat)

text \<open>
  The modula distribution is proportional to the weights: of the slot numbers exactly \<open>weight\<close>
  go to each server, every hash goes to a server of the list that has a weight, and the only error
  is the empty table.
\<close>

theorem modula_proportional:
  assumes "length (modula_build servers) \<le> 2 ^ 32" and "i < length servers"
  shows "card {r. r < length (modula_build servers) \<and> modula_dispatch (modula_build servers) (of_nat r) = Inr i}
      = unat (sp_weight (servers ! i))
    \<and> (case modula_dispatch (modula_build servers) h of
         Inl e \<Rightarrow> e = EmptyContinuum \<and> (\<forall>s \<in> set servers. sp_weight s = 0)
       | Inr j \<Rightarrow> j < length servers \<and> sp_weight (servers ! j) \<noteq> 0)"
proof -
  let ?slots = "modula_build servers"
  have "{r. r < length ?slots \<and> modula_dispatch ?slots (of_nat r) = Inr i} = {r. r < length ?slots \<and> ?slots ! r = i}"
    using modula_dispatch_residue [OF assms(1)] by auto
  then have 1: "card {r. r < length ?slots \<and> modula_dispatch ?slots (of_nat r) = Inr i} = unat (sp_weight (servers ! i))"
    using assms(2) by (simp add: count_list_card [symmetric] modula_count)
  show ?thesis
  proof (cases "?slots = []")
    case True
    have "unat (sp_weight (servers ! k)) = 0" if "k < length servers" for k
      using modula_count [of servers k] that True by simp
    then have "\<forall>s \<in> set servers. sp_weight s = 0" by (auto simp: in_set_conv_nth unat_eq_0)
    with 1 True show ?thesis by (simp add: modula_dispatch_def)
  next
    case False
    let ?j = "?slots ! (unat h mod length ?slots)"
    have "?j \<in> set ?slots" using False by simp
    then have "count_list ?slots ?j \<noteq> 0" by (simp add: count_list_0_iff)
    then have "?j < length servers" "unat (sp_weight (servers ! ?j)) \<noteq> 0"
      by (auto simp: modula_count split: if_splits)
    with 1 False show ?thesis by (simp add: modula_dispatch_def unat_eq_0)
  qed
qed

theorem modula_proportional_witness:
  "card {r. r < Suc (Suc 0) \<and> modula_dispatch (modula_build [\<lparr>sp_name = [97], sp_weight = 1\<rparr>, \<lparr>sp_name = [98], sp_weight = 1\<rparr>]) (of_nat r) = Inr 1} = 1"
proof -
  let ?s = "[\<lparr>sp_name = [97], sp_weight = 1\<rparr>, \<lparr>sp_name = [98], sp_weight = 1\<rparr>] :: server_spec list"
  have "modula_build ?s = [0, 1]" by (simp add: modula_build_def)
  then show ?thesis using modula_proportional [of ?s 1 0] by simp
qed

subsection \<open>The ketama continuum\<close>

lemma ketama_groups_points:
  "ketama_groups server name idxs = Inr pts \<Longrightarrow>
     length pts = POINTS_PER_HASH * length idxs \<and> (\<forall>p \<in> set pts. cp_server p = server \<and> token_ok (cp_token p))"
proof (induction idxs arbitrary: pts)
  case (Cons idx idxs)
  then show ?case
    by (fastforce simp: Let_def POINTS_PER_HASH_def split: if_splits sum.splits)
qed simp

lemma ketama_servers_points:
  "ketama_servers groups tw nlive iss = Inr pts \<Longrightarrow>
     length pts = (\<Sum>(i, s) \<leftarrow> iss. POINTS_PER_HASH * groups (sp_weight s) tw nlive)
     \<and> (\<forall>p \<in> set pts. cp_server p \<in> fst ` set iss \<and> token_ok (cp_token p))"
proof (induction iss arbitrary: pts)
  case (Cons a iss)
  obtain i s where a: "a = (i, s)" by (cases a)
  from Cons.prems obtain p1 p2 where
    p1: "ketama_groups i (sp_name s) [0..<groups (sp_weight s) tw nlive] = Inr p1"
    and p2: "ketama_servers groups tw nlive iss = Inr p2" and pts: "pts = p1 @ p2"
    by (auto simp: a split: sum.splits)
  show ?case using ketama_groups_points [OF p1] Cons.IH [OF p2] by (auto simp: a pts)
qed simp

lemma sum_list_enumerate: "(\<Sum>(i, s) \<leftarrow> enumerate k xs. f s) = (\<Sum>s \<leftarrow> xs. f s)"
  by (induction xs arbitrary: k) auto

lemma ketama_search_bisect:
  "ketama_search points h l r = bisect (\<lambda>i. token_cmp (cp_token (points ! i)) h = Less) l r"
proof (induction points h l r rule: ketama_search.induct)
  case (1 points h l r)
  show ?case
  proof (cases "l < r")
    case False
    then show ?thesis by (simp add: ketama_search.simps bisect.simps)
  next
    case True
    show ?thesis
      unfolding ketama_search.simps [of points h l r] bisect.simps [of _ l r] Let_def
      using True by (cases "token_cmp (cp_token (points ! (l + (r - l) div 2))) h")
        (simp_all add: 1 [OF True refl, simplified])
  qed
qed



end
