(* ===== verification/Random_Slicing.thy ===== *)
theory Random_Slicing
  imports Prelude
begin

text \<open>
  The random-slicing distribution of \<open>crates/dynomite/src/hashkit/random_slicing.rs\<close>: the three
  builders, the lower-bound table and the lookup.  Whatever builder made it, a table is a gap-free
  partition of the 64-bit hash space.  The floating-point part of \<open>from_weights\<close> (validity of a
  weight, usability of the sum, and the truncated share of each weight) is a parameter; everything
  the code does with the resulting integers is modelled.
\<close>

section \<open>Tables and builders\<close>

datatype 'w random_slices_error =
    EmptyClaimants
  | DuplicateClaimant bytes
  | InvalidWeight bytes 'w
  | OversizedSizeSum nat
  | ZeroInterval nat bytes

record random_slices =
  lower_bounds :: "u64 list"
  interval_sizes :: "u64 list"
  claimants :: "bytes list"

abbreviation U64_MAX :: nat where "U64_MAX \<equiv> 2 ^ 64 - 1"

fun check_unique_loop :: "bytes set \<Rightarrow> bytes list \<Rightarrow> 'w random_slices_error + unit" where
  "check_unique_loop seen [] = Inr ()"
| "check_unique_loop seen (name # names) =
     (if name \<in> seen then Inl (DuplicateClaimant name) else check_unique_loop (insert name seen) names)"

definition check_unique :: "bytes list \<Rightarrow> 'w random_slices_error + unit" where
  "check_unique names = check_unique_loop {} names"

fun lower_bounds_loop :: "u64 \<Rightarrow> u64 list \<Rightarrow> u64 list" where
  "lower_bounds_loop acc [] = []"
| "lower_bounds_loop acc (s # sizes) = acc # lower_bounds_loop (saturating_add acc s) sizes"

definition build_lower_bounds :: "u64 list \<Rightarrow> u64 list" where
  "build_lower_bounds sizes = lower_bounds_loop 0 sizes"

definition from_uniform :: "bytes list \<Rightarrow> 'w random_slices_error + random_slices" where
  "from_uniform names =
     (if names = [] then Inl EmptyClaimants
      else case check_unique names of
        Inl e \<Rightarrow> Inl e
      | Inr _ \<Rightarrow>
          (let n = of_nat (length names) :: u64;
               base = (- 1) div n;
               used = (if unat base * unat n \<le> U64_MAX then base * n else 0);
               remainder = - 1 - used;
               sizes = replicate (length names) base;
               sizes = sizes[length sizes - 1 := saturating_add (last sizes) remainder]
           in Inr \<lparr>lower_bounds = build_lower_bounds sizes, interval_sizes = sizes, claimants = names\<rparr>))"

text \<open>The summing loop of \<open>from_sizes\<close>; the \<open>u128\<close> sum cannot overflow and is a natural number.\<close>

fun sizes_loop :: "nat \<Rightarrow> nat \<Rightarrow> (bytes \<times> u64) list \<Rightarrow> 'w random_slices_error + nat" where
  "sizes_loop idx acc [] = Inr acc"
| "sizes_loop idx acc ((name, s) # rest) =
     (if s = 0 then Inl (ZeroInterval idx name)
      else let acc = acc + unat s in
        if acc > U64_MAX then Inl (OversizedSizeSum acc) else sizes_loop (idx + 1) acc rest)"

text \<open>The tail interval absorbs the remainder.\<close>

definition absorb_remainder :: "nat \<Rightarrow> u64 list \<Rightarrow> u64 list" where
  "absorb_remainder remainder sizes =
     (if remainder > 0 then sizes[length sizes - 1 := of_nat (unat (last sizes) + remainder)] else sizes)"

definition from_sizes :: "(bytes \<times> u64) list \<Rightarrow> 'w random_slices_error + random_slices" where
  "from_sizes sizes =
     (if sizes = [] then Inl EmptyClaimants
      else case check_unique (map fst sizes) of
        Inl e \<Rightarrow> Inl e
      | Inr _ \<Rightarrow>
          (case sizes_loop 0 0 sizes of
             Inl e \<Rightarrow> Inl e
           | Inr used \<Rightarrow>
               (let interval_sizes = absorb_remainder (U64_MAX - used) (map snd sizes)
                in Inr \<lparr>lower_bounds = build_lower_bounds interval_sizes, interval_sizes = interval_sizes,
                        claimants = map fst sizes\<rparr>)))"

text \<open>
  \<open>from_weights\<close>.  \<open>valid w\<close> is \<open>w.is_finite() && w >= 0\<close>; \<open>usable ws\<close> says that the rounded sum is
  finite and positive; \<open>share ws i\<close> is \<open>(u64::MAX as f64) * (rounded[i] / sum)\<close> after the
  saturating conversion to \<open>u64\<close>.
\<close>

definition weight_sizes :: "(nat \<Rightarrow> u64) \<Rightarrow> nat \<Rightarrow> u64 list" where
  "weight_sizes share n =
     (let sizes = map share [0..<n - 1];
          consumed = sum_list (map unat sizes);
          rest = U64_MAX - consumed;
          rest = (if rest = 0 then 1 else rest)
      in sizes @ [of_nat (min rest U64_MAX)])"

definition promote_zeros :: "u64 list \<Rightarrow> u64 list" where
  "promote_zeros sizes =
     (let front = map (\<lambda>s. if s = 0 then 1 else s) (butlast sizes);
          promoted = length (filter (\<lambda>s. s = 0) (butlast sizes));
          tail = last sizes
      in front @ [if promoted > 0 then max (saturating_sub tail (of_nat promoted)) 1 else tail])"

definition from_weights ::
  "('w \<Rightarrow> bool) \<Rightarrow> ('w list \<Rightarrow> bool) \<Rightarrow> ('w list \<Rightarrow> nat \<Rightarrow> u64) \<Rightarrow> (bytes \<times> 'w) list
    \<Rightarrow> 'w random_slices_error + random_slices"
where
  "from_weights valid usable share weights =
     (if weights = [] then Inl EmptyClaimants
      else case check_unique (map fst weights) of
        Inl e \<Rightarrow> Inl e
      | Inr _ \<Rightarrow>
          (case find (\<lambda>(_, w). \<not> valid w) weights of
             Some (name, w) \<Rightarrow> Inl (InvalidWeight name w)
           | None \<Rightarrow>
               (let ws = map snd weights;
                    invalid = Inl (InvalidWeight (fst (hd weights)) (snd (hd weights)))
                in if \<not> usable ws then invalid
                   else
                     let sizes = weight_sizes (share ws) (length weights)
                     in if \<forall>s \<in> set sizes. s = 0 then invalid
                        else from_sizes (zip (map fst weights) (promote_zeros sizes)))))"

section \<open>Lookup\<close>

function slice_search :: "u64 list \<Rightarrow> u64 \<Rightarrow> nat \<Rightarrow> nat \<Rightarrow> nat" where
  "slice_search lb h lo hi =
     (if lo < hi then
        (let mid = lo + (hi - lo + 1) div 2 in
         if lb ! mid \<le> h then slice_search lb h mid hi else slice_search lb h lo (mid - 1))
      else lo)"
  by auto
termination
  by (relation "measure (\<lambda>(_, _, lo, hi). hi - lo)") (auto simp: Let_def)

declare slice_search.simps [simp del]

definition index_for :: "random_slices \<Rightarrow> u64 \<Rightarrow> nat option" where
  "index_for s h =
     (let n = length (lower_bounds s) in
      if n = 0 then None
      else
        let last = n - 1
        in if h \<ge> lower_bounds s ! last then Some last
           else Some (slice_search (lower_bounds s) h 0 last))"

definition claimant_for :: "random_slices \<Rightarrow> u64 \<Rightarrow> bytes option" where
  "claimant_for s h =
     (case index_for s h of
        None \<Rightarrow> None
      | Some idx \<Rightarrow> if idx < length (claimants s) then Some (claimants s ! idx) else None)"

definition intervals :: "random_slices \<Rightarrow> (bytes \<times> u64 \<times> u64) list" where
  "intervals s = zip (claimants s) (zip (lower_bounds s) (interval_sizes s))"

section \<open>Well-formed tables\<close>

definition slices_ok :: "random_slices \<Rightarrow> bool" where
  "slices_ok s \<longleftrightarrow>
     claimants s \<noteq> [] \<and> distinct (claimants s)
     \<and> length (interval_sizes s) = length (claimants s)
     \<and> (\<forall>z \<in> set (interval_sizes s). z \<noteq> 0)
     \<and> sum_list (map unat (interval_sizes s)) = U64_MAX
     \<and> lower_bounds s = build_lower_bounds (interval_sizes s)"

lemma check_unique_loop_Inr:
  "check_unique_loop seen names = Inr () \<longleftrightarrow> distinct names \<and> set names \<inter> seen = {}"
  by (induction names arbitrary: seen) auto

lemma check_unique_Inr: "check_unique names = Inr u \<longleftrightarrow> distinct names"
  using check_unique_loop_Inr [of "{}" names] by (simp add: check_unique_def)

lemma length_lower_bounds_loop [simp]: "length (lower_bounds_loop acc sizes) = length sizes"
  by (induction sizes arbitrary: acc) auto

lemma length_build_lower_bounds [simp]: "length (build_lower_bounds sizes) = length sizes"
  by (simp add: build_lower_bounds_def)

lemma lower_bounds_loop_nth:
  "unat acc + sum_list (map unat sizes) \<le> U64_MAX \<Longrightarrow> i < length sizes \<Longrightarrow>
     unat (lower_bounds_loop acc sizes ! i) = unat acc + sum_list (map unat (take i sizes))"
proof (induction sizes arbitrary: acc i)
  case (Cons s sizes)
  have "unat (saturating_add acc s) = unat acc + unat s"
    using Cons.prems by (simp add: unat_saturating_add)
  with Cons show ?case by (cases i) auto
qed simp

lemma build_lower_bounds_nth:
  "sum_list (map unat sizes) \<le> U64_MAX \<Longrightarrow> i < length sizes \<Longrightarrow>
     unat (build_lower_bounds sizes ! i) = sum_list (map unat (take i sizes))"
  using lower_bounds_loop_nth [of 0 sizes i] by (simp add: build_lower_bounds_def)

text \<open>Raising the last size to absorb what is left makes the sizes add up to the whole range.\<close>

lemma sum_list_raise_last:
  fixes sizes :: "u64 list"
  assumes "sizes \<noteq> []" and "sum_list (map unat sizes) + r = U64_MAX"
    and "unat v = unat (last sizes) + r"
  shows "sum_list (map unat (sizes[length sizes - 1 := v])) = U64_MAX"
proof -
  obtain front l where l: "sizes = front @ [l]" using assms(1) by (metis rev_exhaust)
  with assms show ?thesis by simp
qed

lemma set_raise_last:
  "sizes \<noteq> [] \<Longrightarrow> \<forall>z \<in> set sizes. z \<noteq> 0 \<Longrightarrow> v \<noteq> 0 \<Longrightarrow> \<forall>z \<in> set (sizes[length sizes - 1 := v]). z \<noteq> (0 :: u64)"
  using set_update_subset_insert [of sizes "length sizes - 1" v] by blast

lemma from_uniform_ok:
  assumes "from_uniform names = Inr s" and "length names < 2 ^ 64"
  shows "slices_ok s \<and> claimants s = names"
proof -
  let ?n = "of_nat (length names) :: u64"
  let ?base = "(- 1) div ?n :: u64"
  let ?sizes = "replicate (length names) ?base"
  have ne: "names \<noteq> []" and dist: "distinct names"
    using assms(1) by (auto simp: from_uniform_def check_unique_Inr split: if_splits sum.splits)
  have n: "unat ?n = length names" using assms(2) by (simp add: unat_of_nat take_bit_nat_eq_self)
  have m1: "unat (- 1 :: u64) = U64_MAX" by (simp add: unsigned_minus_1_eq_mask mask_eq_exp_minus_1)
  have base: "unat ?base = U64_MAX div length names" by (simp add: unat_div n m1)
  have used_le: "unat ?base * unat ?n \<le> U64_MAX" unfolding base n by (rule div_times_less_eq_dividend)
  then have used: "unat (?base * ?n) = unat ?base * length names"
    by (simp add: unat_word_ariths n)
  have rem: "unat (- 1 - ?base * ?n) = U64_MAX - unat ?base * length names"
    using used_le by (simp add: unat_sub_if' used n m1)
  have last: "last ?sizes = ?base" using ne by simp
  have sum: "sum_list (map unat ?sizes) = unat ?base * length names"
    by (simp add: sum_list_replicate mult.commute)
  let ?r = "U64_MAX - unat ?base * length names"
  let ?v = "saturating_add (last ?sizes) (- 1 - ?base * ?n)"
  have "unat ?base * 1 \<le> unat ?base * length names" using ne by (intro mult_le_mono2) (simp add: Suc_le_eq)
  then have fit: "unat ?base + ?r \<le> U64_MAX" using used_le [unfolded n] by linarith
  have v: "unat ?v = unat (last ?sizes) + ?r"
    using fit by (simp add: unat_saturating_add last rem del: last_replicate)
  have pos: "?base \<noteq> 0"
  proof -
    have "1 \<le> U64_MAX div length names" using assms(2) ne by (simp add: div_greater_zero_iff Suc_le_eq)
    then show ?thesis using base by (metis One_nat_def not_one_le_zero unat_0)
  qed
  have "?v \<noteq> 0" using v last pos by (metis add_is_0 unat_0 unat_eq_zero)
  have "sum_list (map unat (?sizes[length ?sizes - 1 := ?v])) = U64_MAX"
    using ne sum used_le n by (intro sum_list_raise_last [where r = ?r, OF _ _ v]) auto
  moreover have "\<forall>z \<in> set (?sizes[length ?sizes - 1 := ?v]). z \<noteq> 0"
    using ne pos \<open>?v \<noteq> 0\<close> by (intro set_raise_last) auto
  moreover have "s = \<lparr>lower_bounds = build_lower_bounds (?sizes[length ?sizes - 1 := ?v]),
      interval_sizes = ?sizes[length ?sizes - 1 := ?v], claimants = names\<rparr>"
    using assms(1) used_le ne by (auto simp: from_uniform_def Let_def check_unique_Inr split: if_splits sum.splits)
  ultimately show ?thesis using ne dist by (simp add: slices_ok_def)
qed

lemma sizes_loop_Inr:
  "sizes_loop idx acc sizes = Inr used \<longleftrightarrow>
     (\<forall>(_, s) \<in> set sizes. s \<noteq> 0) \<and> used = acc + sum_list (map (unat \<circ> snd) sizes)
     \<and> (sizes = [] \<or> used \<le> U64_MAX)"
proof (induction idx acc sizes rule: sizes_loop.induct)
  case (2 idx acc name s rest)
  show ?case
  proof (cases "s = 0 \<or> acc + unat s > U64_MAX")
    case True
    then show ?thesis by auto
  next
    case False
    with 2 show ?thesis by (auto simp: Let_def)
  qed
qed auto

lemma absorb_remainder_ok:
  assumes "z \<noteq> []" and "\<forall>x \<in> set z. x \<noteq> 0" and "sum_list (map unat z) \<le> U64_MAX"
  shows "sum_list (map unat (absorb_remainder (U64_MAX - sum_list (map unat z)) z)) = U64_MAX
    \<and> (\<forall>x \<in> set (absorb_remainder (U64_MAX - sum_list (map unat z)) z). x \<noteq> 0)"
proof -
  define r where "r = U64_MAX - sum_list (map unat z)"
  define v where "v = (of_nat (unat (last z) + r) :: u64)"
  have "unat (last z) \<le> sum_list (map unat z)"
    using assms(1) by (intro member_le_sum_list) auto
  then have v: "unat v = unat (last z) + r"
    unfolding v_def r_def using assms(3) by (intro unat_of_nat_small) simp
  have "last z \<noteq> 0" using assms(1,2) by simp
  then have "v \<noteq> 0" using v by (metis add_is_0 unat_0 unat_eq_zero)
  then have "\<forall>x \<in> set (absorb_remainder r z). x \<noteq> 0"
    using set_raise_last [OF assms(1,2)] assms(2) unfolding absorb_remainder_def v_def [symmetric] by simp
  moreover have sum: "sum_list (map unat z) + r = U64_MAX" using assms(3) by (simp add: r_def)
  have "sum_list (map unat (absorb_remainder r z)) = U64_MAX"
  proof (cases "r > 0")
    case True
    with sum_list_raise_last [OF assms(1) sum v] show ?thesis unfolding absorb_remainder_def v_def [symmetric] by simp
  next
    case False
    with sum show ?thesis by (simp add: absorb_remainder_def)
  qed
  ultimately show ?thesis unfolding r_def by blast
qed

lemma length_absorb_remainder [simp]: "length (absorb_remainder r z) = length z"
  by (simp add: absorb_remainder_def)

lemma from_sizes_ok:
  assumes "(from_sizes sizes :: 'w random_slices_error + random_slices) = Inr s"
  shows "slices_ok s \<and> claimants s = map fst sizes"
proof -
  have ne: "sizes \<noteq> []" and dist: "distinct (map fst sizes)"
    using assms by (auto simp: from_sizes_def check_unique_Inr split: if_splits sum.splits)
  obtain used where u: "(sizes_loop 0 0 sizes :: 'w random_slices_error + nat) = Inr used"
    using assms ne by (auto simp: from_sizes_def split: sum.splits)
  then have pos: "\<forall>z \<in> set (map snd sizes). z \<noteq> 0" and used: "sum_list (map unat (map snd sizes)) = used" "used \<le> U64_MAX"
    using ne by (auto simp: sizes_loop_Inr)
  define z where "z = absorb_remainder (U64_MAX - used) (map snd sizes)"
  have "s = \<lparr>lower_bounds = build_lower_bounds z, interval_sizes = z, claimants = map fst sizes\<rparr>"
    using assms ne dist u by (auto simp: from_sizes_def z_def Let_def split: if_splits sum.splits)
  moreover have "sum_list (map unat z) = U64_MAX \<and> (\<forall>x \<in> set z. x \<noteq> 0)" "length z = length sizes"
    using absorb_remainder_ok [of "map snd sizes"] ne pos used unfolding z_def by simp_all
  ultimately show ?thesis using ne dist by (simp add: slices_ok_def)
qed

lemma length_promote_zeros: "length (promote_zeros (weight_sizes share n)) = Suc (n - 1)"
  by (simp add: promote_zeros_def weight_sizes_def Let_def)

lemma from_weights_ok:
  fixes weights :: "(bytes \<times> 'w) list"
  assumes "from_weights valid usable share weights = Inr s"
  shows "slices_ok s \<and> claimants s = map fst weights"
proof -
  let ?z = "promote_zeros (weight_sizes (share (map snd weights)) (length weights))"
  have "weights \<noteq> []" using assms by (auto simp: from_weights_def)
  moreover have "(from_sizes (zip (map fst weights) ?z) :: 'w random_slices_error + _) = Inr s"
    using assms by (auto simp: from_weights_def Let_def split: if_splits sum.splits option.splits)
  ultimately show ?thesis using from_sizes_ok length_promote_zeros by fastforce
qed

section \<open>The lookup finds the owner\<close>

lemma slice_search_correct:
  assumes "lo \<le> hi" and "hi < length lb" and "lb ! lo \<le> h" and "\<forall>j. hi < j \<longrightarrow> j < length lb \<longrightarrow> h < lb ! j"
    and "sorted lb"
  shows "lo \<le> slice_search lb h lo hi \<and> slice_search lb h lo hi \<le> hi \<and> lb ! slice_search lb h lo hi \<le> h
    \<and> (\<forall>j. slice_search lb h lo hi < j \<longrightarrow> j < length lb \<longrightarrow> h < lb ! j)"
  using assms
proof (induction lb h lo hi rule: slice_search.induct)
  case (1 lb h lo hi)
  show ?case
  proof (cases "lo < hi")
    case False
    with 1(3-) show ?thesis by (simp add: slice_search.simps)
  next
    case True
    define mid where "mid = lo + (hi - lo + 1) div 2"
    have mid: "lo < mid" "mid \<le> hi" using True by (auto simp: mid_def)
    show ?thesis
    proof (cases "lb ! mid \<le> h")
      case t: True
      have eq: "slice_search lb h lo hi = slice_search lb h mid hi"
        using True t by (simp add: slice_search.simps [of lb h lo hi] mid_def Let_def)
      from 1(1) [OF True mid_def t mid(2) 1(4) t 1(6,7)] mid(1) show ?thesis unfolding eq by auto
    next
      case f: False
      have eq: "slice_search lb h lo hi = slice_search lb h lo (mid - 1)"
        using True f by (simp add: slice_search.simps [of lb h lo hi] mid_def Let_def)
      have up: "\<forall>j. mid - 1 < j \<longrightarrow> j < length lb \<longrightarrow> h < lb ! j"
      proof (intro allI impI)
        fix j assume "mid - 1 < j" and j: "j < length lb"
        then have "lb ! mid \<le> lb ! j" using sorted_nth_mono [OF 1(7) _ j] by simp
        with f show "h < lb ! j" by simp
      qed
      have "lo \<le> mid - 1" "mid - 1 < length lb" using mid 1(4) by auto
      from 1(2) [OF True mid_def f this 1(5) up 1(7)] mid show ?thesis unfolding eq by auto
    qed
  qed
qed

lemma sum_take_mono:
  "i \<le> j \<Longrightarrow> sum_list (map f (take i xs)) \<le> (sum_list (map f (take j xs)) :: nat)"
  using take_add [of i "j - i" xs] by simp

lemma slices_bounds:
  "slices_ok s \<Longrightarrow> i < length (claimants s) \<Longrightarrow>
     unat (lower_bounds s ! i) = sum_list (map unat (take i (interval_sizes s)))"
  by (simp add: slices_ok_def build_lower_bounds_nth)

lemma slices_sorted: "slices_ok s \<Longrightarrow> sorted (lower_bounds s)"
  unfolding sorted_iff_nth_mono
  by (auto simp: slices_ok_def build_lower_bounds_nth word_le_nat_alt sum_take_mono)

lemma index_for_correct:
  assumes "slices_ok s"
  shows "\<exists>i < length (claimants s). index_for s h = Some i \<and> lower_bounds s ! i \<le> h
    \<and> (\<forall>j. i < j \<longrightarrow> j < length (claimants s) \<longrightarrow> h < lower_bounds s ! j)"
proof -
  let ?lb = "lower_bounds s" and ?n = "length (claimants s)"
  have n: "length ?lb = ?n" "?n \<noteq> 0" using assms by (auto simp: slices_ok_def)
  have lb0: "?lb ! 0 = 0" using slices_bounds [OF assms, of 0] n(2) by (simp add: unat_eq_0)
  show ?thesis
  proof (cases "?lb ! (?n - 1) \<le> h")
    case True
    then show ?thesis using n by (intro exI [of _ "?n - 1"]) (auto simp: index_for_def)
  next
    case False
    have up: "\<forall>j. ?n - 1 < j \<longrightarrow> j < length ?lb \<longrightarrow> h < ?lb ! j" using n by auto
    note c = slice_search_correct [OF _ _ _ up slices_sorted [OF assms], of 0]
    let ?k = "slice_search ?lb h 0 (?n - 1)"
    have k: "?k \<le> ?n - 1" "?lb ! ?k \<le> h" "\<forall>j. ?k < j \<longrightarrow> j < ?n \<longrightarrow> h < ?lb ! j"
      using c n lb0 by auto
    moreover have "?k < ?n" using k(1) n(2) by linarith
    ultimately show ?thesis using n False by (intro exI [of _ ?k]) (simp add: index_for_def)
  qed
qed

lemma slices_strict:
  assumes "slices_ok s" and "i < length (claimants s)"
  shows "sum_list (map unat (take (Suc i) (interval_sizes s))) =
      sum_list (map unat (take i (interval_sizes s))) + unat (interval_sizes s ! i)"
  using assms by (simp add: slices_ok_def take_Suc_conv_app_nth)

text \<open>The owner of a hash, by the sizes of the intervals alone.\<close>

lemma index_for_iff:
  assumes ok: "slices_ok s"
  shows "index_for s h = Some i \<longleftrightarrow> i < length (claimants s)
    \<and> sum_list (map unat (take i (interval_sizes s))) \<le> unat h
    \<and> (unat h < sum_list (map unat (take (Suc i) (interval_sizes s))) \<or> Suc i = length (claimants s))"
    (is "_ \<longleftrightarrow> ?owns i")
proof -
  obtain k where k: "k < length (claimants s)" "index_for s h = Some k" "lower_bounds s ! k \<le> h"
    "\<forall>j. k < j \<longrightarrow> j < length (claimants s) \<longrightarrow> h < lower_bounds s ! j"
    using index_for_correct [OF ok] by blast
  have "?owns k"
    using k slices_bounds [OF ok, of k] slices_bounds [OF ok, of "Suc k"]
    by (auto simp: word_le_nat_alt word_less_nat_alt Suc_lessI)
  moreover have "i = j" if "?owns i" "?owns j" for i j
  proof -
    have "\<not> i < j" if "?owns i" "?owns j" for i j
      using that sum_take_mono [of "Suc i" j unat "interval_sizes s"] by (auto simp: Suc_le_eq)
    with that show ?thesis by (metis nat_neq_iff)
  qed
  ultimately show ?thesis using k(2) by auto
qed

lemma card_word_interval: "b \<le> 2 ^ 64 \<Longrightarrow> card {h :: u64. a \<le> unat h \<and> unat h < b} = b - a"
proof -
  assume b: "b \<le> 2 ^ 64"
  have "unat ` {h :: u64. a \<le> unat h \<and> unat h < b} = {a..<b}"
  proof (intro equalityI subsetI)
    fix x assume x: "x \<in> {a..<b}"
    then have "unat (of_nat x :: u64) = x" using b by (simp add: unat_of_nat take_bit_nat_eq_self)
    with x show "x \<in> unat ` {h :: u64. a \<le> unat h \<and> unat h < b}"
      by (intro image_eqI [of _ _ "of_nat x"]) auto
  qed auto
  then have "card (unat ` {h :: u64. a \<le> unat h \<and> unat h < b}) = b - a" by simp
  then show ?thesis by (subst (asm) card_image) (auto intro!: inj_onI simp: word_unat_eq_iff)
qed

lemma u64_less: "unat (h :: u64) < 18446744073709551616"
  using unsigned_less [of h, where ?'a = nat] by simp

lemma claimant_for_iff:
  assumes ok: "slices_ok s" and i: "i < length (claimants s)"
  shows "claimant_for s h = Some (claimants s ! i) \<longleftrightarrow> index_for s h = Some i"
proof -
  obtain k where k: "index_for s h = Some k" "k < length (claimants s)"
    using index_for_correct [OF ok] by blast
  moreover have "distinct (claimants s)" using ok by (simp add: slices_ok_def)
  ultimately show ?thesis using i by (auto simp: claimant_for_def nth_eq_iff_index_eq)
qed

lemma share_size:
  assumes ok: "slices_ok s" and i: "i < length (claimants s)"
  shows "card {h. claimant_for s h = Some (claimants s ! i)} =
          unat (interval_sizes s ! i) + (if Suc i = length (claimants s) then 1 else 0)"
proof -
  let ?a = "sum_list (map unat (take i (interval_sizes s)))"
  let ?b = "sum_list (map unat (take (Suc i) (interval_sizes s)))"
  have b: "?b \<le> U64_MAX" "Suc i = length (claimants s) \<Longrightarrow> ?b = U64_MAX"
    using ok sum_take_mono [of "Suc i" "length (interval_sizes s)" unat "interval_sizes s"] i
    by (auto simp: slices_ok_def)
  have "{h. claimant_for s h = Some (claimants s ! i)} =
      {h. ?a \<le> unat h \<and> unat h < ?b + (if Suc i = length (claimants s) then 1 else 0)}"
    using i b(2) by (auto simp: claimant_for_iff [OF ok i] index_for_iff [OF ok] u64_less)
  then show ?thesis using b slices_strict [OF ok i] by (simp add: card_word_interval)
qed

text \<open>
  C18. Whichever builder made it, a random-slicing table is a gap-free partition of the 64-bit hash
  space: every hash has an owner, the owner of a hash is the one interval it falls in, and a
  claimant owns exactly as many hashes as its interval is long (the last one also the value
  \<open>u64::MAX\<close>).
\<close>

theorem slices_partition:
  fixes weights :: "(bytes \<times> 'w) list"
  assumes "(from_uniform names :: 'w random_slices_error + _) = Inr s \<and> length names < 2 ^ 64
     \<or> (from_sizes sizes :: 'w random_slices_error + _) = Inr s
     \<or> from_weights valid usable share weights = Inr s"
  shows "(\<exists>i < length (claimants s). claimant_for s h = Some (claimants s ! i) \<and> lower_bounds s ! i \<le> h
            \<and> (\<forall>j. i < j \<longrightarrow> j < length (claimants s) \<longrightarrow> h < lower_bounds s ! j))
    \<and> (\<forall>i < length (claimants s). card {h. claimant_for s h = Some (claimants s ! i)} =
          unat (interval_sizes s ! i) + (if Suc i = length (claimants s) then 1 else 0))"
proof (rule conjI)
  have ok: "slices_ok s" using assms
    by (elim disjE conjE) (rule conjunct1 [OF from_uniform_ok], assumption+, rule conjunct1 [OF from_sizes_ok], assumption,
      rule conjunct1 [OF from_weights_ok], assumption)
  from index_for_correct [OF ok, of h]
  show "\<exists>i < length (claimants s). claimant_for s h = Some (claimants s ! i) \<and> lower_bounds s ! i \<le> h
            \<and> (\<forall>j. i < j \<longrightarrow> j < length (claimants s) \<longrightarrow> h < lower_bounds s ! j)"
    by (simp add: claimant_for_iff [OF ok] cong: conj_cong) 
  show "\<forall>i < length (claimants s). card {h. claimant_for s h = Some (claimants s ! i)} =
          unat (interval_sizes s ! i) + (if Suc i = length (claimants s) then 1 else 0)"
    by (simp add: share_size [OF ok])
qed

theorem slices_partition_witness:
  "card {h. claimant_for \<lparr>lower_bounds = [0, 100], interval_sizes = [100, 0xFFFFFFFFFFFFFF9B],
      claimants = [[97], [98]]\<rparr> h = Some [97]} = 100"
proof -
  define s :: random_slices where
    "s = \<lparr>lower_bounds = [0, 100], interval_sizes = [100, 0xFFFFFFFFFFFFFF9B], claimants = [[97], [98]]\<rparr>"
  have "(from_sizes [([97], 100), ([98], 200)] :: unit random_slices_error + _) = Inr s"
    by (simp add: s_def from_sizes_def check_unique_def build_lower_bounds_def saturating_add_def
        absorb_remainder_def Let_def)
  then have "\<forall>i < length (claimants s). card {h. claimant_for s h = Some (claimants s ! i)} =
          unat (interval_sizes s ! i) + (if Suc i = length (claimants s) then 1 else 0)"
    by (intro conjunct2 [OF slices_partition]) blast
  moreover have "0 < length (claimants s)" by (simp add: s_def)
  ultimately have "card {h. claimant_for s h = Some (claimants s ! 0)} =
      unat (interval_sizes s ! 0) + (if Suc 0 = length (claimants s) then 1 else 0)" by blast
  then show ?thesis by (simp add: s_def)
qed

section \<open>When the builders fail\<close>

text \<open>
  C39. The builders reject exactly the bad configurations: \<open>from_uniform\<close> the empty and the
  ambiguous claimant list, \<open>from_sizes\<close> also a size of zero and a sum above \<open>u64::MAX\<close>.
\<close>

theorem slices_builders_total:
  "((\<exists>s. (from_uniform names :: 'w random_slices_error + _) = Inr s) \<longleftrightarrow> names \<noteq> [] \<and> distinct names)
   \<and> ((\<exists>s. (from_sizes sizes :: 'w random_slices_error + _) = Inr s) \<longleftrightarrow>
        sizes \<noteq> [] \<and> distinct (map fst sizes) \<and> 0 \<notin> snd ` set sizes
        \<and> (\<Sum>(_, z) \<leftarrow> sizes. unat z) \<le> U64_MAX)"
proof
  show "(\<exists>s. (from_uniform names :: 'w random_slices_error + _) = Inr s) \<longleftrightarrow> names \<noteq> [] \<and> distinct names"
  proof -
    have "distinct names \<longleftrightarrow> (check_unique names :: 'w random_slices_error + _) = Inr ()" by (simp add: check_unique_Inr)
    then show ?thesis
      by (cases "check_unique names :: 'w random_slices_error + _") (auto simp: from_uniform_def Let_def)
  qed
  have u: "(\<exists>used. (sizes_loop 0 0 sizes :: 'w random_slices_error + _) = Inr used) \<longleftrightarrow>
      0 \<notin> snd ` set sizes \<and> (sizes = [] \<or> (\<Sum>(_, z) \<leftarrow> sizes. unat z) \<le> U64_MAX)"
    by (auto simp: sizes_loop_Inr comp_def case_prod_unfold)
  show "(\<exists>s. (from_sizes sizes :: 'w random_slices_error + _) = Inr s) \<longleftrightarrow>
        sizes \<noteq> [] \<and> distinct (map fst sizes) \<and> 0 \<notin> snd ` set sizes
        \<and> (\<Sum>(_, z) \<leftarrow> sizes. unat z) \<le> U64_MAX" (is "?l \<longleftrightarrow> ?r")
  proof
    assume ?l
    then have "sizes \<noteq> []" "distinct (map fst sizes)" "\<exists>used. (sizes_loop 0 0 sizes :: 'w random_slices_error + _) = Inr used"
      by (auto simp: from_sizes_def check_unique_Inr split: if_splits sum.splits)
    then show ?r using u by blast
  next
    assume r: ?r
    then obtain used where "(sizes_loop 0 0 sizes :: 'w random_slices_error + _) = Inr used" using u by blast
    moreover have "(check_unique (map fst sizes) :: 'w random_slices_error + _) = Inr ()"
      using r by (simp add: check_unique_Inr)
    ultimately show ?l using r by (simp add: from_sizes_def Let_def)
  qed
qed

text \<open>
  When the first weight takes the whole range (the weights \<open>1.0\<close> and \<open>0.0\<close>: the share of the first
  is \<open>u64::MAX\<close>), the tail is given one value on top, and the table is refused as oversized.
\<close>

lemma from_weights_saturated:
  assumes "valid w1" "valid w2" "usable [w1, w2]" "share [w1, w2] 0 = - 1" "a \<noteq> b"
  shows "from_weights valid usable share [(a, w1), (b, w2)] = Inl (OversizedSizeSum (2 ^ 64))"
proof -
  have m1: "unat (- 1 :: u64) = U64_MAX" by (simp add: unsigned_minus_1_eq_mask mask_eq_exp_minus_1)
  have "weight_sizes (share [w1, w2]) 2 = [- 1, 1]"
    using assms(4) m1 by (simp add: weight_sizes_def)
  then show ?thesis
    using assms m1 by (simp add: from_weights_def check_unique_def promote_zeros_def from_sizes_def numeral_2_eq_2)
qed

text \<open>
  Growing a uniform table moves keys between claimants that were already there: a hash of the first
  half goes from the first of two claimants to the second of three.
\<close>

lemma uniform_growth_moves_keys:
  "from_uniform [[97], [98]] = Inr s \<Longrightarrow> from_uniform [[97], [98], [99]] = Inr t \<Longrightarrow>
     claimant_for s 0x6000000000000000 = Some [97] \<and> claimant_for t 0x6000000000000000 = Some [98]"
proof -
  have m1: "unat (- 1 :: u64) = U64_MAX" by (simp add: unsigned_minus_1_eq_mask mask_eq_exp_minus_1)
  assume s: "from_uniform [[97], [98]] = Inr s" and t: "from_uniform [[97], [98], [99]] = Inr t"
  have "lower_bounds s = [0, 0x7FFFFFFFFFFFFFFF] \<and> claimants s = [[97], [98]]"
    using s by (simp add: from_uniform_def check_unique_def build_lower_bounds_def saturating_add_def Let_def) auto
  moreover have "lower_bounds t = [0, 0x5555555555555555, 0xAAAAAAAAAAAAAAAA] \<and> claimants t = [[97], [98], [99]]"
    using t by (simp add: from_uniform_def check_unique_def build_lower_bounds_def saturating_add_def Let_def) auto
  ultimately show ?thesis
    by (simp add: claimant_for_def index_for_def slice_search.simps)
qed

end
