(* ===== verification/Ring.thy ===== *)
theory Ring
  imports Hashkit Random_Slicing
begin

text \<open>
  The cluster ring of \<open>crates/dynomite/src/cluster\<close>: racks and datacenters with their token
  continua (\<open>datacenter.rs\<close>), and the rebuild and lookup passes over them (\<open>vnode.rs\<close>).  Names are
  byte strings, ordered lexicographically as \<open>str\<close> is.
\<close>

section \<open>Racks\<close>

datatype rack_ring = RR_Continuum | RR_RandomSlicing random_slices

record continuum =
  c_token :: dyn_token
  c_peer_idx :: u32

record rack =
  rack_name :: bytes
  rack_dc :: bytes
  nserver_continuum :: u32
  ncontinuum :: u32
  continuums :: "continuum list"
  ring :: rack_ring

definition rack_new :: "bytes \<Rightarrow> bytes \<Rightarrow> rack" where
  "rack_new name dc =
     \<lparr>rack_name = name, rack_dc = dc, nserver_continuum = 0, ncontinuum = 0, continuums = [], ring = RR_Continuum\<rparr>"

fun add_peer_tokens :: "u32 \<Rightarrow> dyn_token list \<Rightarrow> rack \<Rightarrow> rack" where
  "add_peer_tokens peer_idx [] r = r"
| "add_peer_tokens peer_idx (t # ts) r =
     add_peer_tokens peer_idx ts
       (r\<lparr>continuums := continuums r @ [\<lparr>c_token = t, c_peer_idx = peer_idx\<rparr>],
          ncontinuum := saturating_add (ncontinuum r) 1,
          nserver_continuum := saturating_add (nserver_continuum r) 1\<rparr>)"

definition sort_continuums :: "rack \<Rightarrow> rack" where
  "sort_continuums r = r\<lparr>continuums := sort_by (\<lambda>a b. token_cmp (c_token a) (c_token b)) (continuums r)\<rparr>"

definition clear_continuums :: "rack \<Rightarrow> rack" where
  "clear_continuums r = r\<lparr>continuums := [], ncontinuum := 0, nserver_continuum := 0, ring := RR_Continuum\<rparr>"

definition set_random_slices :: "random_slices \<Rightarrow> rack \<Rightarrow> rack" where
  "set_random_slices s r = r\<lparr>ring := RR_RandomSlicing s\<rparr>"

definition is_random_slicing :: "rack \<Rightarrow> bool" where
  "is_random_slicing r = (case ring r of RR_RandomSlicing _ \<Rightarrow> True | RR_Continuum \<Rightarrow> False)"

definition rack_random_slices :: "rack \<Rightarrow> random_slices option" where
  "rack_random_slices r = (case ring r of RR_RandomSlicing s \<Rightarrow> Some s | RR_Continuum \<Rightarrow> None)"

section \<open>Datacenters\<close>

definition rack_order_key :: "bytes \<Rightarrow> u32 \<times> bytes" where
  "rack_order_key name = (get_int (hash Murmur3 name), name)"

record datacenter =
  dc_name :: bytes
  racks :: "rack list"
  preselected_rack_for_replication :: "nat option"

definition dc_new :: "bytes \<Rightarrow> datacenter" where
  "dc_new name = \<lparr>dc_name = name, racks = [], preselected_rack_for_replication = None\<rparr>"

definition dc_rack :: "datacenter \<Rightarrow> bytes \<Rightarrow> rack option" where
  "dc_rack dc name = find (\<lambda>r. rack_name r = name) (racks dc)"

definition rack_idx :: "datacenter \<Rightarrow> bytes \<Rightarrow> nat option" where
  "rack_idx dc name = position (\<lambda>r. rack_name r = name) (racks dc)"

text \<open>The updated datacenter and the index of the rack the handle points to.\<close>

definition upsert_rack :: "bytes \<Rightarrow> datacenter \<Rightarrow> datacenter \<times> nat" where
  "upsert_rack name dc =
     (case rack_idx dc name of
        Some idx \<Rightarrow> (dc, idx)
      | None \<Rightarrow>
          (let rs = racks dc @ [rack_new name (dc_name dc)]
           in (dc\<lparr>racks := rs\<rparr>, length rs - 1)))"

definition sort_racks :: "datacenter \<Rightarrow> datacenter" where
  "sort_racks dc =
     dc\<lparr>racks := sort_by (\<lambda>a b.
          let (ha, na) = rack_order_key (rack_name a); (hb, nb) = rack_order_key (rack_name b)
          in then_with (compare_of ha hb) (compare_of na nb)) (racks dc)\<rparr>"

definition preselected_rack :: "datacenter \<Rightarrow> rack option" where
  "preselected_rack dc =
     (case preselected_rack_for_replication dc of
        None \<Rightarrow> None
      | Some i \<Rightarrow> if i < length (racks dc) then Some (racks dc ! i) else None)"

definition set_preselected_rack_idx :: "nat option \<Rightarrow> datacenter \<Rightarrow> datacenter" where
  "set_preselected_rack_idx idx dc = dc\<lparr>preselected_rack_for_replication := idx\<rparr>"

section \<open>Lookup and rebuild\<close>

function dispatch_search :: "continuum list \<Rightarrow> dyn_token \<Rightarrow> nat \<Rightarrow> nat \<Rightarrow> u32" where
  "dispatch_search cs token left right =
     (if left < right then
        (let middle = left + (right - left) div 2 in
         case token_cmp (c_token (cs ! middle)) token of
           Equal \<Rightarrow> c_peer_idx (cs ! middle)
         | Less \<Rightarrow> dispatch_search cs token (middle + 1) right
         | Greater \<Rightarrow> dispatch_search cs token left middle)
      else c_peer_idx (cs ! right))"
  by auto
termination
  by (relation "measure (\<lambda>(_, _, l, r). r - l)") (auto simp: Let_def)

declare dispatch_search.simps [simp del]

definition dispatch :: "continuum list \<Rightarrow> dyn_token \<Rightarrow> u32 option" where
  "dispatch cs token =
     (let n = length cs in
      if n = 0 then None
      else
        let first = cs ! 0; last = cs ! (n - 1)
        in if token_cmp (c_token last) token = Less then Some (c_peer_idx first)
           else if token_cmp (c_token first) token \<noteq> Less then Some (c_peer_idx first)
           else Some (dispatch_search cs token 0 (n - 1)))"

record peer_tokens =
  pt_peer_idx :: u32
  pt_dc :: bytes
  pt_rack :: bytes
  pt_tokens :: "dyn_token list"

definition update_rack :: "nat \<Rightarrow> nat \<Rightarrow> (rack \<Rightarrow> rack) \<Rightarrow> datacenter list \<Rightarrow> datacenter list" where
  "update_rack di ri f dcs = dcs[di := (dcs ! di)\<lparr>racks := (racks (dcs ! di))[ri := f (racks (dcs ! di) ! ri)]\<rparr>]"

definition locate :: "datacenter list \<Rightarrow> peer_tokens \<Rightarrow> (nat \<times> nat) option" where
  "locate dcs peer =
     (case position (\<lambda>d. dc_name d = pt_dc peer) dcs of
        None \<Rightarrow> None
      | Some di \<Rightarrow> map_option (Pair di) (rack_idx (dcs ! di) (pt_rack peer)))"

fun rebuild_loop ::
  "peer_tokens list \<Rightarrow> datacenter list \<Rightarrow> nat \<Rightarrow> (nat \<times> nat) list \<Rightarrow> datacenter list \<times> nat \<times> (nat \<times> nat) list"
where
  "rebuild_loop [] dcs applied touched = (dcs, applied, touched)"
| "rebuild_loop (peer # peers) dcs applied touched =
     (case locate dcs peer of
        None \<Rightarrow> rebuild_loop peers dcs applied touched
      | Some (di, ri) \<Rightarrow>
          rebuild_loop peers (update_rack di ri (add_peer_tokens (pt_peer_idx peer) (pt_tokens peer)) dcs)
            (applied + 1) (if (di, ri) \<in> set touched then touched else touched @ [(di, ri)]))"

definition rebuild_continuums :: "peer_tokens list \<Rightarrow> datacenter list \<Rightarrow> datacenter list \<times> nat" where
  "rebuild_continuums peers dcs =
     (let dcs = map (\<lambda>dc. dc\<lparr>racks := map clear_continuums (racks dc)\<rparr>) dcs;
          (dcs, applied, touched) = rebuild_loop peers dcs 0 [];
          dcs = fold (\<lambda>(di, ri). update_rack di ri sort_continuums) touched dcs
      in (dcs, applied))"

section \<open>The owner of a token\<close>

lemma dispatch_search_owner:
  assumes "\<forall>c \<in> set cs. token_ok (c_token c)" and "token_ok t"
    and "sorted (map (token_key \<circ> c_token) cs)"
    and "l \<le> r" and "r < length cs"
    and "\<forall>j < l. token_key (c_token (cs ! j)) < token_key t" and "token_key t \<le> token_key (c_token (cs ! r))"
  shows "\<exists>i < length cs. dispatch_search cs t l r = c_peer_idx (cs ! i) \<and> token_key t \<le> token_key (c_token (cs ! i))
    \<and> (\<forall>c \<in> set cs. token_key t \<le> token_key (c_token c) \<longrightarrow> token_key (c_token (cs ! i)) \<le> token_key (c_token c))"
  using assms
proof (induction cs t l r rule: dispatch_search.induct)
  case (1 cs t l r)
  let ?k = "\<lambda>i. token_key (c_token (cs ! i))"
  have mono: "i \<le> j \<Longrightarrow> j < length cs \<Longrightarrow> ?k i \<le> ?k j" for i j
    using sorted_nth_mono [OF 1(5), of i j] by simp
  show ?case
  proof (cases "l < r")
    case False
    then have "l = r" using 1(6) by simp
    have "dispatch_search cs t l r = c_peer_idx (cs ! r)" by (subst dispatch_search.simps) (simp only: False if_False)
    moreover have "?k r \<le> token_key (c_token c)" if c: "c \<in> set cs" "token_key t \<le> token_key (c_token c)" for c
    proof -
      obtain j where j: "j < length cs" "c = cs ! j" using c(1) by (metis in_set_conv_nth)
      then have "\<not> j < l" using 1(8) c(2) by (metis not_less)
      then show ?thesis using mono [of r j] j \<open>l = r\<close> by simp
    qed
    ultimately show ?thesis using 1(7,9) by (intro exI [of _ r]) simp
  next
    case True
    define m where "m = l + (r - l) div 2"
    have m: "l \<le> m" "m < r" "m < length cs" using True 1(7) by (auto simp: m_def)
    have cmp: "token_cmp (c_token (cs ! m)) t = compare_of (?k m) (token_key t)"
      using 1(3,4) m(3) by (simp add: token_cmp_key)
    note eq = trans [OF dispatch_search.simps [of cs t l r], unfolded Let_def m_def [symmetric] if_P [OF True]]
    show ?thesis
    proof (cases "token_cmp (c_token (cs ! m)) t")
      case Less
      then have e: "dispatch_search cs t l r = dispatch_search cs t (m + 1) r" by (intro eq) simp
      have "?k m < token_key t" using Less cmp by simp
      then have "\<forall>j < m + 1. ?k j < token_key t"
        using mono [OF _ m(3)] by (metis Suc_eq_plus1 le_less_trans less_Suc_eq_le)
      moreover have "m + 1 \<le> r" using m by simp
      ultimately show ?thesis unfolding e using 1(1) [OF True m_def Less 1(3-5) _ 1(7) _ 1(9)] by blast
    next
      case Equal
      then have "dispatch_search cs t l r = c_peer_idx (cs ! m)" by (intro eq) simp
      moreover have "?k m = token_key t" using Equal cmp by simp
      ultimately show ?thesis using m(3) by (intro exI [of _ m]) simp
    next
      case Greater
      then have e: "dispatch_search cs t l r = dispatch_search cs t l m" by (intro eq) simp
      have "token_key t \<le> ?k m" using Greater cmp by simp
      from 1(2) [OF True m_def Greater 1(3-5) m(1) m(3) 1(8) this] show ?thesis unfolding e .
    qed
  qed
qed

text \<open>
  C21. On a sorted continuum the lookup returns the owner of the token: the peer of an entry whose
  token is the least one not below the searched token, and of the first entry when all tokens are
  below it; it fails only on the empty continuum.
\<close>

theorem vnode_dispatch_owner:
  assumes "\<forall>c \<in> set cs. token_ok (c_token c)" and "token_ok t"
    and "sorted (map (token_key \<circ> c_token) cs)" and "cs \<noteq> []"
  shows "\<exists>i < length cs. dispatch cs t = Some (c_peer_idx (cs ! i))
    \<and> ((\<forall>c \<in> set cs. token_cmp (c_token c) t = Less) \<longrightarrow> i = 0)
    \<and> ((\<exists>c \<in> set cs. token_cmp (c_token c) t \<noteq> Less) \<longrightarrow>
         token_cmp (c_token (cs ! i)) t \<noteq> Less
         \<and> (\<forall>c \<in> set cs. token_cmp (c_token c) t \<noteq> Less \<longrightarrow> token_cmp (c_token c) (c_token (cs ! i)) \<noteq> Less))"
proof -
  let ?k = "\<lambda>i. token_key (c_token (cs ! i))"
  have n: "0 < length cs" "length cs - 1 < length cs" using assms(4) by auto
  have mono: "i \<le> j \<Longrightarrow> j < length cs \<Longrightarrow> ?k i \<le> ?k j" for i j
    using sorted_nth_mono [OF assms(3), of i j] by simp
  have less: "token_cmp (c_token c) t = Less \<longleftrightarrow> token_key (c_token c) < token_key t" if "c \<in> set cs" for c
    using assms(1,2) that by (simp add: tok.cmp_Less)
  have less2: "token_cmp (c_token c) (c_token d) = Less \<longleftrightarrow> token_key (c_token c) < token_key (c_token d)"
    if "c \<in> set cs" "d \<in> set cs" for c d using assms(1) that by (simp add: tok.cmp_Less)
  consider (all) "?k (length cs - 1) < token_key t" | (first) "token_key t \<le> ?k 0"
    | (mid) "token_key t \<le> ?k (length cs - 1)" "?k 0 < token_key t" by (metis not_le)
  then show ?thesis
  proof cases
    case all
    have "token_key (c_token c) < token_key t" if c: "c \<in> set cs" for c
    proof -
      obtain j where "j < length cs" "c = cs ! j" using c by (metis in_set_conv_nth)
      with mono [of j "length cs - 1"] n have "token_key (c_token c) \<le> ?k (length cs - 1)" by simp
      with all show ?thesis by (rule le_less_trans [rotated])
    qed
    then show ?thesis using n all less
      by (intro exI [of _ 0]) (auto simp: dispatch_def Let_def)
  next
    case first
    have "?k 0 \<le> token_key (c_token c)" if "c \<in> set cs" for c
      using that mono [of 0] by (auto simp: in_set_conv_nth)
    moreover have "dispatch cs t = Some (c_peer_idx (cs ! 0))" using n first less by (simp add: dispatch_def Let_def)
    ultimately show ?thesis using n first less less2 by (intro exI [of _ 0]) (auto simp: not_less)
  next
    case mid
    from dispatch_search_owner [OF assms(1-3) le0 n(2) _ mid(1)] obtain i where
      i: "i < length cs" "dispatch_search cs t 0 (length cs - 1) = c_peer_idx (cs ! i)" "token_key t \<le> ?k i"
      "\<forall>c \<in> set cs. token_key t \<le> token_key (c_token c) \<longrightarrow> ?k i \<le> token_key (c_token c)" by auto
    moreover have "dispatch cs t = Some (c_peer_idx (cs ! i))"
      using n mid less i(2) by (auto simp: dispatch_def Let_def)
    moreover have "\<not> (\<forall>c \<in> set cs. token_cmp (c_token c) t = Less)" using i(1,3) less [of "cs ! i"] by auto
    ultimately show ?thesis using less less2 by (intro exI [of _ i]) (auto simp: not_less)
  qed
qed

theorem vnode_dispatch_owner_witness:
  "\<exists>i < Suc (Suc 0). dispatch [\<lparr>c_token = from_u32 10, c_peer_idx = 4\<rparr>, \<lparr>c_token = from_u32 20, c_peer_idx = 7\<rparr>] (from_u32 15)
     = Some (c_peer_idx ([\<lparr>c_token = from_u32 10, c_peer_idx = 4\<rparr>, \<lparr>c_token = from_u32 20, c_peer_idx = 7\<rparr>] ! i))"
proof -
  let ?cs = "[\<lparr>c_token = from_u32 10, c_peer_idx = 4\<rparr>, \<lparr>c_token = from_u32 20, c_peer_idx = 7\<rparr>] :: continuum list"
  have "token_cmp (from_u32 20) (from_u32 10) \<noteq> Less" by (simp add: from_u32_cmp)
  then have "sorted (map (token_key \<circ> c_token) ?cs)" by (simp add: tok.cmp_Less not_less)
  then have "\<exists>i < length ?cs. dispatch ?cs (from_u32 15) = Some (c_peer_idx (?cs ! i))"
    using vnode_dispatch_owner [of ?cs "from_u32 15"] by auto
  then show ?thesis by simp
qed

section \<open>The rebuild\<close>

definition shape :: "datacenter list \<Rightarrow> (bytes \<times> bytes list) list" where
  "shape dcs = map (\<lambda>d. (dc_name d, map rack_name (racks d))) dcs"

definition names_ok :: "datacenter list \<Rightarrow> bool" where
  "names_ok dcs \<longleftrightarrow> distinct (map fst (shape dcs)) \<and> (\<forall>x \<in> set (shape dcs). distinct (snd x))"

abbreviation rack_at :: "datacenter list \<Rightarrow> nat \<Rightarrow> nat \<Rightarrow> rack" where
  "rack_at dcs di ri \<equiv> racks (dcs ! di) ! ri"

definition has_rack :: "datacenter list \<Rightarrow> nat \<Rightarrow> nat \<Rightarrow> bool" where
  "has_rack dcs di ri \<longleftrightarrow> di < length (shape dcs) \<and> ri < length (snd (shape dcs ! di))"

definition peer_points :: "peer_tokens \<Rightarrow> continuum list" where
  "peer_points p = map (\<lambda>t. \<lparr>c_token = t, c_peer_idx = pt_peer_idx p\<rparr>) (pt_tokens p)"

lemma position_map: "position P (map f xs) = position (P \<circ> f) xs"
  by (induction xs) auto

lemma position_distinct:
  assumes "distinct (map f xs)"
  shows "position (\<lambda>x. f x = v) xs = Some i \<longleftrightarrow> i < length xs \<and> f (xs ! i) = v"
proof
  assume "position (\<lambda>x. f x = v) xs = Some i"
  from position_Some [OF this] show "i < length xs \<and> f (xs ! i) = v" by simp
next
  assume i: "i < length xs \<and> f (xs ! i) = v"
  show "position (\<lambda>x. f x = v) xs = Some i"
  proof (cases "position (\<lambda>x. f x = v) xs")
    case None
    with i show ?thesis by (auto simp: position_None)
  next
    case (Some k)
    from position_Some [OF this] i have "k < length xs" "map f xs ! k = map f xs ! i" by simp_all
    with i assms have "k = i" by (metis length_map nth_eq_iff_index_eq)
    with Some show ?thesis by simp
  qed
qed

lemma locate_shape:
  "locate dcs p = (case position (\<lambda>x. fst x = pt_dc p) (shape dcs) of
      None \<Rightarrow> None | Some di \<Rightarrow> map_option (Pair di) (position (\<lambda>n. n = pt_rack p) (snd (shape dcs ! di))))"
  by (auto simp: locate_def rack_idx_def shape_def position_map comp_def dest!: position_Some split: option.splits)

lemma locate_iff:
  assumes "names_ok dcs"
  shows "locate dcs p = Some (di, ri) \<longleftrightarrow>
     has_rack dcs di ri \<and> pt_dc p = fst (shape dcs ! di) \<and> pt_rack p = snd (shape dcs ! di) ! ri"
proof -
  have d: "position (\<lambda>x. fst x = v) (shape dcs) = Some i \<longleftrightarrow> i < length (shape dcs) \<and> fst (shape dcs ! i) = v" for v i
    using assms by (intro position_distinct) (simp add: names_ok_def)
  have r: "position (\<lambda>n. n = v) (snd (shape dcs ! di)) = Some i \<longleftrightarrow>
      i < length (snd (shape dcs ! di)) \<and> snd (shape dcs ! di) ! i = v" if "di < length (shape dcs)" for v i
    using assms that position_distinct [of "\<lambda>x. x" "snd (shape dcs ! di)" v i] by (simp add: names_ok_def)
  show ?thesis
  proof
    assume "locate dcs p = Some (di, ri)"
    then show "has_rack dcs di ri \<and> pt_dc p = fst (shape dcs ! di) \<and> pt_rack p = snd (shape dcs ! di) ! ri"
      unfolding locate_shape has_rack_def by (auto simp: d r split: option.splits)
  next
    assume a: "has_rack dcs di ri \<and> pt_dc p = fst (shape dcs ! di) \<and> pt_rack p = snd (shape dcs ! di) ! ri"
    then have "position (\<lambda>x. fst x = pt_dc p) (shape dcs) = Some di"
      and "position (\<lambda>n. n = pt_rack p) (snd (shape dcs ! di)) = Some ri"
      by (simp_all add: d r has_rack_def)
    then show "locate dcs p = Some (di, ri)" by (simp add: locate_shape)
  qed
qed

lemma shape_nth: "di < length dcs \<Longrightarrow> shape dcs ! di = (dc_name (dcs ! di), map rack_name (racks (dcs ! di)))"
  by (simp add: shape_def)

lemma has_rack_iff: "has_rack dcs di ri \<longleftrightarrow> di < length dcs \<and> ri < length (racks (dcs ! di))"
  by (auto simp: has_rack_def shape_def)

lemma update_rack_shape:
  assumes "\<And>r. rack_name (f r) = rack_name r"
  shows "shape (update_rack di ri f dcs) = shape dcs"
proof (rule nth_equalityI)
  fix i assume "i < length (shape (update_rack di ri f dcs))"
  then have i: "i < length dcs" by (simp add: shape_def update_rack_def)
  have "map rack_name ((racks (dcs ! di))[ri := f (racks (dcs ! di) ! ri)]) = map rack_name (racks (dcs ! di))"
  proof (rule nth_equalityI)
    fix k assume "k < length (map rack_name ((racks (dcs ! di))[ri := f (racks (dcs ! di) ! ri)]))"
    then show "map rack_name ((racks (dcs ! di))[ri := f (racks (dcs ! di) ! ri)]) ! k = map rack_name (racks (dcs ! di)) ! k"
      by (cases "k = ri") (simp_all add: assms)
  qed simp
  with i show "shape (update_rack di ri f dcs) ! i = shape dcs ! i"
    by (cases "i = di") (simp_all add: shape_def update_rack_def)
qed (simp add: shape_def update_rack_def)

lemma rack_at_update:
  assumes "has_rack dcs di ri"
  shows "rack_at (update_rack di ri f dcs) a b = (if a = di \<and> b = ri then f (rack_at dcs di ri) else rack_at dcs a b)"
  using assms by (auto simp: update_rack_def has_rack_iff nth_list_update)

lemma add_peer_tokens_points:
  "continuums (add_peer_tokens i ts r) = continuums r @ map (\<lambda>t. \<lparr>c_token = t, c_peer_idx = i\<rparr>) ts"
  "rack_name (add_peer_tokens i ts r) = rack_name r"
  by (induction i ts r rule: add_peer_tokens.induct) simp_all

lemma rebuild_loop_correct:
  assumes "rebuild_loop peers dcs applied touched = (dcs', applied', touched')" and "names_ok dcs"
  shows "shape dcs' = shape dcs \<and> applied' = applied + length (filter (\<lambda>p. locate dcs p \<noteq> None) peers)
    \<and> set touched' = set touched \<union> {x. \<exists>p \<in> set peers. locate dcs p = Some x}
    \<and> (\<forall>a b. continuums (rack_at dcs' a b) =
         continuums (rack_at dcs a b) @ concat (map peer_points (filter (\<lambda>p. locate dcs p = Some (a, b)) peers)))"
  using assms
proof (induction peers arbitrary: dcs applied touched)
  case (Cons p peers)
  show ?case
  proof (cases "locate dcs p")
    case None
    with Cons.prems have "rebuild_loop peers dcs applied touched = (dcs', applied', touched')" by simp
    from Cons.IH [OF this Cons.prems(2)] None show ?thesis by auto
  next
    case (Some x)
    obtain di ri where x: "x = (di, ri)" by (cases x)
    let ?dcs = "update_rack di ri (add_peer_tokens (pt_peer_idx p) (pt_tokens p)) dcs"
    have sh: "shape ?dcs = shape dcs" by (rule update_rack_shape) (rule add_peer_tokens_points)
    then have ok: "names_ok ?dcs" using Cons.prems(2) by (simp add: names_ok_def)
    have loc: "locate ?dcs q = locate dcs q" for q unfolding locate_shape sh by (rule refl)
    have has: "has_rack dcs di ri" using Some x Cons.prems(2) by (simp add: locate_iff)
    have "rebuild_loop peers ?dcs (applied + 1) (if (di, ri) \<in> set touched then touched else touched @ [(di, ri)])
        = (dcs', applied', touched')" using Cons.prems(1) Some x by simp
    note ih = Cons.IH [OF this ok, unfolded loc sh]
    have "continuums (rack_at ?dcs a b) = continuums (rack_at dcs a b) @ (if locate dcs p = Some (a, b) then peer_points p else [])" for a b
      using Some x by (auto simp: rack_at_update [OF has] add_peer_tokens_points peer_points_def)
    with ih Some x show ?thesis by auto
  qed
qed simp

lemma sort_continuums_key:
  assumes "\<forall>c \<in> set (continuums r). token_ok (c_token c)"
  shows "continuums (sort_continuums r) = sort_key (token_key \<circ> c_token) (continuums r)"
  using tok.sort_by_cmp [of "continuums r" c_token] assms by (simp add: sort_continuums_def)

lemma sort_touched:
  assumes "\<forall>(di, ri) \<in> set touched. has_rack dcs di ri"
    and "\<forall>a b. has_rack dcs a b \<longrightarrow> (\<forall>c \<in> set (continuums (rack_at dcs a b)). token_ok (c_token c))"
  shows "shape (fold (\<lambda>(di, ri). update_rack di ri sort_continuums) touched dcs) = shape dcs
    \<and> (has_rack dcs a b \<longrightarrow>
       continuums (rack_at (fold (\<lambda>(di, ri). update_rack di ri sort_continuums) touched dcs) a b) =
         (if (a, b) \<in> set touched then sort_key (token_key \<circ> c_token) (continuums (rack_at dcs a b))
          else continuums (rack_at dcs a b)))"
  using assms
proof (induction touched arbitrary: dcs)
  case (Cons x touched)
  obtain di ri where x: "x = (di, ri)" by (cases x)
  let ?dcs = "update_rack di ri sort_continuums dcs"
  have has: "has_rack dcs di ri" using Cons.prems(1) x by simp
  have sh: "shape ?dcs = shape dcs" by (rule update_rack_shape) (simp add: sort_continuums_def)
  then have same: "has_rack ?dcs a b = has_rack dcs a b" for a b by (simp add: has_rack_def)
  have one: "continuums (rack_at ?dcs a b) =
      (if a = di \<and> b = ri then sort_key (token_key \<circ> c_token) (continuums (rack_at dcs a b)) else continuums (rack_at dcs a b))" for a b
    using Cons.prems(2) has by (simp add: rack_at_update [OF has] sort_continuums_key)
  then have "\<forall>a b. has_rack ?dcs a b \<longrightarrow> (\<forall>c \<in> set (continuums (rack_at ?dcs a b)). token_ok (c_token c))"
    using Cons.prems(2) by (simp add: same)
  moreover have "\<forall>(di, ri) \<in> set touched. has_rack ?dcs di ri" using Cons.prems(1) by (simp add: same)
  ultimately show ?case using Cons.IH [of ?dcs] one sh x by (auto simp: sort_key_id_if_sorted same)
qed simp

lemma dispatch_search_member:
  "l \<le> r \<Longrightarrow> r < length cs \<Longrightarrow> dispatch_search cs t l r \<in> c_peer_idx ` set cs"
proof (induction cs t l r rule: dispatch_search.induct)
  case (1 cs t l r)
  define m where "m = l + (r - l) div 2"
  have m: "l \<le> m" "l < r \<Longrightarrow> m < r" by (simp_all add: m_def)
  show ?case
    using 1 m by (subst dispatch_search.simps)
      (auto simp: Let_def simp flip: m_def split: ordering.splits)
qed

lemma dispatch_member: "dispatch cs t = Some i \<Longrightarrow> i \<in> c_peer_idx ` set cs"
  using dispatch_search_member [of 0 "length cs - 1" cs t] nth_mem [of 0 cs]
  by (auto simp: dispatch_def Let_def simp del: nth_mem split: if_splits)

lemma rebuild_points:
  assumes "names_ok dcs" and "\<forall>p \<in> set peers. \<forall>t \<in> set (pt_tokens p). token_ok t"
    and "rebuild_continuums peers dcs = (dcs', applied)"
    and "has_rack dcs di ri"
  shows "shape dcs' = shape dcs
    \<and> applied = length (filter (\<lambda>p. locate dcs p \<noteq> None) peers)
    \<and> continuums (rack_at dcs' di ri) = sort_key (token_key \<circ> c_token)
        (concat (map peer_points (filter (\<lambda>p. pt_dc p = dc_name (dcs ! di) \<and> pt_rack p = rack_name (rack_at dcs di ri)) peers)))"
proof -
  let ?c = "map (\<lambda>dc. dc\<lparr>racks := map clear_continuums (racks dc)\<rparr>) dcs"
  have sh: "shape ?c = shape dcs" by (simp add: shape_def clear_continuums_def comp_def)
  then have ok: "names_ok ?c" and same: "has_rack ?c a b = has_rack dcs a b" for a b
    using assms(1) by (simp_all add: names_ok_def has_rack_def)
  have loc: "locate ?c p = locate dcs p" for p unfolding locate_shape sh by (rule refl)
  obtain d n touched where loop: "rebuild_loop peers ?c 0 [] = (d, n, touched)" by (cases "rebuild_loop peers ?c 0 []")
  note l = rebuild_loop_correct [OF loop ok, unfolded loc sh]
  have fin: "dcs' = fold (\<lambda>(di, ri). update_rack di ri sort_continuums) touched d" "applied = n"
    using assms(3) loop by (auto simp: rebuild_continuums_def Let_def)
  have empty: "continuums (rack_at ?c a b) = []" if "has_rack dcs a b" for a b
    using that by (simp add: has_rack_iff clear_continuums_def)
  have same_d: "has_rack d a b = has_rack dcs a b" for a b using l by (simp add: has_rack_def)
  have pts: "continuums (rack_at d a b) = concat (map peer_points (filter (\<lambda>p. locate dcs p = Some (a, b)) peers))"
    if "has_rack dcs a b" for a b using l empty [OF that] by simp
  have "\<forall>(a, b) \<in> set touched. has_rack d a b" using l by (auto simp: same_d locate_iff [OF assms(1)])
  moreover have "\<forall>a b. has_rack d a b \<longrightarrow> (\<forall>c \<in> set (continuums (rack_at d a b)). token_ok (c_token c))"
    using assms(2) by (auto simp: same_d pts peer_points_def)
  ultimately have st: "shape dcs' = shape d" "continuums (rack_at dcs' di ri) =
      (if (di, ri) \<in> set touched then sort_key (token_key \<circ> c_token) (continuums (rack_at d di ri))
       else continuums (rack_at d di ri))"
    using sort_touched [of touched d di ri] assms(4) by (simp_all add: fin same_d)
  have own: "locate dcs p = Some (di, ri) \<longleftrightarrow> pt_dc p = dc_name (dcs ! di) \<and> pt_rack p = rack_name (rack_at dcs di ri)" for p
    using assms(4) by (auto simp: locate_iff [OF assms(1)] has_rack_iff shape_nth)
  have "filter (\<lambda>p. locate dcs p = Some (di, ri)) peers = []" if "(di, ri) \<notin> set touched"
    using that l by (auto simp: filter_empty_conv)
  then have "continuums (rack_at d di ri) = []" if "(di, ri) \<notin> set touched"
    using that by (simp add: pts [OF assms(4)])
  then have "continuums (rack_at dcs' di ri) = sort_key (token_key \<circ> c_token) (continuums (rack_at d di ri))"
    using st(2) by (cases "(di, ri) \<in> set touched") simp_all
  then have res: "continuums (rack_at dcs' di ri) = sort_key (token_key \<circ> c_token)
        (concat (map peer_points (filter (\<lambda>p. pt_dc p = dc_name (dcs ! di) \<and> pt_rack p = rack_name (rack_at dcs di ri)) peers)))"
    by (simp only: pts [OF assms(4)] own)
  show ?thesis using l fin(2) st(1) res by simp
qed

text \<open>
  C8. Rebuilding the ring gives every rack exactly the points of its own peers, sorted by token:
  whatever the racks held before, afterwards a rack's continuum is the token-sorted list of the
  tokens of the peers that name this datacenter and rack; the number returned is the number of
  peers that name an existing rack, names and order of racks are unchanged, and a lookup in a rack
  only ever returns a peer of that rack.
\<close>

theorem ring_rebuild:
  assumes "names_ok dcs" and "\<forall>p \<in> set peers. \<forall>t \<in> set (pt_tokens p). token_ok t"
    and "rebuild_continuums peers dcs = (dcs', applied)"
    and "has_rack dcs di ri"
  shows "shape dcs' = shape dcs
    \<and> applied = length (filter (\<lambda>p. locate dcs p \<noteq> None) peers)
    \<and> continuums (rack_at dcs' di ri) = sort_key (token_key \<circ> c_token)
        (concat (map peer_points (filter (\<lambda>p. pt_dc p = dc_name (dcs ! di) \<and> pt_rack p = rack_name (rack_at dcs di ri)) peers)))
    \<and> (dispatch (continuums (rack_at dcs' di ri)) token = Some i \<longrightarrow>
        (\<exists>p \<in> set peers. pt_peer_idx p = i \<and> pt_dc p = dc_name (dcs ! di) \<and> pt_rack p = rack_name (rack_at dcs di ri)))"
proof -
  note res = rebuild_points [OF assms]
  have "\<exists>p \<in> set peers. pt_peer_idx p = i \<and> pt_dc p = dc_name (dcs ! di) \<and> pt_rack p = rack_name (rack_at dcs di ri)"
    if "dispatch (continuums (rack_at dcs' di ri)) token = Some i"
  proof -
    from dispatch_member [OF that] have "i \<in> c_peer_idx ` set (continuums (rack_at dcs' di ri))" .
    then show ?thesis unfolding res [THEN conjunct2, THEN conjunct2] by (auto simp: peer_points_def)
  qed
  with res show ?thesis by blast
qed

theorem ring_rebuild_witness:
  "\<exists>dcs' applied. rebuild_continuums [\<lparr>pt_peer_idx = 3, pt_dc = [100], pt_rack = [114], pt_tokens = [from_u32 7]\<rparr>]
       [fst (upsert_rack [114] (dc_new [100]))] = (dcs', applied)
     \<and> continuums (rack_at dcs' 0 0) = [\<lparr>c_token = from_u32 7, c_peer_idx = 3\<rparr>]"
proof -
  let ?p = "\<lparr>pt_peer_idx = 3, pt_dc = [100], pt_rack = [114], pt_tokens = [from_u32 7]\<rparr> :: peer_tokens"
  let ?dcs = "[fst (upsert_rack [114] (dc_new [100]))]"
  obtain dcs' applied where r: "rebuild_continuums [?p] ?dcs = (dcs', applied)"
    by (cases "rebuild_continuums [?p] ?dcs")
  define dcs where "dcs = ?dcs"
  have d: "dcs = [\<lparr>dc_name = [100], racks = [rack_new [114] [100]], preselected_rack_for_replication = None\<rparr>]"
    by (simp add: dcs_def upsert_rack_def rack_idx_def dc_new_def)
  have ok: "names_ok dcs" "has_rack dcs 0 0" "\<forall>p \<in> set [?p]. \<forall>t \<in> set (pt_tokens p). token_ok t"
    by (simp_all add: d names_ok_def has_rack_def shape_def)
  have "continuums (rack_at dcs' 0 0) = sort_key (token_key \<circ> c_token)
        (concat (map peer_points (filter (\<lambda>p. pt_dc p = dc_name (dcs ! 0) \<and> pt_rack p = rack_name (rack_at dcs 0 0)) [?p])))"
    by (rule ring_rebuild [OF ok(1,3) r [folded dcs_def] ok(2), THEN conjunct2, THEN conjunct2, THEN conjunct1])
  also have "\<dots> = [\<lparr>c_token = from_u32 7, c_peer_idx = 3\<rparr>]"
    by (simp add: d rack_new_def peer_points_def)
  finally show ?thesis using r by (intro exI conjI)
qed

end
