(* ===== verification/Coverage.thy ===== *)
theory Coverage
  imports Ring BTree
begin

text \<open>
  The token-coverage validator of \<open>crates/dynomite/src/cluster/coverage.rs\<close>, which runs on a
  configuration before the ring is built.  A peer is given by its index, its datacenter and rack, and
  its tokens.  The lemmas say which configurations pass, and that a ring rebuilt from one that passes
  routes every key.
\<close>

datatype token_coverage_error =
    EmptyRack bytes bytes
  | Overlap bytes bytes u32 u32 u32

definition by_rack :: "peer_tokens list \<Rightarrow> (bytes \<times> bytes, peer_tokens list) btmap" where
  "by_rack peers = fold (\<lambda>p. bt_entry (pt_dc p, pt_rack p) [] (\<lambda>v. v @ [p])) peers []"

definition tokens_of :: "peer_tokens list \<Rightarrow> (u32 \<times> u32) list" where
  "tokens_of ps = concat (map (\<lambda>p. map (\<lambda>t. (get_int t, pt_peer_idx p)) (pt_tokens p)) ps)"

text \<open>The first pair of neighbours with one token, as the loop over \<open>windows(2)\<close> finds it.\<close>

fun first_overlap :: "(u32 \<times> u32) list \<Rightarrow> (u32 \<times> u32 \<times> u32) option" where
  "first_overlap (x # y # xs) =
     (if fst x = fst y then Some (fst x, snd x, snd y) else first_overlap (y # xs))"
| "first_overlap _ = None"

definition check_rack :: "(bytes \<times> bytes) \<times> peer_tokens list \<Rightarrow> token_coverage_error option" where
  "check_rack = (\<lambda>((dc, rack), ps).
     let tokens = tokens_of ps in
     if tokens = [] then Some (EmptyRack dc rack)
     else map_option (\<lambda>(t, a, b). Overlap dc rack t a b) (first_overlap (sort_key fst tokens)))"

fun check_racks :: "((bytes \<times> bytes) \<times> peer_tokens list) list \<Rightarrow> token_coverage_error + unit" where
  "check_racks [] = Inr ()"
| "check_racks (r # rs) = (case check_rack r of Some e \<Rightarrow> Inl e | None \<Rightarrow> check_racks rs)"

definition validate_token_coverage :: "peer_tokens list \<Rightarrow> token_coverage_error + unit" where
  "validate_token_coverage peers = check_racks (by_rack peers)"

section \<open>What passes\<close>

definition rack_key :: "peer_tokens \<Rightarrow> bytes \<times> bytes" where
  "rack_key p = (pt_dc p, pt_rack p)"

definition rack_peers :: "peer_tokens list \<Rightarrow> bytes \<times> bytes \<Rightarrow> peer_tokens list" where
  "rack_peers peers k = filter (\<lambda>p. rack_key p = k) peers"

lemma rack_peers_simps [simp]:
  "rack_peers [] k = []"
  "rack_peers (p # ps) k = (if rack_key p = k then p # rack_peers ps k else rack_peers ps k)"
  by (simp_all add: rack_peers_def)

lemma set_rack_peers: "set (rack_peers peers k) = {p \<in> set peers. rack_key p = k}"
  by (simp add: rack_peers_def)

lemma rack_peers_Nil: "rack_peers peers k = [] \<longleftrightarrow> k \<notin> rack_key ` set peers"
  by (auto simp: rack_peers_def filter_empty_conv)

lemma by_rack_fold:
  fixes m :: "(bytes \<times> bytes, peer_tokens list) btmap"
  assumes "bt_sorted m"
  shows "bt_sorted (fold (\<lambda>p. bt_entry (rack_key p) [] (\<lambda>v. v @ [p])) peers m)
    \<and> (\<forall>k. map_of (fold (\<lambda>p. bt_entry (rack_key p) [] (\<lambda>v. v @ [p])) peers m) k =
        (if map_of m k = None \<and> rack_peers peers k = [] then None
         else Some (bt_get_or [] m k @ rack_peers peers k)))"
  using assms
proof (induction peers arbitrary: m)
  case Nil
  then show ?case by (auto simp: bt_get_or_def split: option.split)
next
  case (Cons p peers)
  let ?m = "bt_entry (rack_key p) [] (\<lambda>v. v @ [p]) m"
  have m: "bt_sorted ?m" "map_of ?m = (map_of m)(rack_key p \<mapsto> bt_get_or [] m (rack_key p) @ [p])"
    using Cons.prems by (simp_all add: bt_intros bt_simps)
  from Cons.IH [OF m(1)] show ?case by (auto simp: m(2) bt_get_or_def)
qed

lemma by_rack_entry:
  "(k, ps) \<in> set (by_rack peers) \<longleftrightarrow> ps = rack_peers peers k \<and> ps \<noteq> []"
proof -
  note f = by_rack_fold [of "[]" peers, OF bt_sorted_Nil, unfolded rack_key_def, folded by_rack_def]
  have "(k, ps) \<in> set (by_rack peers) \<longleftrightarrow> map_of (by_rack peers) k = Some ps"
    by (rule map_of_eq_Some_iff [OF bt_sorted_distinct [OF f [THEN conjunct1]], symmetric])
  moreover have "map_of (by_rack peers) k = (if rack_peers peers k = [] then None else Some (rack_peers peers k))"
    using f [THEN conjunct2, rule_format, of k] by (simp add: bt_get_or_def)
  ultimately show ?thesis by (auto split: if_splits)
qed

lemma first_overlap_None: "sorted (map fst xs) \<Longrightarrow> first_overlap xs = None \<longleftrightarrow> distinct (map fst xs)"
proof (induction xs rule: first_overlap.induct)
  case (1 x y xs)
  have "fst x \<notin> fst ` set (y # xs)" if "fst x \<noteq> fst y"
    using that "1.prems" by fastforce
  with 1 show ?case by auto
qed auto

lemma check_rack_None:
  "check_rack (k, ps) = None \<longleftrightarrow> tokens_of ps \<noteq> [] \<and> distinct (map fst (tokens_of ps))"
proof -
  have "distinct (map fst (sort_key fst (tokens_of ps))) = distinct (map fst (tokens_of ps))"
    by (metis distinct_map distinct_sort set_sort)
  then show ?thesis by (cases k) (simp add: check_rack_def Let_def first_overlap_None)
qed

lemma check_racks_ok: "check_racks rs = Inr () \<longleftrightarrow> (\<forall>r \<in> set rs. check_rack r = None)"
  by (induction rs) (auto split: option.split)

lemma set_by_rack: "set (by_rack peers) = (\<lambda>p. (rack_key p, rack_peers peers (rack_key p))) ` set peers"
proof -
  have "(k, ps) \<in> set (by_rack peers) \<longleftrightarrow> (\<exists>p \<in> set peers. k = rack_key p \<and> ps = rack_peers peers (rack_key p))" for k ps
    by (auto simp: by_rack_entry rack_peers_Nil)
  then show ?thesis by (auto simp: image_iff)
qed

lemma coverage_iff:
  "validate_token_coverage peers = Inr () \<longleftrightarrow>
   (\<forall>p \<in> set peers. let ts = tokens_of (rack_peers peers (rack_key p)) in ts \<noteq> [] \<and> distinct (map fst ts))"
  unfolding validate_token_coverage_def check_racks_ok set_by_rack ball_simps check_rack_None Let_def ..

lemma dispatch_total: "cs \<noteq> [] \<Longrightarrow> \<exists>i. dispatch cs token = Some i"
  by (simp add: dispatch_def Let_def)

section \<open>Properties\<close>

text \<open>
  C14. The validator accepts exactly the configurations in which, for every rack that a peer names, the
  peers of that rack together list a token and no token twice.  A ring rebuilt from an accepted
  configuration routes every token in every such rack: the lookup succeeds and yields a peer of that
  datacenter and rack, and the points of the rack have pairwise different token values.
\<close>

theorem coverage_routes_every_token:
  assumes "names_ok dcs" and "\<forall>p \<in> set peers. \<forall>t \<in> set (pt_tokens p). token_ok t"
    and "rebuild_continuums peers dcs = (dcs', applied)"
    and "p \<in> set peers" and "locate dcs p = Some (di, ri)"
  shows "(validate_token_coverage peers = Inr () \<longleftrightarrow>
      (\<forall>p \<in> set peers. let ts = tokens_of (rack_peers peers (rack_key p)) in ts \<noteq> [] \<and> distinct (map fst ts)))
    \<and> (validate_token_coverage peers = Inr () \<longrightarrow>
        (\<exists>q \<in> set peers. dispatch (continuums (rack_at dcs' di ri)) token = Some (pt_peer_idx q)
           \<and> pt_dc q = pt_dc p \<and> pt_rack q = pt_rack p)
        \<and> distinct (map (get_int \<circ> c_token) (continuums (rack_at dcs' di ri))))"
proof -
  have rack: "has_rack dcs di ri" "pt_dc p = dc_name (dcs ! di)" "pt_rack p = rack_name (rack_at dcs di ri)"
  proof -
    have "has_rack dcs di ri \<and> pt_dc p = fst (shape dcs ! di) \<and> pt_rack p = snd (shape dcs ! di) ! ri"
      using assms(5) by (auto simp: locate_iff [OF assms(1)] has_rack_def)
    then show "has_rack dcs di ri" "pt_dc p = dc_name (dcs ! di)" "pt_rack p = rack_name (rack_at dcs di ri)"
      by (auto simp: has_rack_iff shape_nth)
  qed
  let ?ps = "rack_peers peers (rack_key p)" and ?cs = "continuums (rack_at dcs' di ri)"
  have cs: "?cs = sort_key (token_key \<circ> c_token) (concat (map peer_points ?ps))"
    using rebuild_points [OF assms(1-3) rack(1)] rack(2,3) by (simp add: rack_peers_def rack_key_def)
  have toks: "map fst (tokens_of ps) = map (get_int \<circ> c_token) (concat (map peer_points ps))" for ps
    by (induction ps) (simp_all add: tokens_of_def peer_points_def comp_def)
  have main: "(\<exists>q \<in> set peers. dispatch ?cs token = Some (pt_peer_idx q) \<and> pt_dc q = pt_dc p \<and> pt_rack q = pt_rack p)
      \<and> distinct (map (get_int \<circ> c_token) ?cs)" if "validate_token_coverage peers = Inr ()"
  proof
    have t: "tokens_of ?ps \<noteq> []" "distinct (map fst (tokens_of ?ps))"
      using bspec [OF that [unfolded coverage_iff Let_def] assms(4)] by (rule conjunct1, rule conjunct2)
    then show "distinct (map (get_int \<circ> c_token) ?cs)"
      unfolding cs toks by (simp add: distinct_map)
    have "concat (map peer_points ?ps) \<noteq> []" using t(1) toks [of ?ps] by (metis map_is_Nil_conv)
    then have "?cs \<noteq> []" unfolding cs by (metis set_empty set_sort)
    then obtain i where i: "dispatch ?cs token = Some i" using dispatch_total by blast
    have "i \<in> c_peer_idx ` set (concat (map peer_points ?ps))" using dispatch_member [OF i] unfolding cs by simp
    then obtain q where "q \<in> set ?ps" "i = pt_peer_idx q" by (auto simp: peer_points_def)
    with i show "\<exists>q \<in> set peers. dispatch ?cs token = Some (pt_peer_idx q) \<and> pt_dc q = pt_dc p \<and> pt_rack q = pt_rack p"
      by (auto simp: set_rack_peers rack_key_def)
  qed
  show ?thesis by (rule conjI [OF coverage_iff impI [OF main]])
qed

theorem coverage_routes_every_token_witness:
  "\<exists>dcs' applied i. rebuild_continuums [\<lparr>pt_peer_idx = 3, pt_dc = [100], pt_rack = [114], pt_tokens = [from_u32 7]\<rparr>]
       [fst (upsert_rack [114] (dc_new [100]))] = (dcs', applied)
     \<and> dispatch (continuums (rack_at dcs' 0 0)) (from_u32 99) = Some i \<and> i = 3"
proof -
  let ?p = "\<lparr>pt_peer_idx = 3, pt_dc = [100], pt_rack = [114], pt_tokens = [from_u32 7]\<rparr> :: peer_tokens"
  define dcs where "dcs = [fst (upsert_rack [114] (dc_new [100]))]"
  obtain dcs' applied where r: "rebuild_continuums [?p] dcs = (dcs', applied)" by (meson surj_pair)
  have d: "dcs = [\<lparr>dc_name = [100], racks = [rack_new [114] [100]], preselected_rack_for_replication = None\<rparr>]"
    by (simp add: dcs_def upsert_rack_def rack_idx_def dc_new_def)
  have ok: "names_ok dcs" "\<forall>p \<in> set [?p]. \<forall>t \<in> set (pt_tokens p). token_ok t" "?p \<in> set [?p]"
    by (simp_all add: d names_ok_def shape_def)
  have loc: "locate dcs ?p = Some (0, 0)" by (simp add: d locate_def rack_idx_def rack_new_def)
  have "validate_token_coverage [?p] = Inr ()" by (simp add: coverage_iff tokens_of_def)
  with coverage_routes_every_token [OF ok(1,2) r ok(3) loc, of "from_u32 99", THEN conjunct2]
  obtain q where "q \<in> set [?p]" "dispatch (continuums (rack_at dcs' 0 0)) (from_u32 99) = Some (pt_peer_idx q)"
    by blast
  moreover from this(1) have "pt_peer_idx q = 3" by simp
  ultimately have 1: "dispatch (continuums (rack_at dcs' 0 0)) (from_u32 99) = Some 3" by (simp only:)
  show ?thesis
    unfolding dcs_def [symmetric] by (rule exI [of _ dcs'], rule exI [of _ applied], rule exI [of _ 3], rule conjI [OF r conjI [OF 1 refl]])
qed

text \<open>One peer that lists a token twice is reported as an overlap with itself.\<close>


end
