(* ===== verification/Join_Lattice.thy ===== *)
theory Join_Lattice
  imports BTree
begin

text \<open>
  The contract of the trait \<open>Crdt\<close> (\<open>datatypes/mod.rs\<close>): \<open>merge\<close> is an associative, commutative,
  idempotent join on the well-formed states.  The locale \<open>join_semilattice\<close> states it once; the
  facts a replica relies on (a merge dominates both inputs, it is the least state that does, and
  the final state depends only on the set of states received) are proved inside it.
  \<open>keyed_join\<close> says what a per-key value must satisfy so that the map-shaped merge loop is again
  such a join, and hands the map over to \<open>join_semilattice\<close>.
\<close>

section \<open>The merge contract\<close>

locale join_semilattice =
  fixes ok :: "'a \<Rightarrow> bool"
    and join :: "'a \<Rightarrow> 'a \<Rightarrow> 'a"
  assumes ok_join: "ok a \<Longrightarrow> ok b \<Longrightarrow> ok (join a b)"
    and join_assoc: "ok a \<Longrightarrow> ok b \<Longrightarrow> ok c \<Longrightarrow> join (join a b) c = join a (join b c)"
    and join_comm: "ok a \<Longrightarrow> ok b \<Longrightarrow> join a b = join b a"
    and join_idem: "ok a \<Longrightarrow> join a a = a"
begin

text \<open>State \<open>b\<close> has absorbed \<open>a\<close> when merging \<open>a\<close> in changes nothing: \<open>join b a = b\<close>.\<close>

lemma join_absorbs_left: "ok a \<Longrightarrow> ok b \<Longrightarrow> join (join a b) a = join a b"
  by (metis join_assoc join_comm join_idem ok_join)

lemma join_absorbs_right: "ok a \<Longrightarrow> ok b \<Longrightarrow> join (join a b) b = join a b"
  by (simp add: join_assoc join_idem)

lemma join_least:
  assumes "ok a" "ok b" "ok u" and "join u a = u" and "join u b = u"
  shows "join u (join a b) = u"
  using assms by (metis join_assoc)

lemma absorb_antisym: "ok a \<Longrightarrow> ok b \<Longrightarrow> join a b = a \<Longrightarrow> join b a = b \<Longrightarrow> a = b"
  by (metis join_comm)

lemma absorb_trans:
  assumes "ok a" "ok b" "ok c" and "join b a = b" and "join c b = c"
  shows "join c a = c"
  using assms by (metis join_assoc)

text \<open>A replica folds in the states it receives, in the order they arrive.\<close>

lemma ok_fold_join:
  assumes "ok a" and "\<forall>x \<in> set xs. ok x"
  shows "ok (fold (\<lambda>x s. join s x) xs a)"
  using assms by (induction xs arbitrary: a) (auto intro: ok_join)

lemma fold_join_upper:
  assumes "ok a" and "\<forall>x \<in> set xs. ok x" and "y \<in> insert a (set xs)"
  shows "join (fold (\<lambda>x s. join s x) xs a) y = fold (\<lambda>x s. join s x) xs a"
  using assms
proof (induction xs arbitrary: a y)
  case Nil
  then show ?case by (simp add: join_idem)
next
  case (Cons x xs)
  let ?r = "fold (\<lambda>x s. join s x) xs (join a x)"
  from Cons.prems have okx: "ok x" and oka: "ok (join a x)" and rest: "\<forall>x \<in> set xs. ok x"
    by (auto intro: ok_join)
  have r: "ok ?r" using oka rest by (rule ok_fold_join)
  have top: "join ?r (join a x) = ?r" using oka rest by (intro Cons.IH) auto
  consider "y = a" | "y = x" | "y \<in> set xs" using Cons.prems(3) by auto
  then show ?case
  proof cases
    case 1
    have "join (join a x) y = join a x"
      using 1 Cons.prems(1) okx join_absorbs_left by simp
    with top show ?thesis using 1 Cons.prems(1) oka r absorb_trans [of y "join a x" ?r] by simp
  next
    case 2
    have "join (join a x) y = join a x"
      using 2 Cons.prems(1) okx join_absorbs_right by simp
    with top show ?thesis using 2 okx oka r absorb_trans [of y "join a x" ?r] by simp
  next
    case 3
    then show ?thesis using oka rest Cons.IH [of "join a x"] by simp
  qed
qed

lemma fold_join_least:
  assumes "ok a" and "\<forall>x \<in> set xs. ok x" and "ok u" and "\<forall>y \<in> insert a (set xs). join u y = u"
  shows "join u (fold (\<lambda>x s. join s x) xs a) = u"
  using assms
proof (induction xs arbitrary: a)
  case Nil
  then show ?case by simp
next
  case (Cons x xs)
  then have "join u (join a x) = u" by (intro join_least) auto
  with Cons show ?case by (simp add: ok_join)
qed

text \<open>
  Strong convergence: replicas that start alike and have received the same set of states, in any
  order and with any repetition, hold the same state.
\<close>

lemma fold_join_converges:
  assumes "ok a" and "\<forall>x \<in> set xs. ok x" and "set ys = set xs"
  shows "fold (\<lambda>x s. join s x) ys a = fold (\<lambda>x s. join s x) xs a"
proof -
  from assms have ys: "\<forall>x \<in> set ys. ok x" by simp
  let ?X = "fold (\<lambda>x s. join s x) xs a" and ?Y = "fold (\<lambda>x s. join s x) ys a"
  have ok: "ok ?X" "ok ?Y" using assms ys by (blast intro: ok_fold_join)+
  have "join ?X ?Y = ?X"
    using assms ys ok fold_join_upper [OF assms(1,2)] by (intro fold_join_least) auto
  moreover have "join ?Y ?X = ?Y"
    using assms ys ok fold_join_upper [OF assms(1) ys] by (intro fold_join_least) auto
  ultimately show ?thesis using ok absorb_antisym by metis
qed

end

section \<open>From values to keyed maps\<close>

locale keyed_join =
  fixes okv :: "'k::linorder \<Rightarrow> 'v \<Rightarrow> bool"
    and dflt :: "'k \<Rightarrow> 'v"
    and jv :: "'v \<Rightarrow> 'v \<Rightarrow> 'v"
  assumes okv_dflt: "okv k (dflt k)"
    and okv_jv: "okv k a \<Longrightarrow> okv k b \<Longrightarrow> okv k (jv a b)"
    and jv_dflt: "okv k a \<Longrightarrow> jv (dflt k) a = a"
    and jv_assoc: "okv k a \<Longrightarrow> okv k b \<Longrightarrow> okv k c \<Longrightarrow> jv (jv a b) c = jv a (jv b c)"
    and jv_comm: "okv k a \<Longrightarrow> okv k b \<Longrightarrow> jv a b = jv b a"
    and jv_idem: "okv k a \<Longrightarrow> jv a a = a"
begin

lemmas okm_sorted = bt_all_sorted [of okv]

lemma lookup_join:
  assumes "bt_all okv a" and "bt_all okv b"
  shows "map_of (bt_join dflt jv a b) k =
    (case (map_of a k, map_of b k) of
       (x, None) \<Rightarrow> x | (None, Some v) \<Rightarrow> Some v | (Some u, Some v) \<Rightarrow> Some (jv u v))"
  using bt_all_value [OF assms(2), of k]
  by (auto simp: map_of_bt_join okm_sorted assms bt_get_or_def jv_dflt split: option.split)

lemma bt_all_join: "bt_all okv a \<Longrightarrow> bt_all okv b \<Longrightarrow> bt_all okv (bt_join dflt jv a b)"
  by (rule bt_allI) (auto simp: lookup_join bt_sorted_join okm_sorted dest: bt_all_value intro: okv_jv
      split: option.splits)

lemma join_Nil: "bt_all okv m \<Longrightarrow> bt_join dflt jv [] m = m"
  by (rule bt_ext)
    (auto simp: fun_eq_iff lookup_join bt_sorted_join okm_sorted split: option.split)

sublocale jm: join_semilattice "bt_all okv" "bt_join dflt jv"
proof
  show "\<And>a b. bt_all okv a \<Longrightarrow> bt_all okv b \<Longrightarrow> bt_all okv (bt_join dflt jv a b)" by (rule bt_all_join)
next
  fix a b c assume ok: "bt_all okv a" "bt_all okv b" "bt_all okv c"
  show "bt_join dflt jv (bt_join dflt jv a b) c = bt_join dflt jv a (bt_join dflt jv b c)"
  proof (rule bt_ext)
    show "map_of (bt_join dflt jv (bt_join dflt jv a b) c) =
          map_of (bt_join dflt jv a (bt_join dflt jv b c))"
      using ok by (auto simp: fun_eq_iff lookup_join bt_all_join dest: bt_all_value intro: jv_assoc
          split: option.split)
  qed (use ok in \<open>auto intro!: bt_sorted_join dest: okm_sorted\<close>)
next
  fix a b assume ok: "bt_all okv a" "bt_all okv b"
  show "bt_join dflt jv a b = bt_join dflt jv b a"
  proof (rule bt_ext)
    show "map_of (bt_join dflt jv a b) = map_of (bt_join dflt jv b a)"
      using ok by (auto simp: fun_eq_iff lookup_join dest: bt_all_value intro: jv_comm
          split: option.split)
  qed (use ok in \<open>auto intro!: bt_sorted_join dest: okm_sorted\<close>)
next
  fix a assume ok: "bt_all okv a"
  show "bt_join dflt jv a a = a"
  proof (rule bt_ext)
    show "map_of (bt_join dflt jv a a) = map_of a"
      using ok by (auto simp: fun_eq_iff lookup_join dest: bt_all_value intro: jv_idem
          split: option.split)
  qed (use ok in \<open>auto intro!: bt_sorted_join dest: okm_sorted\<close>)
qed

lemma maps_join: "join_semilattice (bt_all okv) (bt_join dflt jv)"
  by unfold_locales

end

end
