(* ===== verification/Crdt_Types.thy ===== *)
theory Crdt_Types
  imports Join_Lattice "HOL-Library.Product_Lexorder" "HOL-Library.List_Lexorder"
    "HOL-Library.Char_ord" "HOL-Library.Option_ord"
begin

text \<open>
  The four primitive replicated data types of \<open>crates/dyniak/src/datatypes\<close>: the
  positive-negative counter (\<open>counter.rs\<close>), the enable-wins flag (\<open>flag.rs\<close>), the
  last-write-wins register (\<open>register.rs\<close>) and the observed-remove set (\<open>set.rs\<close>), with the actor
  ids and tags of \<open>mod.rs\<close>.  Each section gives the state as a record, the operations, the
  well-formedness invariant every operation keeps, the interpretation of \<open>join_semilattice\<close> on the
  merge, and the behaviour of the operations.  A Rust panic (\<open>expect\<close> on a counter overflow) is the
  result \<open>None\<close>.
\<close>

named_theorems crdt_ok \<open>every operation keeps the well-formedness invariant\<close>

section \<open>Actors and tags\<close>

datatype actor_id = ActorId (actor_dc: string) (actor_peer: string)

definition actor_key :: "actor_id \<Rightarrow> string \<times> string" where
  "actor_key a = (actor_dc a, actor_peer a)"

lemma actor_key_inject: "actor_key a = actor_key b \<longleftrightarrow> a = b"
  by (cases a; cases b) (simp add: actor_key_def)

instantiation actor_id :: linorder
begin

definition less_eq_actor_id :: "actor_id \<Rightarrow> actor_id \<Rightarrow> bool" where
  "less_eq_actor_id a b = (actor_key a \<le> actor_key b)"

definition less_actor_id :: "actor_id \<Rightarrow> actor_id \<Rightarrow> bool" where
  "less_actor_id a b = (actor_key a < actor_key b)"

instance
  by standard
    (auto simp: less_eq_actor_id_def less_actor_id_def simp flip: actor_key_inject)

end

datatype tag = Tag (tag_actor: actor_id) (tag_counter: u64)

definition tag_key :: "tag \<Rightarrow> actor_id \<times> u64" where
  "tag_key t = (tag_actor t, tag_counter t)"

lemma tag_key_inject: "tag_key a = tag_key b \<longleftrightarrow> a = b"
  by (cases a; cases b) (simp add: tag_key_def)

instantiation tag :: linorder
begin

definition less_eq_tag :: "tag \<Rightarrow> tag \<Rightarrow> bool" where
  "less_eq_tag a b = (tag_key a \<le> tag_key b)"

definition less_tag :: "tag \<Rightarrow> tag \<Rightarrow> bool" where
  "less_tag a b = (tag_key a < tag_key b)"

instance
  by standard (auto simp: less_eq_tag_def less_tag_def simp flip: tag_key_inject)

end

definition lww_order :: "u64 \<Rightarrow> actor_id \<Rightarrow> u64 \<Rightarrow> actor_id \<Rightarrow> ordering" where
  "lww_order a_ts a_actor b_ts b_actor =
     then_with (compare_of a_ts b_ts) (compare_of a_actor b_actor)"

lemma lww_order_pairs:
  "lww_order t a u b = compare_of (t, a) (u, b)"
  by (auto simp: lww_order_def compare_of_def)

section \<open>Per-actor counters\<close>

text \<open>
  \<open>entry(actor).or_insert(0); if *entry < count { *entry = count }\<close> for every entry of the other
  side: the loop all four types share.
\<close>

type_synonym counters = "(actor_id, u64) btmap"

definition raise_to :: "u64 \<Rightarrow> u64 \<Rightarrow> u64" where
  "raise_to e n = (if e < n then n else e)"

definition counters_merge :: "counters \<Rightarrow> counters \<Rightarrow> counters" where
  "counters_merge self other = bt_join (\<lambda>_. 0) raise_to self other"

lemma raise_to_max: "raise_to = max"
  by (auto simp: raise_to_def max_def fun_eq_iff)

interpretation ctr: keyed_join "\<lambda>_ _. True" "\<lambda>_. 0" raise_to
  by unfold_locales (auto simp: raise_to_max max.assoc max.commute max.left_commute max_absorb2)

lemma bt_all_True: "bt_all (\<lambda>_ _. True) m = bt_sorted m"
  by (simp add: bt_all_def)

lemma counters_sorted [bt_intros]: "bt_sorted a \<Longrightarrow> bt_sorted (counters_merge a b)"
  by (simp add: counters_merge_def bt_sorted_join)

lemma counters_laws:
  assumes "bt_sorted a" "bt_sorted b"
  shows "counters_merge a b = counters_merge b a"
    and "bt_sorted c \<Longrightarrow>
      counters_merge (counters_merge a b) c = counters_merge a (counters_merge b c)"
    and "counters_merge a a = a"
  using assms ctr.jm.join_comm ctr.jm.join_assoc ctr.jm.join_idem
  unfolding bt_all_True counters_merge_def by blast+

lemma counters_merge_Nil: "bt_sorted m \<Longrightarrow> counters_merge [] m = m"
  using ctr.join_Nil [of m] by (simp add: bt_all_True counters_merge_def)

lemma counters_merge_get:
  assumes "bt_sorted a" "bt_sorted b"
  shows "bt_get_or 0 (counters_merge a b) k = max (bt_get_or 0 a k) (bt_get_or 0 b k)"
  using assms by (auto simp: counters_merge_def map_of_bt_join raise_to_max bt_get_or_def
      max_absorb1 max_absorb2 split: option.split)

text \<open>\<open>*counter = counter.checked_add(1).expect(..)\<close>: minting the next tag of an actor.\<close>

definition mint :: "actor_id \<Rightarrow> counters \<Rightarrow> (counters \<times> tag) option" where
  "mint actor cs = (case checked_add (bt_get_or 0 cs actor) 1 of
     None \<Rightarrow> None
   | Some c \<Rightarrow> Some (bt_insert actor c cs, Tag actor c))"

text \<open>Every tag a state holds was minted under the counter it records for that actor.\<close>

definition tag_seen :: "counters \<Rightarrow> tag \<Rightarrow> bool" where
  "tag_seen cs t \<longleftrightarrow> tag_counter t \<le> bt_get_or 0 cs (tag_actor t)"

lemma tag_seen_merge:
  assumes "bt_sorted a" "bt_sorted b" and "tag_seen a t \<or> tag_seen b t"
  shows "tag_seen (counters_merge a b) t"
  using assms by (auto simp: tag_seen_def counters_merge_get le_max_iff_disj)

lemma mint_SomeD:
  assumes "mint actor cs = Some (cs', t)" and "bt_sorted cs"
  shows "bt_sorted cs'" and "tag_actor t = actor" and "\<not> tag_seen cs t" and "tag_seen cs' t"
    and "tag_seen cs u \<Longrightarrow> tag_seen cs' u"
    and "bt_get_or 0 cs' a = (if a = actor then tag_counter t else bt_get_or 0 cs a)"
proof -
  from assms(1) obtain c where c: "checked_add (bt_get_or 0 cs actor) 1 = Some c"
    and cs': "cs' = bt_insert actor c cs" and t: "t = Tag actor c"
    by (auto simp: mint_def split: option.splits)
  from c have lt: "bt_get_or 0 cs actor < c" by (rule checked_add_1_less)
  have get: "bt_get_or 0 cs' a = (if a = actor then c else bt_get_or 0 cs a)" for a
    using assms(2) by (simp add: cs' bt_get_or_def map_of_bt_insert)
  show "bt_sorted cs'" using assms(2) by (simp add: cs' bt_sorted_insert)
  show "tag_actor t = actor" by (simp add: t)
  show "\<not> tag_seen cs t" using lt by (simp add: tag_seen_def t)
  show "tag_seen cs' t" by (simp add: tag_seen_def t get)
  show "tag_seen cs u \<Longrightarrow> tag_seen cs' u" using lt by (auto simp: tag_seen_def get)
  show "bt_get_or 0 cs' a = (if a = actor then tag_counter t else bt_get_or 0 cs a)"
    by (simp add: get t)
qed

section \<open>Positive-negative counter\<close>

text \<open>\<open>delta\<close> is an \<open>i64\<close>; the signed value of the word decides the column.\<close>

record pn_counter =
  pn_pos :: counters
  pn_neg :: counters

definition pn_new :: pn_counter where
  "pn_new = \<lparr>pn_pos = [], pn_neg = []\<rparr>"

definition pn_increment :: "actor_id \<Rightarrow> u64 \<Rightarrow> pn_counter \<Rightarrow> pn_counter" where
  "pn_increment actor by c = c\<lparr>pn_pos := bt_entry actor 0 (\<lambda>e. saturating_add e by) (pn_pos c)\<rparr>"

definition pn_decrement :: "actor_id \<Rightarrow> u64 \<Rightarrow> pn_counter \<Rightarrow> pn_counter" where
  "pn_decrement actor by c = c\<lparr>pn_neg := bt_entry actor 0 (\<lambda>e. saturating_add e by) (pn_neg c)\<rparr>"

text \<open>\<open>i64::unsigned_abs\<close>.\<close>

definition unsigned_abs :: "64 word \<Rightarrow> u64" where
  "unsigned_abs delta = of_int \<bar>sint delta\<bar>"

definition pn_apply :: "actor_id \<Rightarrow> 64 word \<Rightarrow> pn_counter \<Rightarrow> pn_counter" where
  "pn_apply actor delta c =
     (if 0 \<le> sint delta
      then c\<lparr>pn_pos := bt_entry actor 0 (\<lambda>e. saturating_add e (unsigned_abs delta)) (pn_pos c)\<rparr>
      else c\<lparr>pn_neg := bt_entry actor 0 (\<lambda>e. saturating_add e (unsigned_abs delta)) (pn_neg c)\<rparr>)"

definition pn_merge :: "pn_counter \<Rightarrow> pn_counter \<Rightarrow> pn_counter" where
  "pn_merge self other =
     \<lparr>pn_pos = counters_merge (pn_pos self) (pn_pos other),
      pn_neg = counters_merge (pn_neg self) (pn_neg other)\<rparr>"

text \<open>The value is an \<open>i64\<close>: each column saturates at \<open>u64::MAX\<close>, is clamped to \<open>i64::MAX\<close>, and the
  difference saturates.\<close>

abbreviation i64_max :: int where "i64_max \<equiv> 2 ^ 63 - 1"
abbreviation i64_min :: int where "i64_min \<equiv> - (2 ^ 63)"

definition column_sum :: "counters \<Rightarrow> u64" where
  "column_sum m = fold (\<lambda>x acc. saturating_add acc x) (map snd m) 0"

definition clamp_i64 :: "u64 \<Rightarrow> int" where
  "clamp_i64 w = (if uint w \<le> i64_max then uint w else i64_max)"

definition i64_saturating_sub :: "int \<Rightarrow> int \<Rightarrow> int" where
  "i64_saturating_sub a b =
     (if a - b < i64_min then i64_min else if i64_max < a - b then i64_max else a - b)"

definition pn_value :: "pn_counter \<Rightarrow> int" where
  "pn_value c =
     i64_saturating_sub (clamp_i64 (column_sum (pn_pos c))) (clamp_i64 (column_sum (pn_neg c)))"

definition pn_columns :: "pn_counter \<Rightarrow> counters \<times> counters" where
  "pn_columns c = (pn_pos c, pn_neg c)"

definition pn_from_columns :: "counters \<Rightarrow> counters \<Rightarrow> pn_counter" where
  "pn_from_columns pos neg = \<lparr>pn_pos = pos, pn_neg = neg\<rparr>"

definition pn_ok :: "pn_counter \<Rightarrow> bool" where
  "pn_ok c \<longleftrightarrow> bt_sorted (pn_pos c) \<and> bt_sorted (pn_neg c)"

lemma pn_ok_ops [crdt_ok]:
  "pn_ok pn_new"
  "pn_ok c \<Longrightarrow> pn_ok (pn_increment a n c)"
  "pn_ok c \<Longrightarrow> pn_ok (pn_decrement a n c)"
  "pn_ok c \<Longrightarrow> pn_ok (pn_apply a d c)"
  "pn_ok c \<Longrightarrow> pn_ok c' \<Longrightarrow> pn_ok (pn_merge c c')"
  by (auto simp: pn_ok_def pn_new_def pn_increment_def pn_decrement_def pn_apply_def pn_merge_def
      intro: bt_intros)

interpretation pn: join_semilattice pn_ok pn_merge
  by unfold_locales (auto simp: pn_ok_def pn_merge_def counters_laws intro: counters_sorted)

lemma pn_merge_new: "pn_ok c \<Longrightarrow> pn_merge pn_new c = c"
  by (simp add: pn_ok_def pn_merge_def pn_new_def counters_merge_Nil)

section \<open>Enable-wins flag\<close>

record ew_flag =
  flag_adds :: "tag btset"
  flag_removes :: "tag btset"
  flag_counters :: counters

definition flag_new :: ew_flag where
  "flag_new = \<lparr>flag_adds = [], flag_removes = [], flag_counters = []\<rparr>"

definition flag_enable :: "actor_id \<Rightarrow> ew_flag \<Rightarrow> (ew_flag \<times> tag) option" where
  "flag_enable actor f = (case mint actor (flag_counters f) of
     None \<Rightarrow> None
   | Some (cs, t) \<Rightarrow>
       Some (f\<lparr>flag_counters := cs, flag_adds := bs_insert t (flag_adds f)\<rparr>, t))"

definition flag_disable :: "ew_flag \<Rightarrow> ew_flag" where
  "flag_disable f = f\<lparr>flag_removes := bs_union (flag_removes f) (flag_adds f)\<rparr>"

definition flag_from_raw :: "tag btset \<Rightarrow> tag btset \<Rightarrow> counters \<Rightarrow> ew_flag" where
  "flag_from_raw adds removes cs =
     \<lparr>flag_adds = adds, flag_removes = removes, flag_counters = cs\<rparr>"

definition flag_merge :: "ew_flag \<Rightarrow> ew_flag \<Rightarrow> ew_flag" where
  "flag_merge self other =
     \<lparr>flag_adds = bs_union (flag_adds self) (flag_adds other),
      flag_removes = bs_union (flag_removes self) (flag_removes other),
      flag_counters = counters_merge (flag_counters self) (flag_counters other)\<rparr>"

text \<open>\<open>adds.iter().any(|t| !removes.contains(t))\<close>, shared by the flag, the set and the map.\<close>

definition is_present :: "tag btset \<Rightarrow> tag btset \<Rightarrow> bool" where
  "is_present adds removes = list_ex (\<lambda>t. t \<notin> set removes) adds"

definition flag_value :: "ew_flag \<Rightarrow> bool" where
  "flag_value f = is_present (flag_adds f) (flag_removes f)"

lemma is_present_iff: "is_present adds removes \<longleftrightarrow> \<not> set adds \<subseteq> set removes"
  by (auto simp: is_present_def list_ex_iff)

text \<open>\<open>bs_union\<close> is the join of tag sets.\<close>

interpretation tags: join_semilattice bs_sorted "bs_union :: tag btset \<Rightarrow> tag btset \<Rightarrow> tag btset"
proof
  fix a b c :: "tag btset"
  show "bs_sorted a \<Longrightarrow> bs_sorted b \<Longrightarrow> bs_sorted (bs_union a b)" by (rule bs_sorted_union)
  show "bs_sorted a \<Longrightarrow> bs_sorted b \<Longrightarrow> bs_sorted c \<Longrightarrow>
      bs_union (bs_union a b) c = bs_union a (bs_union b c)"
    by (rule bs_ext) (auto intro: bs_sorted_union)
  show "bs_sorted a \<Longrightarrow> bs_sorted b \<Longrightarrow> bs_union a b = bs_union b a"
    by (rule bs_ext) (auto intro: bs_sorted_union)
  show "bs_sorted a \<Longrightarrow> bs_union a a = a"
    by (rule bs_ext) (auto intro: bs_sorted_union)
qed

lemmas tags_laws = tags.join_assoc tags.join_comm tags.join_idem

definition flag_ok :: "ew_flag \<Rightarrow> bool" where
  "flag_ok f \<longleftrightarrow> bs_sorted (flag_adds f) \<and> bs_sorted (flag_removes f) \<and> bt_sorted (flag_counters f)
     \<and> (\<forall>t \<in> set (flag_adds f) \<union> set (flag_removes f). tag_seen (flag_counters f) t)"

lemma flag_ok_merge: "flag_ok a \<Longrightarrow> flag_ok b \<Longrightarrow> flag_ok (flag_merge a b)"
  by (auto simp: flag_ok_def flag_merge_def intro: bt_intros tag_seen_merge)

lemma flag_ok_enable:
  assumes "flag_ok f" and "flag_enable a f = Some (f', t)"
  shows "flag_ok f'"
proof -
  from assms(2) obtain cs where m: "mint a (flag_counters f) = Some (cs, t)"
    and f': "f' = f\<lparr>flag_counters := cs, flag_adds := bs_insert t (flag_adds f)\<rparr>"
    by (auto simp: flag_enable_def split: option.splits)
  from assms(1) have s: "bt_sorted (flag_counters f)" by (simp add: flag_ok_def)
  from assms(1) mint_SomeD [OF m s] show ?thesis
    by (auto simp: flag_ok_def f' intro: bt_intros)
qed

lemma flag_ok_ops [crdt_ok]:
  "flag_ok flag_new"
  "flag_ok f \<Longrightarrow> flag_ok (flag_disable f)"
  by (auto simp: flag_ok_def flag_new_def flag_disable_def intro: bt_intros)

interpretation flag: join_semilattice flag_ok flag_merge
proof
  show "\<And>a b. flag_ok a \<Longrightarrow> flag_ok b \<Longrightarrow> flag_ok (flag_merge a b)" by (rule flag_ok_merge)
qed (auto simp: flag_ok_def flag_merge_def counters_laws tags_laws intro: bt_intros)

lemma bs_union_Nil: "bs_sorted s \<Longrightarrow> bs_union [] s = s"
  by (rule bs_ext) (auto intro: bs_sorted_union)

lemma flag_merge_new: "flag_ok f \<Longrightarrow> flag_merge flag_new f = f"
  by (simp add: flag_ok_def flag_merge_def flag_new_def counters_merge_Nil bs_union_Nil)

section \<open>Last-write-wins register\<close>

record lww_register =
  reg_value :: bytes
  reg_ts :: u64
  reg_actor :: "actor_id option"

definition reg_new :: lww_register where
  "reg_new = \<lparr>reg_value = [], reg_ts = 0, reg_actor = None\<rparr>"

definition reg_assign :: "actor_id \<Rightarrow> u64 \<Rightarrow> bytes \<Rightarrow> lww_register \<Rightarrow> lww_register" where
  "reg_assign actor ts v r =
     (let dominates = (case reg_actor r of
          None \<Rightarrow> True
        | Some current \<Rightarrow> lww_order ts actor (reg_ts r) current = Greater)
      in if dominates then \<lparr>reg_value = v, reg_ts = ts, reg_actor = Some actor\<rparr> else r)"

definition reg_from_raw :: "bytes \<Rightarrow> u64 \<Rightarrow> actor_id option \<Rightarrow> lww_register" where
  "reg_from_raw v ts actor = \<lparr>reg_value = v, reg_ts = ts, reg_actor = actor\<rparr>"

definition reg_merge :: "lww_register \<Rightarrow> lww_register \<Rightarrow> lww_register" where
  "reg_merge self other =
     (let take_other = (case (reg_actor self, reg_actor other) of
          (None, Some _) \<Rightarrow> True
        | (_, None) \<Rightarrow> False
        | (Some self_actor, Some other_actor) \<Rightarrow>
            (case lww_order (reg_ts other) other_actor (reg_ts self) self_actor of
               Greater \<Rightarrow> True
             | Equal \<Rightarrow> reg_value self < reg_value other
             | Less \<Rightarrow> False))
      in if take_other then other else self)"

definition reg_ok :: "lww_register \<Rightarrow> bool" where
  "reg_ok r \<longleftrightarrow> (reg_actor r = None \<longrightarrow> reg_value r = [] \<and> reg_ts r = 0)"

text \<open>The merge is a maximum: registers are ordered by stamp, then by value bytes.\<close>

definition reg_key :: "lww_register \<Rightarrow> (u64 \<times> actor_id \<times> bytes) option" where
  "reg_key r = map_option (\<lambda>a. (reg_ts r, a, reg_value r)) (reg_actor r)"

lemma reg_merge_key: "reg_merge a b = (if reg_key a < reg_key b then b else a)"
  by (auto simp: reg_merge_def reg_key_def lww_order_pairs compare_of_def less_option_def
      split: option.splits)

lemma reg_key_inject: "reg_ok a \<Longrightarrow> reg_ok b \<Longrightarrow> reg_key a = reg_key b \<Longrightarrow> a = b"
  by (cases "reg_actor a"; cases "reg_actor b")
    (auto simp: reg_ok_def reg_key_def intro!: lww_register.equality)

lemma reg_ok_ops [crdt_ok]:
  "reg_ok reg_new"
  "reg_ok r \<Longrightarrow> reg_ok (reg_assign a ts v r)"
  "reg_ok r \<Longrightarrow> reg_ok r' \<Longrightarrow> reg_ok (reg_merge r r')"
  by (auto simp: reg_ok_def reg_new_def reg_assign_def reg_merge_key Let_def)

interpretation reg: join_semilattice reg_ok reg_merge
proof
  fix a b :: lww_register assume "reg_ok a" "reg_ok b"
  then show "reg_merge a b = reg_merge b a"
    by (auto simp: reg_merge_key not_less dest: reg_key_inject)
qed (auto simp: reg_merge_key reg_ok_def)

lemma reg_merge_new: "reg_ok r \<Longrightarrow> reg_merge reg_new r = r"
  by (cases "reg_actor r")
    (auto simp: reg_ok_def reg_merge_def reg_new_def intro!: lww_register.equality)

section \<open>Observed-remove set\<close>

record element_state =
  el_adds :: "tag btset"
  el_removes :: "tag btset"

record or_set =
  set_elements :: "(bytes, element_state) btmap"
  set_counters :: counters

definition el_default :: element_state where
  "el_default = \<lparr>el_adds = [], el_removes = []\<rparr>"

definition el_is_present :: "element_state \<Rightarrow> bool" where
  "el_is_present e = is_present (el_adds e) (el_removes e)"

definition el_merge :: "element_state \<Rightarrow> element_state \<Rightarrow> element_state" where
  "el_merge self other =
     \<lparr>el_adds = bs_union (el_adds self) (el_adds other),
      el_removes = bs_union (el_removes self) (el_removes other)\<rparr>"

definition orset_new :: or_set where
  "orset_new = \<lparr>set_elements = [], set_counters = []\<rparr>"

definition orset_add :: "actor_id \<Rightarrow> bytes \<Rightarrow> or_set \<Rightarrow> (or_set \<times> tag) option" where
  "orset_add actor element s = (case mint actor (set_counters s) of
     None \<Rightarrow> None
   | Some (cs, t) \<Rightarrow>
       Some (\<lparr>set_elements = bt_entry element el_default
                (\<lambda>e. e\<lparr>el_adds := bs_insert t (el_adds e)\<rparr>) (set_elements s),
              set_counters = cs\<rparr>, t))"

definition orset_remove :: "bytes \<Rightarrow> or_set \<Rightarrow> or_set" where
  "orset_remove element s =
     s\<lparr>set_elements := bt_modify element
         (\<lambda>e. e\<lparr>el_removes := bs_union (el_removes e) (el_adds e)\<rparr>) (set_elements s)\<rparr>"

definition orset_contains :: "or_set \<Rightarrow> bytes \<Rightarrow> bool" where
  "orset_contains s element = (case map_of (set_elements s) element of
     None \<Rightarrow> False | Some e \<Rightarrow> el_is_present e)"

definition orset_raw_elements :: "or_set \<Rightarrow> (bytes, tag btset \<times> tag btset) btmap" where
  "orset_raw_elements s = map (\<lambda>(e, st). (e, (el_adds st, el_removes st))) (set_elements s)"

definition orset_from_raw :: "(bytes, tag btset \<times> tag btset) btmap \<Rightarrow> counters \<Rightarrow> or_set" where
  "orset_from_raw elements cs =
     \<lparr>set_elements = map (\<lambda>(e, (adds, removes)). (e, \<lparr>el_adds = adds, el_removes = removes\<rparr>)) elements,
      set_counters = cs\<rparr>"

definition orset_merge :: "or_set \<Rightarrow> or_set \<Rightarrow> or_set" where
  "orset_merge self other =
     \<lparr>set_elements = bt_join (\<lambda>_. el_default) el_merge (set_elements self) (set_elements other),
      set_counters = counters_merge (set_counters self) (set_counters other)\<rparr>"

definition orset_value :: "or_set \<Rightarrow> bytes btset" where
  "orset_value s = map fst (filter (\<lambda>(e, st). el_is_present st) (set_elements s))"

definition el_ok :: "element_state \<Rightarrow> bool" where
  "el_ok e \<longleftrightarrow> bs_sorted (el_adds e) \<and> bs_sorted (el_removes e)"

definition orset_ok :: "or_set \<Rightarrow> bool" where
  "orset_ok s \<longleftrightarrow> bt_sorted (set_counters s) \<and> bt_all (\<lambda>_. el_ok) (set_elements s)
     \<and> (\<forall>k e. map_of (set_elements s) k = Some e \<longrightarrow>
          (\<forall>t \<in> set (el_adds e) \<union> set (el_removes e). tag_seen (set_counters s) t))"

interpretation el: keyed_join "\<lambda>_::bytes. el_ok" "\<lambda>_. el_default" el_merge
proof
  fix a :: element_state and k :: bytes
  show "el_ok el_default" by (simp add: el_ok_def el_default_def)
  show "el_merge el_default a = a" if "el_ok a"
    using that by (simp add: el_ok_def el_merge_def el_default_def bs_union_Nil)
qed (auto simp: el_ok_def el_merge_def tags_laws intro: bt_intros)

lemma orset_okI:
  assumes "bt_sorted (set_counters s)" and "bt_sorted (set_elements s)"
    and "\<And>k e. map_of (set_elements s) k = Some e \<Longrightarrow>
      el_ok e \<and> (\<forall>t \<in> set (el_adds e) \<union> set (el_removes e). tag_seen (set_counters s) t)"
  shows "orset_ok s"
  using assms unfolding orset_ok_def by (blast intro: bt_allI)

lemma orset_okD:
  assumes "orset_ok s"
  shows "bt_sorted (set_counters s)" and "bt_sorted (set_elements s)"
    and "map_of (set_elements s) k = Some e \<Longrightarrow> el_ok e"
    and "map_of (set_elements s) k = Some e \<Longrightarrow> t \<in> set (el_adds e) \<union> set (el_removes e) \<Longrightarrow>
      tag_seen (set_counters s) t"
  using assms unfolding orset_ok_def by (blast dest: bt_all_sorted bt_all_value)+

lemma set_counters_merge [simp]:
  "set_counters (orset_merge a b) = counters_merge (set_counters a) (set_counters b)"
  by (simp add: orset_merge_def)

lemma orset_lookup_merge:
  assumes "orset_ok a" "orset_ok b"
  shows "map_of (set_elements (orset_merge a b)) k =
    (case (map_of (set_elements a) k, map_of (set_elements b) k) of
       (x, None) \<Rightarrow> x | (None, Some v) \<Rightarrow> Some v | (Some u, Some v) \<Rightarrow> Some (el_merge u v))"
  using assms el.lookup_join [of "set_elements a" "set_elements b" k]
  by (simp add: orset_merge_def orset_ok_def)

lemma orset_ok_merge:
  assumes "orset_ok a" "orset_ok b"
  shows "orset_ok (orset_merge a b)"
proof (rule orset_okI)
  note da = orset_okD [OF assms(1)] and db = orset_okD [OF assms(2)]
  show "bt_sorted (set_counters (orset_merge a b))"
    using da(1) by (simp add: orset_merge_def counters_sorted)
  show "bt_sorted (set_elements (orset_merge a b))"
    using da(2) by (simp add: orset_merge_def bt_sorted_join)
  fix k e assume "map_of (set_elements (orset_merge a b)) k = Some e"
  then show "el_ok e \<and> (\<forall>t \<in> set (el_adds e) \<union> set (el_removes e).
      tag_seen (set_counters (orset_merge a b)) t)"
    using da(3,4) [of k] db(3,4) [of k] tag_seen_merge [OF da(1) db(1)]
    by (auto simp: orset_lookup_merge assms el_merge_def el_ok_def
        split: option.splits intro: bt_intros)
qed

lemma orset_add_SomeE:
  assumes "orset_add a x s = Some (s', t)" and "orset_ok s"
  obtains cs where "mint a (set_counters s) = Some (cs, t)" and "set_counters s' = cs"
    and "bt_sorted (set_elements s')"
    and "map_of (set_elements s') =
      (map_of (set_elements s))(x \<mapsto> (bt_get_or el_default (set_elements s) x)
         \<lparr>el_adds := bs_insert t (el_adds (bt_get_or el_default (set_elements s) x))\<rparr>)"
proof -
  from assms(1) obtain cs where m: "mint a (set_counters s) = Some (cs, t)"
    and s': "s' = \<lparr>set_elements = bt_entry x el_default
                (\<lambda>e. e\<lparr>el_adds := bs_insert t (el_adds e)\<rparr>) (set_elements s), set_counters = cs\<rparr>"
    by (auto simp: orset_add_def split: option.splits)
  with orset_okD(2) [OF assms(2)] show thesis
    by (intro that [OF m]) (simp_all add: map_of_bt_entry bt_sorted_entry)
qed

lemma orset_ok_add:
  assumes "orset_ok s" and "orset_add a x s = Some (s', t)"
  shows "orset_ok s'"
proof -
  from orset_add_SomeE [OF assms(2,1)] obtain cs where
    m: "mint a (set_counters s) = Some (cs, t)" and cs: "set_counters s' = cs"
    and srt: "bt_sorted (set_elements s')"
    and look: "map_of (set_elements s') =
      (map_of (set_elements s))(x \<mapsto> (bt_get_or el_default (set_elements s) x)
         \<lparr>el_adds := bs_insert t (el_adds (bt_get_or el_default (set_elements s) x))\<rparr>)" .
  note d = orset_okD [OF assms(1)] and md = mint_SomeD [OF m d(1)]
  show ?thesis
  proof (rule orset_okI)
    fix k e assume e: "map_of (set_elements s') k = Some e"
    show "el_ok e \<and> (\<forall>t \<in> set (el_adds e) \<union> set (el_removes e). tag_seen (set_counters s') t)"
      using e d(3,4) [of x] d(3,4) [of k] md(4,5)
      by (auto simp: look cs bt_get_or_def el_default_def el_ok_def split: if_splits option.splits
          intro: bt_intros)
  qed (use md cs srt in auto)
qed

lemma orset_ok_remove:
  assumes "orset_ok s"
  shows "orset_ok (orset_remove x s)"
proof (rule orset_okI)
  note d = orset_okD [OF assms]
  fix k e assume "map_of (set_elements (orset_remove x s)) k = Some e"
  then show "el_ok e \<and> (\<forall>t \<in> set (el_adds e) \<union> set (el_removes e).
      tag_seen (set_counters (orset_remove x s)) t)"
    using d(3,4) [of k]
    by (auto simp: orset_remove_def map_of_bt_modify d(2) el_ok_def split: if_splits
        intro: bt_intros)
qed (use orset_okD [OF assms] in \<open>auto simp: orset_remove_def intro: bt_intros\<close>)

lemma orset_ok_new [crdt_ok]: "orset_ok orset_new"
  by (rule orset_okI) (simp_all add: orset_new_def)

interpretation orset: join_semilattice orset_ok orset_merge
proof
  show "\<And>a b. orset_ok a \<Longrightarrow> orset_ok b \<Longrightarrow> orset_ok (orset_merge a b)" by (rule orset_ok_merge)
qed (auto simp: orset_ok_def orset_merge_def counters_laws
      el.jm.join_assoc el.jm.join_comm el.jm.join_idem)

lemma orset_merge_new: "orset_ok s \<Longrightarrow> orset_merge orset_new s = s"
  by (simp add: orset_ok_def orset_merge_def orset_new_def counters_merge_Nil el.join_Nil)

end
