(* ===== verification/Crdt_Behaviour.thy ===== *)
theory Crdt_Behaviour
  imports Crdt_Types
begin

text \<open>
  What the primitive data types promise their users: the counter's value is exact until a column
  saturates, the register holds the write with the greatest stamp whatever the order of arrival,
  and in the set and the flag a remove erases what it observed while a concurrent add survives.
\<close>

section \<open>Counter\<close>

definition column_total :: "counters \<Rightarrow> nat" where
  "column_total m = sum_list (map (unat \<circ> snd) m)"

lemma column_total_insert:
  assumes "bt_sorted m"
  shows "column_total (bt_insert k v m) + unat (bt_get_or 0 m k) = column_total m + unat v"
  using assms
proof (induction m)
  case Nil
  then show ?case by (simp add: column_total_def bt_get_or_def)
next
  case (Cons kv m)
  obtain k' v' where kv: "kv = (k', v')" by (cases kv)
  from Cons.prems kv have lt: "\<forall>x \<in> fst ` set m. k' < x" and srt: "bt_sorted m"
    by (auto simp: bt_sorted_Cons)
  have none: "map_of m k = None" if "k \<le> k'"
    using lt that by (force simp: map_of_eq_None_iff)
  show ?case using Cons.IH [OF srt] none
    by (auto simp: kv column_total_def bt_get_or_def)
qed

lemma column_total_entry:
  assumes "bt_sorted m" and "column_total m + unat n < 2 ^ 64"
  shows "column_total (bt_entry k 0 (\<lambda>e. saturating_add e n) m) = column_total m + unat n"
proof -
  have "unat (bt_get_or 0 m k) \<le> column_total m"
  proof (cases "map_of m k")
    case None
    then show ?thesis by (simp add: bt_get_or_def)
  next
    case (Some v)
    then have "unat v \<in> set (map (unat \<circ> snd) m)" by (force dest: map_of_SomeD)
    with Some show ?thesis by (simp add: bt_get_or_def column_total_def member_le_sum_list)
  qed
  with assms(2) have "unat (saturating_add (bt_get_or 0 m k) n) = unat (bt_get_or 0 m k) + unat n"
    by (simp add: unat_saturating_add)
  with column_total_insert [OF assms(1), of k "saturating_add (bt_get_or 0 m k) n"]
  show ?thesis by (simp add: bt_entry_def)
qed

lemma unat_column_sum: "unat (column_sum m) = min (column_total m) (2 ^ 64 - 1)"
proof -
  have "unat (fold (\<lambda>x acc. saturating_add acc x) xs acc) =
      min (unat acc + sum_list (map unat xs)) (2 ^ 64 - 1)" for xs and acc :: u64
  proof (induction xs arbitrary: acc)
    case Nil
    have "unat acc < 2 ^ 64" using unsigned_less [where ?'a = nat and w = acc] by simp
    then show ?case by simp
  next
    case (Cons x xs)
    then show ?case by (simp add: unat_saturating_add)
  qed
  from this [of "map snd m" 0] show ?thesis by (simp add: column_sum_def column_total_def)
qed

lemma pn_value_exact:
  assumes "column_total (pn_pos c) < 2 ^ 63" and "column_total (pn_neg c) < 2 ^ 63"
  shows "pn_value c = int (column_total (pn_pos c)) - int (column_total (pn_neg c))"
proof -
  have "clamp_i64 (column_sum m) = int (column_total m)" if "column_total m < 2 ^ 63" for m
  proof -
    from that have "unat (column_sum m) = column_total m" by (simp add: unat_column_sum)
    then have "uint (column_sum m) = int (column_total m)" by (metis int_nat_eq uint_nat)
    with that show ?thesis by (simp add: clamp_i64_def)
  qed
  with assms show ?thesis by (simp add: pn_value_def i64_saturating_sub_def)
qed

lemma unat_unsigned_abs: "unat (unsigned_abs d) = nat \<bar>sint d\<bar>"
proof -
  have "- (2 ^ 63) \<le> sint d" "sint d < 2 ^ 63"
    using sint_greater_eq [of d] sint_less [of d] by simp_all
  then have "\<bar>sint d\<bar> \<le> 2 ^ 63" by linarith
  then have "uint (of_int \<bar>sint d\<bar> :: u64) = \<bar>sint d\<bar>"
    by (simp add: uint_word_of_int take_bit_int_eq_self)
  then show ?thesis by (simp add: unsigned_abs_def unat_eq_nat_uint)
qed



section \<open>Register\<close>

lemma reg_assign_stamp:
  "reg_assign a ts v r =
    (case reg_actor r of
       None \<Rightarrow> \<lparr>reg_value = v, reg_ts = ts, reg_actor = Some a\<rparr>
     | Some b \<Rightarrow> if (reg_ts r, b) < (ts, a)
                then \<lparr>reg_value = v, reg_ts = ts, reg_actor = Some a\<rparr> else r)"
  by (auto simp: reg_assign_def lww_order_pairs split: option.split)

lemma reg_assign_keeps_max:
  assumes "\<forall>(b, u, w) \<in> set ws. (u, b) < (ts, a)"
  shows "fold (\<lambda>(b, u, w). reg_assign b u w) ws \<lparr>reg_value = v, reg_ts = ts, reg_actor = Some a\<rparr> =
    \<lparr>reg_value = v, reg_ts = ts, reg_actor = Some a\<rparr>"
  using assms by (induction ws) (auto simp: reg_assign_stamp)

definition reg_below :: "u64 \<times> actor_id \<Rightarrow> lww_register \<Rightarrow> bool" where
  "reg_below st r = (case reg_actor r of None \<Rightarrow> True | Some b \<Rightarrow> (reg_ts r, b) < st)"

lemma reg_below_assign: "reg_below st r \<Longrightarrow> (u, b) < st \<Longrightarrow> reg_below st (reg_assign b u w r)"
  by (auto simp: reg_below_def reg_assign_stamp split: option.splits)

lemma reg_below_fold:
  "reg_below st r \<Longrightarrow> \<forall>(b, u, w) \<in> set ws. (u, b) < st \<Longrightarrow>
    reg_below st (fold (\<lambda>(b, u, w). reg_assign b u w) ws r)"
  by (induction ws arbitrary: r) (auto intro: reg_below_assign)

text \<open>
  C35. After any sequence of assignments with pairwise distinct stamps, whatever their order of
  arrival, the register holds exactly the assignment with the greatest (timestamp, actor) stamp.
\<close>

theorem reg_last_write_wins:
  assumes "distinct (map (\<lambda>(b, u, w). (u, b)) ws)"
    and "(a, ts, v) \<in> set ws"
    and "\<forall>(b, u, w) \<in> set ws. (u, b) \<le> (ts, a)"
  shows "fold (\<lambda>(b, u, w). reg_assign b u w) ws reg_new =
    \<lparr>reg_value = v, reg_ts = ts, reg_actor = Some a\<rparr>"
proof -
  from assms(2) obtain xs ys where ws: "ws = xs @ (a, ts, v) # ys" by (auto dest: split_list)
  have lt: "(u, b) < (ts, a)" if m: "(b, u, w) \<in> set xs \<union> set ys" for b u w
  proof -
    have "(u, b) \<noteq> (ts, a)" using assms(1) m by (force simp: ws)
    moreover have "(u, b) \<le> (ts, a)" using assms(3) m by (force simp: ws)
    ultimately show ?thesis by (rule order.not_eq_order_implies_strict)
  qed
  then have below: "\<forall>(b, u, w) \<in> set xs. (u, b) < (ts, a)" "\<forall>(b, u, w) \<in> set ys. (u, b) < (ts, a)"
    by blast+
  let ?r = "fold (\<lambda>(b, u, w). reg_assign b u w) xs reg_new"
  have "reg_below (ts, a) ?r"
    using below(1) by (intro reg_below_fold) (auto simp: reg_below_def reg_new_def)
  then have "reg_assign a ts v ?r = \<lparr>reg_value = v, reg_ts = ts, reg_actor = Some a\<rparr>"
    by (auto simp: reg_below_def reg_assign_stamp split: option.splits)
  with below(2) show ?thesis by (simp add: ws reg_assign_keeps_max)
qed

theorem reg_last_write_wins_witness:
  "fold (\<lambda>(b, u, w). reg_assign b u w)
     [(ActorId ''d'' ''p'', 5, [1]), (ActorId ''d'' ''q'', 9, [2]), (ActorId ''d'' ''p'', 7, [3])]
     reg_new = \<lparr>reg_value = [2], reg_ts = 9, reg_actor = Some (ActorId ''d'' ''q'')\<rparr>"
  by (rule reg_last_write_wins) (simp_all add: less_eq_prod_def)

section \<open>Set and flag\<close>

lemma orset_contains_iff:
  "orset_contains s x \<longleftrightarrow>
    (\<exists>e. map_of (set_elements s) x = Some e \<and> \<not> set (el_adds e) \<subseteq> set (el_removes e))"
  by (auto simp: orset_contains_def el_is_present_def is_present_iff split: option.split)

lemma set_orset_value:
  assumes "orset_ok s"
  shows "set (orset_value s) = {x. orset_contains s x}"
proof -
  have "distinct (map fst (set_elements s))"
    using orset_okD(2) [OF assms] by (rule bt_sorted_distinct)
  then have "map_of (set_elements s) x = Some e \<longleftrightarrow> (x, e) \<in> set (set_elements s)" for x e
    by simp
  moreover have "orset_contains s x \<longleftrightarrow>
      (\<exists>e. map_of (set_elements s) x = Some e \<and> el_is_present e)" for x
    by (auto simp: orset_contains_def split: option.split)
  ultimately have "{x. orset_contains s x} =
      {x. \<exists>e. (x, e) \<in> set (set_elements s) \<and> el_is_present e}"
    by simp
  then show ?thesis by (force simp: orset_value_def)
qed

lemma bs_sorted_orset_value:
  assumes "orset_ok s"
  shows "bs_sorted (orset_value s)"
proof -
  have "sorted_wrt (\<lambda>x y. fst x < fst y) (set_elements s)"
    using orset_okD(2) [OF assms] by (simp add: bt_sorted_def sorted_wrt_map)
  then show ?thesis
    by (simp add: orset_value_def bs_sorted_def sorted_wrt_map sorted_wrt_filter)
qed

lemma orset_tag_unseen:
  assumes "orset_ok s" and "map_of (set_elements s) x = Some e" and "\<not> tag_seen (set_counters s) t"
  shows "t \<notin> set (el_adds e)" and "t \<notin> set (el_removes e)"
  using assms orset_okD(4) by blast+

lemma orset_contains_add:
  assumes "orset_ok s" and "orset_add a x s = Some (s', t)"
  shows "orset_contains s' y \<longleftrightarrow> y = x \<or> orset_contains s y"
proof -
  from orset_add_SomeE [OF assms(2,1)] obtain cs where
    m: "mint a (set_counters s) = Some (cs, t)"
    and look: "map_of (set_elements s') =
      (map_of (set_elements s))(x \<mapsto> (bt_get_or el_default (set_elements s) x)
         \<lparr>el_adds := bs_insert t (el_adds (bt_get_or el_default (set_elements s) x))\<rparr>)" .
  have "\<not> tag_seen (set_counters s) t" using mint_SomeD(3) [OF m] orset_okD(1) [OF assms(1)] by simp
  then have "t \<notin> set (el_removes (bt_get_or el_default (set_elements s) x))"
    using orset_tag_unseen(2) [OF assms(1)]
    by (auto simp: bt_get_or_def el_default_def split: option.split)
  then show ?thesis by (auto simp: orset_contains_iff look)
qed

lemma orset_contains_remove:
  assumes "orset_ok s"
  shows "orset_contains (orset_remove x s) y \<longleftrightarrow> y \<noteq> x \<and> orset_contains s y"
  using orset_okD(2) [OF assms]
  by (auto simp: orset_contains_iff orset_remove_def map_of_bt_modify)

text \<open>
  C36. On a well-formed replica the observed-remove set behaves as a set: after an add the value is
  the old value with the element inserted, after a remove it is the old value without the element,
  and membership is membership in the value.
\<close>

theorem orset_is_a_set:
  assumes "orset_ok s" and "orset_add a x s = Some (s', t)"
  shows "orset_value s' = bs_insert x (orset_value s)
    \<and> orset_value (orset_remove y s) = filter (\<lambda>z. z \<noteq> y) (orset_value s)
    \<and> (orset_contains s z \<longleftrightarrow> z \<in> set (orset_value s))"
proof (intro conjI)
  have ok': "orset_ok s'" using assms by (rule orset_ok_add)
  have okr: "orset_ok (orset_remove y s)" using assms(1) by (rule orset_ok_remove)
  show "orset_value s' = bs_insert x (orset_value s)"
    using orset_contains_add [OF assms]
    by (intro bs_ext bs_sorted_orset_value bs_sorted_insert ok' assms(1))
      (auto simp: set_orset_value ok' assms(1))
  have "bs_sorted (filter (\<lambda>z. z \<noteq> y) (orset_value s))"
    using bs_sorted_orset_value [OF assms(1)] by (simp add: bs_sorted_def sorted_wrt_filter)
  then show "orset_value (orset_remove y s) = filter (\<lambda>z. z \<noteq> y) (orset_value s)"
    using orset_contains_remove [OF assms(1)]
    by (intro bs_ext bs_sorted_orset_value okr) (auto simp: set_orset_value okr assms(1))
  show "orset_contains s z \<longleftrightarrow> z \<in> set (orset_value s)"
    by (simp add: set_orset_value assms(1))
qed

theorem orset_is_a_set_witness:
  "orset_value (fst (the (orset_add (ActorId ''d'' ''p'') [7] orset_new))) = [[7]] \<and>
   orset_value (orset_remove [7] orset_new) = [] \<and> \<not> orset_contains orset_new [7]"
proof -
  obtain s' t where add: "orset_add (ActorId ''d'' ''p'') [7] orset_new = Some (s', t)"
    by (simp add: orset_add_def mint_def orset_new_def checked_add_def bt_get_or_def)
  note f = orset_is_a_set [OF orset_ok_new add]
  have "orset_value orset_new = []" by (simp add: orset_value_def orset_new_def)
  with f [of "[7]" "[7]"] add show ?thesis by simp
qed

text \<open>
  C24. Add wins: an add that the other replica has not observed survives any remove performed
  there, in either merge order.
\<close>

theorem orset_add_wins:
  assumes "orset_ok s" and "orset_ok t" and "orset_add a x s = Some (s', tg)"
    and "bt_get_or 0 (set_counters t) a \<le> bt_get_or 0 (set_counters s) a"
  shows "orset_contains (orset_merge (orset_remove y t) s') x
    \<and> orset_contains (orset_merge s' (orset_remove y t)) x"
proof -
  let ?t = "orset_remove y t"
  have ok: "orset_ok s'" "orset_ok ?t" using assms by (auto intro: orset_ok_add orset_ok_remove)
  from orset_add_SomeE [OF assms(3,1)] obtain cs where
    m: "mint a (set_counters s) = Some (cs, tg)"
    and look: "map_of (set_elements s') =
      (map_of (set_elements s))(x \<mapsto> (bt_get_or el_default (set_elements s) x)
         \<lparr>el_adds := bs_insert tg (el_adds (bt_get_or el_default (set_elements s) x))\<rparr>)" .
  note md = mint_SomeD [OF m orset_okD(1) [OF assms(1)]]
  from md(2,3) assms(4) have unseen: "\<not> tag_seen (set_counters ?t) tg"
    by (auto simp: tag_seen_def orset_remove_def)
  obtain e where e: "map_of (set_elements s') x = Some e" and tg: "tg \<in> set (el_adds e)"
    and ntg: "tg \<notin> set (el_removes e)"
    using orset_tag_unseen(2) [OF assms(1) _ md(3)]
    by (auto simp: look bt_get_or_def el_default_def split: option.splits)
  have "orset_contains (orset_merge ?t s') x"
  proof (cases "map_of (set_elements ?t) x")
    case None
    with e tg ntg show ?thesis by (auto simp: orset_contains_iff orset_lookup_merge ok)
  next
    case (Some u)
    with orset_tag_unseen(2) [OF ok(2) Some unseen] e tg ntg show ?thesis
      by (auto simp: orset_contains_iff orset_lookup_merge ok el_merge_def)
  qed
  then show ?thesis using orset.join_comm [OF ok] by simp
qed

theorem orset_add_wins_witness:
  "orset_contains (orset_merge (orset_remove [7] (fst (the (orset_add (ActorId ''d'' ''q'') [7] orset_new))))
     (fst (the (orset_add (ActorId ''d'' ''p'') [7] orset_new)))) [7]"
proof -
  obtain s tg where s: "orset_add (ActorId ''d'' ''p'') [7] orset_new = Some (s, tg)"
    by (simp add: orset_add_def mint_def orset_new_def checked_add_def bt_get_or_def)
  obtain t tg' where t: "orset_add (ActorId ''d'' ''q'') [7] orset_new = Some (t, tg')"
    and ct: "set_counters t = [(ActorId ''d'' ''q'', 1)]"
    by (simp add: orset_add_def mint_def orset_new_def checked_add_def bt_get_or_def)
  have "orset_ok t" using orset_ok_new t by (rule orset_ok_add)
  from orset_add_wins [OF orset_ok_new this s] s t ct show ?thesis
    by (simp add: bt_get_or_def orset_new_def)
qed

text \<open>
  C37. Enable wins: an enable the other replica has not observed survives a disable performed there;
  with no concurrent enable, a disable turns the flag off.
\<close>

theorem flag_enable_wins:
  assumes "flag_ok f" and "flag_ok g" and "flag_enable a f = Some (f', t)"
    and "bt_get_or 0 (flag_counters g) a \<le> bt_get_or 0 (flag_counters f) a"
  shows "flag_value (flag_merge (flag_disable g) f') \<and> flag_value f'
    \<and> \<not> flag_value (flag_disable f')"
proof (intro conjI)
  from assms(3) obtain cs where m: "mint a (flag_counters f) = Some (cs, t)"
    and f': "f' = f\<lparr>flag_counters := cs, flag_adds := bs_insert t (flag_adds f)\<rparr>"
    by (auto simp: flag_enable_def split: option.splits)
  note md = mint_SomeD [OF m]
  have srt: "bt_sorted (flag_counters f)" using assms(1) by (simp add: flag_ok_def)
  have nf: "t \<notin> set (flag_removes f)" using md(3) [OF srt] assms(1) by (auto simp: flag_ok_def)
  have "\<not> tag_seen (flag_counters g) t" using md(2,3) [OF srt] assms(4) by (auto simp: tag_seen_def)
  then have ng: "t \<notin> set (flag_removes g)" "t \<notin> set (flag_adds g)"
    using assms(2) by (auto simp: flag_ok_def)
  from nf ng show "flag_value (flag_merge (flag_disable g) f')"
    by (auto simp: flag_value_def is_present_iff flag_merge_def flag_disable_def f')
  from nf show "flag_value f'" by (auto simp: flag_value_def is_present_iff f')
  show "\<not> flag_value (flag_disable f')"
    by (auto simp: flag_value_def is_present_iff flag_disable_def f')
qed

theorem flag_enable_wins_witness:
  "flag_value (flag_merge (flag_disable flag_new)
     (fst (the (flag_enable (ActorId ''d'' ''p'') flag_new))))"
proof -
  obtain f t where f: "flag_enable (ActorId ''d'' ''p'') flag_new = Some (f, t)"
    by (simp add: flag_enable_def mint_def flag_new_def checked_add_def bt_get_or_def)
  from flag_enable_wins [OF flag_ok_ops(1) flag_ok_ops(1) f] f show ?thesis by simp
qed

end
