(* ===== verification/Crdt_Map.thy ===== *)
theory Crdt_Map
  imports Crdt_Types
begin

text \<open>
  The observed-remove map of \<open>crates/dyniak/src/datatypes/map.rs\<close>: fields keyed by name and type,
  each holding one of the primitive types or, recursively, another map.  The nesting is a mutual
  datatype (\<open>FieldValue\<close>, \<open>FieldEntry\<close>, \<open>Map\<close>), the merge is recursive, and the well-formedness
  invariant says that every value has the type its key announces.  Merging is shown to be a join by
  induction on the nesting depth, with \<open>keyed_join\<close> carrying each level.
\<close>

section \<open>Fields\<close>

datatype field_type = FT_Counter | FT_OrSet | FT_LwwRegister | FT_EwFlag | FT_NestedMap

fun ft_to_wire :: "field_type \<Rightarrow> int" where
  "ft_to_wire FT_Counter = 1"
| "ft_to_wire FT_OrSet = 2"
| "ft_to_wire FT_LwwRegister = 3"
| "ft_to_wire FT_EwFlag = 4"
| "ft_to_wire FT_NestedMap = 5"

definition ft_from_wire :: "int \<Rightarrow> field_type option" where
  "ft_from_wire code =
     (if code = 1 then Some FT_Counter
      else if code = 2 then Some FT_OrSet
      else if code = 3 then Some FT_LwwRegister
      else if code = 4 then Some FT_EwFlag
      else if code = 5 then Some FT_NestedMap
      else None)"

lemma ft_wire_roundtrip [codec]: "ft_from_wire (ft_to_wire t) = Some t"
  by (cases t) (simp_all add: ft_from_wire_def)

text \<open>Derived \<open>Ord\<close>: name first, then the discriminant of the type.\<close>

datatype field_key = FieldKey (fk_name: bytes) (fk_type: field_type)

definition fk_order :: "field_key \<Rightarrow> bytes \<times> int" where
  "fk_order k = (fk_name k, ft_to_wire (fk_type k))"

lemma fk_order_inject: "fk_order a = fk_order b \<longleftrightarrow> a = b"
proof -
  have "ft_to_wire s = ft_to_wire t \<longleftrightarrow> s = t" for s t
    using ft_wire_roundtrip by (metis option.inject)
  then show ?thesis by (cases a; cases b) (simp add: fk_order_def)
qed

instantiation field_key :: linorder
begin

definition less_eq_field_key :: "field_key \<Rightarrow> field_key \<Rightarrow> bool" where
  "less_eq_field_key a b = (fk_order a \<le> fk_order b)"

definition less_field_key :: "field_key \<Rightarrow> field_key \<Rightarrow> bool" where
  "less_field_key a b = (fk_order a < fk_order b)"

instance
  by standard (auto simp: less_eq_field_key_def less_field_key_def simp flip: fk_order_inject)

end

datatype field_value =
    FV_Counter pn_counter
  | FV_OrSet or_set
  | FV_LwwRegister lww_register
  | FV_EwFlag ew_flag
  | FV_NestedMap crdt_map
and field_entry = FieldEntry (fe_adds: "tag list") (fe_removes: "tag list") (fe_value: field_value)
and crdt_map = CMap (map_fields: "(field_key \<times> field_entry) list") (map_counters: "(actor_id \<times> u64) list")

datatype nested_op =
    Op_Counter "64 word"
  | Op_SetAdd bytes
  | Op_SetRemove bytes
  | Op_RegisterAssign bytes u64
  | Op_Flag bool
  | Op_Map map_op
and map_op = Update field_key nested_op | Remove field_key

section \<open>Operations\<close>

definition map_new :: crdt_map where
  "map_new = CMap [] []"

fun fv_empty_for :: "field_type \<Rightarrow> field_value" where
  "fv_empty_for FT_Counter = FV_Counter pn_new"
| "fv_empty_for FT_OrSet = FV_OrSet orset_new"
| "fv_empty_for FT_LwwRegister = FV_LwwRegister reg_new"
| "fv_empty_for FT_EwFlag = FV_EwFlag flag_new"
| "fv_empty_for FT_NestedMap = FV_NestedMap map_new"

definition fe_new :: "field_type \<Rightarrow> field_entry" where
  "fe_new t = FieldEntry [] [] (fv_empty_for t)"

definition fe_is_present :: "field_entry \<Rightarrow> bool" where
  "fe_is_present e = is_present (fe_adds e) (fe_removes e)"

text \<open>
  \<open>Map::apply\<close> and its helpers; \<open>None\<close> is the panic of a counter overflow, at any level of nesting.
  An operation whose type does not match the field's value leaves the value unchanged.
\<close>

fun map_apply :: "actor_id \<Rightarrow> map_op \<Rightarrow> crdt_map \<Rightarrow> crdt_map option"
  and apply_nested :: "actor_id \<Rightarrow> nested_op \<Rightarrow> field_value \<Rightarrow> field_value option"
where
  "map_apply actor (Update field op) (CMap fs cs) =
     (case mint actor cs of
        None \<Rightarrow> None
      | Some (cs', t) \<Rightarrow>
          (let entry = bt_get_or (fe_new (fk_type field)) fs field in
           case apply_nested actor op (fe_value entry) of
             None \<Rightarrow> None
           | Some v \<Rightarrow>
               Some (CMap (bt_insert field
                       (FieldEntry (bs_insert t (fe_adds entry)) (fe_removes entry) v) fs) cs')))"
| "map_apply actor (Remove field) (CMap fs cs) =
     Some (CMap (bt_modify field
       (\<lambda>e. FieldEntry (fe_adds e) (bs_union (fe_removes e) (fe_adds e)) (fe_value e)) fs) cs)"
| "apply_nested actor (Op_Counter delta) (FV_Counter c) = Some (FV_Counter (pn_apply actor delta c))"
| "apply_nested actor (Op_SetAdd elt) (FV_OrSet s) =
     map_option (\<lambda>(s', _). FV_OrSet s') (orset_add actor elt s)"
| "apply_nested actor (Op_SetRemove elt) (FV_OrSet s) = Some (FV_OrSet (orset_remove elt s))"
| "apply_nested actor (Op_RegisterAssign v ts) (FV_LwwRegister r) =
     Some (FV_LwwRegister (reg_assign actor ts v r))"
| "apply_nested actor (Op_Flag True) (FV_EwFlag f) =
     map_option (\<lambda>(f', _). FV_EwFlag f') (flag_enable actor f)"
| "apply_nested actor (Op_Flag False) (FV_EwFlag f) = Some (FV_EwFlag (flag_disable f))"
| "apply_nested actor (Op_Map inner) (FV_NestedMap m) =
     map_option FV_NestedMap (map_apply actor inner m)"
| "apply_nested actor op v = Some v"

definition map_contains :: "crdt_map \<Rightarrow> field_key \<Rightarrow> bool" where
  "map_contains m field = (case map_of (map_fields m) field of
     None \<Rightarrow> False | Some e \<Rightarrow> fe_is_present e)"

definition map_get :: "crdt_map \<Rightarrow> field_key \<Rightarrow> field_value option" where
  "map_get m field = (case map_of (map_fields m) field of
     None \<Rightarrow> None | Some e \<Rightarrow> if fe_is_present e then Some (fe_value e) else None)"

definition map_value :: "crdt_map \<Rightarrow> (field_key \<times> field_value) list" where
  "map_value m = map (\<lambda>(k, e). (k, fe_value e)) (filter (\<lambda>(k, e). fe_is_present e) (map_fields m))"

text \<open>Serialised form: \<open>raw_fields\<close>, \<open>raw_actor_counters\<close> and the inverse \<open>from_raw\<close>.\<close>

definition map_raw_fields :: "crdt_map \<Rightarrow> (field_key, tag btset \<times> tag btset \<times> field_value) btmap" where
  "map_raw_fields m = map (\<lambda>(k, e). (k, fe_adds e, fe_removes e, fe_value e)) (map_fields m)"

definition map_from_raw ::
  "(field_key, tag btset \<times> tag btset \<times> field_value) btmap \<Rightarrow> counters \<Rightarrow> crdt_map"
where
  "map_from_raw fs cs = CMap (map (\<lambda>(k, adds, removes, value). (k, FieldEntry adds removes value)) fs) cs"

lemma map_raw_roundtrip [codec]: "map_from_raw (map_raw_fields m) (map_counters m) = m"
  by (cases m) (auto simp: map_from_raw_def map_raw_fields_def comp_def intro: map_idI)

fun fv_merge :: "field_value \<Rightarrow> field_value \<Rightarrow> field_value"
  and fe_merge :: "field_entry \<Rightarrow> field_entry \<Rightarrow> field_entry"
  and map_merge :: "crdt_map \<Rightarrow> crdt_map \<Rightarrow> crdt_map"
where
  "fv_merge (FV_Counter a) (FV_Counter b) = FV_Counter (pn_merge a b)"
| "fv_merge (FV_OrSet a) (FV_OrSet b) = FV_OrSet (orset_merge a b)"
| "fv_merge (FV_LwwRegister a) (FV_LwwRegister b) = FV_LwwRegister (reg_merge a b)"
| "fv_merge (FV_EwFlag a) (FV_EwFlag b) = FV_EwFlag (flag_merge a b)"
| "fv_merge (FV_NestedMap a) (FV_NestedMap b) = FV_NestedMap (map_merge a b)"
| "fv_merge self _ = self"
| "fe_merge self (FieldEntry adds removes v) =
     FieldEntry (bs_union (fe_adds self) adds) (bs_union (fe_removes self) removes)
       (fv_merge (fe_value self) v)"
| "map_merge self (CMap fs cs) =
     CMap (fold (\<lambda>(k, e) m. bt_insert k (fe_merge (bt_get_or (fe_new (fk_type k)) m k) e) m)
             fs (map_fields self))
          (counters_merge (map_counters self) cs)"

section \<open>Well-formed maps\<close>

text \<open>
  A field value has the type its key announces and is well formed; \<open>P\<close> is the well-formedness of
  nested maps.  \<open>map_ok n\<close>: a well-formed map of nesting depth at most \<open>n\<close>.
\<close>

fun fv_ok :: "(crdt_map \<Rightarrow> bool) \<Rightarrow> field_type \<Rightarrow> field_value \<Rightarrow> bool" where
  "fv_ok P FT_Counter (FV_Counter c) = pn_ok c"
| "fv_ok P FT_OrSet (FV_OrSet s) = orset_ok s"
| "fv_ok P FT_LwwRegister (FV_LwwRegister r) = reg_ok r"
| "fv_ok P FT_EwFlag (FV_EwFlag f) = flag_ok f"
| "fv_ok P FT_NestedMap (FV_NestedMap m) = P m"
| "fv_ok P _ _ = False"

definition fe_ok :: "(crdt_map \<Rightarrow> bool) \<Rightarrow> field_key \<Rightarrow> field_entry \<Rightarrow> bool" where
  "fe_ok P k e \<longleftrightarrow> bs_sorted (fe_adds e) \<and> bs_sorted (fe_removes e) \<and> fv_ok P (fk_type k) (fe_value e)"

definition fe_seen :: "counters \<Rightarrow> field_entry \<Rightarrow> bool" where
  "fe_seen cs e \<longleftrightarrow> (\<forall>t \<in> set (fe_adds e) \<union> set (fe_removes e). tag_seen cs t)"

primrec map_ok :: "nat \<Rightarrow> crdt_map \<Rightarrow> bool" where
  "map_ok 0 m \<longleftrightarrow> map_fields m = [] \<and> bt_sorted (map_counters m)"
| "map_ok (Suc n) m \<longleftrightarrow> bt_sorted (map_counters m) \<and> bt_all (fe_ok (map_ok n)) (map_fields m)
     \<and> (\<forall>(k, e) \<in> set (map_fields m). fe_seen (map_counters m) e)"

fun_cases fv_okE: "fv_ok P t v"

lemma map_ok_sorted: "map_ok n m \<Longrightarrow> bt_sorted (map_counters m) \<and> bt_sorted (map_fields m)"
  by (cases n) (auto dest: bt_all_sorted)

lemma map_ok_new: "map_ok n map_new"
  by (cases n) (simp_all add: map_new_def)

lemma fv_ok_mono: "fv_ok P t v \<Longrightarrow> (\<And>m. P m \<Longrightarrow> Q m) \<Longrightarrow> fv_ok Q t v"
  by (auto elim!: fv_okE)

lemma map_ok_Suc: "map_ok n m \<Longrightarrow> map_ok (Suc n) m"
proof (induction n arbitrary: m)
  case 0
  then show ?case by simp
next
  case (Suc n)
  then show ?case by (auto simp: bt_all_def fe_ok_def intro: fv_ok_mono)
qed

lemma map_ok_mono: "n \<le> n' \<Longrightarrow> map_ok n m \<Longrightarrow> map_ok n' m"
  by (induction n' rule: dec_induct) (auto intro: map_ok_Suc simp del: map_ok.simps)

section \<open>Merging is a join\<close>

lemma fe_merge_eq:
  "fe_merge a b = FieldEntry (bs_union (fe_adds a) (fe_adds b)) (bs_union (fe_removes a) (fe_removes b))
     (fv_merge (fe_value a) (fe_value b))"
  by (cases b) simp

lemma map_merge_eq:
  "map_merge a b = CMap (bt_join (\<lambda>k. fe_new (fk_type k)) fe_merge (map_fields a) (map_fields b))
     (counters_merge (map_counters a) (map_counters b))"
  by (cases b) (simp add: bt_join_def bt_entry_def)

lemma fv_laws:
  assumes sl: "join_semilattice P map_merge" and new: "P map_new"
    and unit: "\<And>m. P m \<Longrightarrow> map_merge map_new m = m"
  shows "fv_ok P t (fv_empty_for t)"
    and "fv_ok P t a \<Longrightarrow> fv_ok P t b \<Longrightarrow> fv_ok P t (fv_merge a b)"
    and "fv_ok P t a \<Longrightarrow> fv_merge (fv_empty_for t) a = a"
    and "fv_ok P t a \<Longrightarrow> fv_ok P t b \<Longrightarrow> fv_ok P t c \<Longrightarrow>
      fv_merge (fv_merge a b) c = fv_merge a (fv_merge b c)"
    and "fv_ok P t a \<Longrightarrow> fv_ok P t b \<Longrightarrow> fv_merge a b = fv_merge b a"
    and "fv_ok P t a \<Longrightarrow> fv_merge a a = a"
proof -
  note m = join_semilattice.ok_join [OF sl] join_semilattice.join_assoc [OF sl]
    join_semilattice.join_comm [OF sl] join_semilattice.join_idem [OF sl]
  show "fv_ok P t (fv_empty_for t)"
    using new by (cases t) (auto intro: crdt_ok)
  show "fv_ok P t a \<Longrightarrow> fv_ok P t b \<Longrightarrow> fv_ok P t (fv_merge a b)"
    by (auto elim!: fv_okE intro: m pn.ok_join orset.ok_join reg.ok_join flag.ok_join
        simp del: map_merge.simps)
  show "fv_ok P t a \<Longrightarrow> fv_merge (fv_empty_for t) a = a"
    by (auto elim!: fv_okE simp: pn_merge_new orset_merge_new reg_merge_new flag_merge_new unit
        simp del: map_merge.simps)
  show "fv_ok P t a \<Longrightarrow> fv_ok P t b \<Longrightarrow> fv_ok P t c \<Longrightarrow>
      fv_merge (fv_merge a b) c = fv_merge a (fv_merge b c)"
    by (auto elim!: fv_okE intro: m pn.join_assoc orset.join_assoc reg.join_assoc flag.join_assoc
        simp del: map_merge.simps)
  show "fv_ok P t a \<Longrightarrow> fv_ok P t b \<Longrightarrow> fv_merge a b = fv_merge b a"
    by (auto elim!: fv_okE intro: m pn.join_comm orset.join_comm reg.join_comm flag.join_comm
        simp del: map_merge.simps)
  show "fv_ok P t a \<Longrightarrow> fv_merge a a = a"
    by (auto elim!: fv_okE intro: m pn.join_idem orset.join_idem reg.join_idem flag.join_idem
        simp del: map_merge.simps)
qed

lemma fe_keyed_join:
  assumes "join_semilattice P map_merge" and "P map_new"
    and "\<And>m. P m \<Longrightarrow> map_merge map_new m = m"
  shows "keyed_join (fe_ok P) (\<lambda>k. fe_new (fk_type k)) fe_merge"
proof
  note l = fv_laws [OF assms]
  fix k and a b c :: field_entry
  show "fe_ok P k (fe_new (fk_type k))" by (simp add: fe_ok_def fe_new_def l)
  show "fe_ok P k a \<Longrightarrow> fe_ok P k b \<Longrightarrow> fe_ok P k (fe_merge a b)"
    by (simp add: fe_ok_def fe_merge_eq l bs_sorted_union)
  show "fe_ok P k a \<Longrightarrow> fe_merge (fe_new (fk_type k)) a = a"
    by (cases a) (simp add: fe_ok_def fe_new_def l bs_union_Nil)
  show "fe_ok P k a \<Longrightarrow> fe_ok P k b \<Longrightarrow> fe_ok P k c \<Longrightarrow>
      fe_merge (fe_merge a b) c = fe_merge a (fe_merge b c)"
    using l(4) [of "fk_type k" "fe_value a" "fe_value b" "fe_value c"]
    by (simp add: fe_ok_def fe_merge_eq tags.join_assoc)
  show "fe_ok P k a \<Longrightarrow> fe_ok P k b \<Longrightarrow> fe_merge a b = fe_merge b a"
    using l(5) [of "fk_type k" "fe_value a" "fe_value b"] tags.join_comm [of "fe_adds a" "fe_adds b"]
      tags.join_comm [of "fe_removes a" "fe_removes b"]
    by (simp add: fe_ok_def fe_merge_eq)
  show "fe_ok P k a \<Longrightarrow> fe_merge a a = a"
    using l(6) [of "fk_type k" "fe_value a"] by (cases a) (simp add: fe_ok_def tags.join_idem)
qed

lemma fe_seen_merge:
  assumes "bt_sorted cs" "bt_sorted ds"
  shows "fe_seen cs e \<Longrightarrow> fe_seen (counters_merge cs ds) e"
    and "fe_seen ds e \<Longrightarrow> fe_seen (counters_merge cs ds) e"
    and "fe_seen ds e \<Longrightarrow> fe_seen ds e' \<Longrightarrow> fe_seen ds (fe_merge e e')"
  using tag_seen_merge [OF assms] by (auto simp: fe_seen_def fe_merge_eq)

lemma map_ok_merge_seen:
  assumes kj: "keyed_join okv dflt fe_merge" and ok: "bt_all okv (map_fields a)" "bt_all okv (map_fields b)"
    and srt: "bt_sorted (map_counters a)" "bt_sorted (map_counters b)"
    and seen: "\<forall>(k, e) \<in> set (map_fields a). fe_seen (map_counters a) e"
      "\<forall>(k, e) \<in> set (map_fields b). fe_seen (map_counters b) e"
  shows "\<forall>(k, e) \<in> set (bt_join dflt fe_merge (map_fields a) (map_fields b)).
    fe_seen (counters_merge (map_counters a) (map_counters b)) e"
proof safe
  let ?j = "bt_join dflt fe_merge (map_fields a) (map_fields b)"
    and ?c = "counters_merge (map_counters a) (map_counters b)"
  fix k e assume "(k, e) \<in> set ?j"
  moreover have "bt_sorted ?j" using ok by (simp add: bt_sorted_join bt_all_sorted [of okv])
  ultimately have "map_of ?j k = Some e" by (simp add: bt_sorted_distinct)
  moreover have A: "map_of (map_fields a) k = Some x \<Longrightarrow> fe_seen ?c x" for x
    using seen(1) by (auto dest!: map_of_SomeD intro: fe_seen_merge(1) [OF srt])
  moreover have B: "map_of (map_fields b) k = Some x \<Longrightarrow> fe_seen ?c x" for x
    using seen(2) by (auto dest!: map_of_SomeD intro: fe_seen_merge(2) [OF srt])
  ultimately show "fe_seen ?c e"
    using fe_seen_merge(3) [OF srt(1) counters_sorted [OF srt(1)]]
    by (auto simp: keyed_join.lookup_join [OF kj ok] simp del: fe_merge.simps split: option.splits)
qed

lemma map_level:
  assumes kj: "keyed_join (fe_ok (map_ok n)) (\<lambda>k. fe_new (fk_type k)) fe_merge"
  shows "join_semilattice (map_ok (Suc n)) map_merge"
    and "map_ok (Suc n) m \<Longrightarrow> map_merge map_new m = m"
proof -
  note sl = keyed_join.maps_join [OF kj]
  note j = join_semilattice.ok_join [OF sl] join_semilattice.join_assoc [OF sl]
    join_semilattice.join_comm [OF sl] join_semilattice.join_idem [OF sl]
  show "join_semilattice (map_ok (Suc n)) map_merge"
  proof
    fix a b c assume ok: "map_ok (Suc n) a" "map_ok (Suc n) b"
    then show "map_ok (Suc n) (map_merge a b)"
      using map_ok_merge_seen [OF kj, of a b] by (simp add: map_merge_eq j(1) counters_sorted)
    show "map_merge a b = map_merge b a"
      using ok j(3) [of "map_fields a" "map_fields b"]
        counters_laws(1) [of "map_counters a" "map_counters b"] by (simp add: map_merge_eq)
    show "map_merge a a = a"
      using ok j(4) [of "map_fields a"]
        counters_laws(3) [of "map_counters a" "map_counters a"] by (cases a) (simp add: map_merge_eq)
    assume "map_ok (Suc n) c"
    then show "map_merge (map_merge a b) c = map_merge a (map_merge b c)"
      using ok by (simp add: map_merge_eq j(2) counters_laws(2))
  qed
  show "map_ok (Suc n) m \<Longrightarrow> map_merge map_new m = m"
    by (cases m)
      (simp add: map_merge_eq map_new_def counters_merge_Nil keyed_join.join_Nil [OF kj])
qed

lemma map_join:
  "join_semilattice (map_ok n) map_merge \<and> (\<forall>m. map_ok n m \<longrightarrow> map_merge map_new m = m)"
proof (induction n)
  case 0
  show ?case
  proof (intro conjI allI impI join_semilattice.intro)
    fix a b c :: crdt_map
    assume ok: "map_ok 0 a" "map_ok 0 b"
    then show "map_ok 0 (map_merge a b)" by (simp add: map_merge_eq counters_sorted)
    show "map_merge a b = map_merge b a"
      using ok counters_laws(1) by (simp add: map_merge_eq)
    assume "map_ok 0 c"
    with ok show "map_merge (map_merge a b) c = map_merge a (map_merge b c)"
      by (simp add: map_merge_eq counters_laws(2))
  next
    fix a assume "map_ok 0 a"
    then show "map_merge a a = a" and "map_merge map_new a = a"
      by (cases a; simp add: map_merge_eq map_new_def counters_merge_Nil counters_laws(3))+
  qed
next
  case (Suc n)
  have "keyed_join (fe_ok (map_ok n)) (\<lambda>k. fe_new (fk_type k)) fe_merge"
    using Suc map_ok_new by (intro fe_keyed_join) auto
  from map_level [OF this] show ?case by blast
qed

interpretation nmap: join_semilattice "map_ok n" map_merge for n
  using map_join by blast

section \<open>Operations keep the invariant\<close>

lemma fe_ok_mono: "fe_ok (map_ok n) k e \<Longrightarrow> n \<le> n' \<Longrightarrow> fe_ok (map_ok n') k e"
  by (auto simp: fe_ok_def intro: fv_ok_mono map_ok_mono)

lemma bt_all_mono: "bt_all P m \<Longrightarrow> (\<And>k v. P k v \<Longrightarrow> Q k v) \<Longrightarrow> bt_all Q m"
  by (auto simp: bt_all_def)

lemma map_ok_field:
  "map_ok (Suc n) (CMap fs cs) \<Longrightarrow> fe_ok (map_ok n) k (bt_get_or (fe_new (fk_type k)) fs k)
     \<and> fe_seen cs (bt_get_or (fe_new (fk_type k)) fs k)"
  using fv_laws(1) [of "map_ok n" "fk_type k"] map_join [of n] map_ok_new [of n]
  by (auto simp: bt_get_or_def fe_ok_def fe_new_def fe_seen_def bt_all_def dest!: map_of_SomeD
      split: option.split)

lemma map_ok_insert:
  assumes "map_ok (Suc n) (CMap fs cs)" and "fe_ok (map_ok n) k e" and "fe_seen cs' e"
    and "bt_sorted cs'" and "\<And>t. tag_seen cs t \<Longrightarrow> tag_seen cs' t"
  shows "map_ok (Suc n) (CMap (bt_insert k e fs) cs')"
proof -
  have "fe_seen cs' e'" if "(k', e') \<in> set (bt_insert k e fs)" for k' e'
    using set_bt_insert [OF that] assms by (auto simp: fe_seen_def)
  then show ?thesis using assms by (auto intro: bt_all_insert)
qed

lemma mint_fe_ok:
  assumes "mint actor cs = Some (cs', t)" "bt_sorted cs" "fe_ok P k e" "fe_seen cs e"
  shows "fe_seen cs' (FieldEntry (bs_insert t (fe_adds e)) (fe_removes e) v)"
    and "fv_ok P (fk_type k) v \<Longrightarrow> fe_ok P k (FieldEntry (bs_insert t (fe_adds e)) (fe_removes e) v)"
  using assms(3,4) mint_SomeD [OF assms(1,2)] by (auto simp: fe_seen_def fe_ok_def bs_sorted_insert)

lemma apply_keeps_ok:
  shows "map_ok n m \<Longrightarrow> map_apply actor op m = Some m' \<Longrightarrow> \<exists>n'. map_ok n' m'"
    and "fv_ok (map_ok n) t v \<Longrightarrow> apply_nested actor nop v = Some v' \<Longrightarrow> \<exists>n'. fv_ok (map_ok n') t v'"
proof (induction actor op m and actor nop v arbitrary: n m' and n t v' rule: map_apply_apply_nested.induct)
  case (1 actor field op fs cs)
  let ?e = "bt_get_or (fe_new (fk_type field)) fs field"
  from 1(3) obtain cs' t v where m: "mint actor cs = Some (cs', t)"
    and v: "apply_nested actor op (fe_value ?e) = Some v"
    and m': "m' = CMap (bt_insert field (FieldEntry (bs_insert t (fe_adds ?e)) (fe_removes ?e) v) fs) cs'"
    by (auto simp: Let_def split: option.splits prod.splits)
  have ok: "map_ok (Suc n) (CMap fs cs)" using 1(2) by (rule map_ok_Suc)
  note e = map_ok_field [OF ok, of field]
  then obtain k where k: "fv_ok (map_ok k) (fk_type field) v"
    using 1(1) [OF m refl refl _ v] by (auto simp: fe_ok_def)
  let ?n = "max n k"
  have cs: "bt_sorted cs" using ok by simp
  have ok': "map_ok (Suc ?n) (CMap fs cs)" using map_ok_mono [OF _ ok] by (simp del: map_ok.simps)
  have "fv_ok (map_ok ?n) (fk_type field) v" using k by (rule fv_ok_mono) (rule map_ok_mono [of k], simp)
  moreover have "fe_ok (map_ok ?n) field ?e" using e fe_ok_mono by auto
  ultimately have "map_ok (Suc ?n) m'"
    unfolding m' using mint_fe_ok [OF m cs] mint_SomeD(1,5) [OF m cs] e
    by (intro map_ok_insert [OF ok']) auto
  then show ?case ..
next
  case (2 actor field fs cs)
  have ok: "map_ok (Suc n) (CMap fs cs)" using 2(1) by (rule map_ok_Suc)
  show ?case
  proof (cases "map_of fs field")
    case None
    with 2 show ?thesis by (auto simp: bt_modify_def)
  next
    case (Some e)
    have "fe_ok (map_ok n) field e \<and> fe_seen cs e"
      using map_ok_field [OF ok, of field] Some by (simp add: bt_get_or_def)
    then have "map_ok (Suc n) m'"
      using 2(2) Some ok
      by (auto simp: bt_modify_def fe_ok_def fe_seen_def bs_sorted_union simp del: map_ok.simps
          intro!: map_ok_insert) auto
    then show ?thesis ..
  qed
qed (auto elim!: fv_okE intro: crdt_ok orset_ok_add orset_ok_remove flag_ok_enable)

section \<open>Behaviour\<close>

lemma map_applyE:
  assumes "map_apply actor (Update field op) m = Some m'"
  obtains cs' t v where "mint actor (map_counters m) = Some (cs', t)"
    and "apply_nested actor op (fe_value (bt_get_or (fe_new (fk_type field)) (map_fields m) field)) = Some v"
    and "m' = CMap (bt_insert field
        (FieldEntry (bs_insert t (fe_adds (bt_get_or (fe_new (fk_type field)) (map_fields m) field)))
           (fe_removes (bt_get_or (fe_new (fk_type field)) (map_fields m) field)) v) (map_fields m)) cs'"
  using assms by (cases m) (auto simp: Let_def split: option.splits prod.splits)

lemma map_remove_eq:
  "map_apply actor (Remove field) m = Some (CMap (bt_modify field
       (\<lambda>e. FieldEntry (fe_adds e) (bs_union (fe_removes e) (fe_adds e)) (fe_value e)) (map_fields m))
     (map_counters m))"
  by (cases m) simp

lemma map_lookup_ok:
  assumes "map_ok n m" and "map_of (map_fields m) k = Some e"
  shows "fe_seen (map_counters m) e"
  using assms by (cases n) (auto dest!: map_of_SomeD)

lemma map_lookup_merge:
  assumes "map_ok n a" "map_ok n b"
  shows "map_of (map_fields (map_merge a b)) k =
    (case (map_of (map_fields a) k, map_of (map_fields b) k) of
       (x, None) \<Rightarrow> x | (None, Some v) \<Rightarrow> Some v | (Some u, Some v) \<Rightarrow> Some (fe_merge u v))"
proof -
  have ok: "map_ok (Suc n) a" "map_ok (Suc n) b" using assms map_ok_Suc by blast+
  have "keyed_join (fe_ok (map_ok n)) (\<lambda>k. fe_new (fk_type k)) fe_merge"
    using map_join [of n] map_ok_new by (intro fe_keyed_join) auto
  from keyed_join.lookup_join [OF this] ok show ?thesis by (simp add: map_merge_eq)
qed

text \<open>A map in which \<open>peer\<close> has enabled one flag: \<open>map_apply\<close> on the empty map computes it.\<close>

definition enabled_by :: "string \<Rightarrow> crdt_map" where
  "enabled_by peer = (let a = ActorId ''dc'' peer in
     CMap [(FieldKey [1] FT_EwFlag, FieldEntry [Tag a 1] []
        (FV_EwFlag \<lparr>flag_adds = [Tag a 1], flag_removes = [], flag_counters = [(a, 1)]\<rparr>))] [(a, 1)])"

lemma enabled_by_apply:
  "map_apply (ActorId ''dc'' peer) (Update (FieldKey [1] FT_EwFlag) (Op_Flag True)) map_new
     = Some (enabled_by peer)"
  by (simp add: map_new_def mint_def checked_add_def bt_get_or_def fe_new_def flag_enable_def
      flag_new_def enabled_by_def Let_def)

lemma enabled_by_ok: "map_ok (Suc 0) (enabled_by peer)"
  by (simp add: enabled_by_def Let_def bt_sorted_def bt_all_def fe_ok_def flag_ok_def fe_seen_def
      tag_seen_def bt_get_or_def)

text \<open>
  C1. Replicas of a map of any nesting depth that have merged the same set of states, in any order
  and with any repetition, hold the same state.
\<close>

theorem map_replicas_converge:
  assumes "map_ok n m" and "\<forall>x \<in> set xs. map_ok n x" and "set ys = set xs"
  shows "fold (\<lambda>x s. map_merge s x) ys m = fold (\<lambda>x s. map_merge s x) xs m"
  using assms by (rule nmap.fold_join_converges)

theorem map_replicas_converge_witness:
  "fold (\<lambda>x s. map_merge s x) [enabled_by ''q'', enabled_by ''p'', enabled_by ''q''] map_new
     = fold (\<lambda>x s. map_merge s x) [enabled_by ''p'', enabled_by ''q''] map_new"
  by (rule map_replicas_converge [of "Suc 0"]) (auto simp: enabled_by_ok map_ok_new simp del: map_ok.simps)

text \<open>
  C17. An update makes its field present, with the nested operation applied to the value the field
  had (or to the empty value of its type), and leaves every other field's value alone; a remove
  makes exactly its field absent; and both keep the map well formed.
\<close>

theorem map_is_a_map:
  assumes "map_ok n m"
  shows "(\<forall>m'. map_apply actor (Update field op) m = Some m' \<longrightarrow>
      (\<exists>v. apply_nested actor op (fe_value (bt_get_or (fe_new (fk_type field)) (map_fields m) field)) = Some v
         \<and> map_get m' = (map_get m)(field \<mapsto> v)) \<and> (\<exists>n'. map_ok n' m'))
    \<and> (\<exists>m'. map_apply actor (Remove field) m = Some m' \<and> map_get m' = (map_get m)(field := None)
         \<and> (\<exists>n'. map_ok n' m'))"
proof (intro conjI allI impI)
  fix m' assume a: "map_apply actor (Update field op) m = Some m'"
  show "\<exists>n'. map_ok n' m'" using apply_keeps_ok(1) [OF assms a] .
  let ?e = "bt_get_or (fe_new (fk_type field)) (map_fields m) field"
  note srt = map_ok_sorted [OF assms]
  from a obtain cs' t v where m: "mint actor (map_counters m) = Some (cs', t)"
    and v: "apply_nested actor op (fe_value ?e) = Some v"
    and m': "m' = CMap (bt_insert field (FieldEntry (bs_insert t (fe_adds ?e)) (fe_removes ?e) v)
      (map_fields m)) cs'" by (rule map_applyE)
  have "t \<notin> set (fe_removes ?e)"
    using mint_SomeD(3) [OF m] srt map_lookup_ok [OF assms, of field]
    by (auto simp: bt_get_or_def fe_new_def fe_seen_def split: option.splits)
  then have "map_get m' = (map_get m)(field \<mapsto> v)"
    using srt by (auto simp: fun_eq_iff map_get_def m' map_of_bt_insert fe_is_present_def
        is_present_def list_ex_iff)
  with v show "\<exists>v. apply_nested actor op (fe_value ?e) = Some v \<and> map_get m' = (map_get m)(field \<mapsto> v)"
    by blast
next
  obtain m' where a: "map_apply actor (Remove field) m = Some m'" by (simp add: map_remove_eq)
  have "map_get m' k = ((map_get m)(field := None)) k" for k
    using a map_ok_sorted [OF assms]
    by (cases "k = field")
      (auto simp: map_get_def map_remove_eq map_of_bt_modify fe_is_present_def is_present_def
        list_ex_iff split: option.splits)
  then have "map_get m' = (map_get m)(field := None)" ..
  with a apply_keeps_ok(1) [OF assms a]
  show "\<exists>m'. map_apply actor (Remove field) m = Some m' \<and> map_get m' = (map_get m)(field := None)
         \<and> (\<exists>n'. map_ok n' m')" by blast
qed

theorem map_is_a_map_witness:
  "(\<exists>v. map_get (enabled_by ''p'') = (map_get map_new)(FieldKey [1] FT_EwFlag \<mapsto> v))
    \<and> (\<exists>m'. map_apply (ActorId ''dc'' ''p'') (Remove (FieldKey [1] FT_EwFlag)) map_new = Some m'
         \<and> map_get m' (FieldKey [1] FT_EwFlag) = None)"
  using map_is_a_map [OF map_ok_new, of "ActorId ''dc'' ''p''" "FieldKey [1] FT_EwFlag" "Op_Flag True"]
  by (auto simp: enabled_by_apply)

text \<open>
  C16. Update wins: an update that the other replica has not observed survives a concurrent remove
  of the same field there, in either merge order.
\<close>

theorem map_update_wins:
  assumes "map_ok n m'" and "map_ok n r'" and "map_ok n m" and "map_ok n r"
    and "map_apply actor (Update field op) m = Some m'"
    and "map_apply remover (Remove field) r = Some r'"
    and "bt_get_or 0 (map_counters r) actor \<le> bt_get_or 0 (map_counters m) actor"
  shows "map_contains (map_merge m' r') field \<and> map_contains (map_merge r' m') field"
proof -
  let ?e = "bt_get_or (fe_new (fk_type field)) (map_fields m) field"
  note srt = map_ok_sorted [OF assms(3)]
  from assms(5) obtain cs' t v where mt: "mint actor (map_counters m) = Some (cs', t)"
    and m': "m' = CMap (bt_insert field (FieldEntry (bs_insert t (fe_adds ?e)) (fe_removes ?e) v)
      (map_fields m)) cs'" by (rule map_applyE)
  note md = mint_SomeD [OF mt conjunct1 [OF srt]]
  have ntg: "t \<notin> set (fe_removes ?e)"
    using md(3) map_lookup_ok [OF assms(3), of field]
    by (auto simp: bt_get_or_def fe_new_def fe_seen_def split: option.splits)
  have unseen: "\<not> tag_seen (map_counters r') t"
    using assms(6,7) md(2,3) by (auto simp: map_remove_eq tag_seen_def)
  obtain e where e: "map_of (map_fields m') field = Some e" "t \<in> set (fe_adds e)" "t \<notin> set (fe_removes e)"
    using ntg srt by (auto simp: m' map_of_bt_insert)
  have "t \<notin> set (fe_removes u)" if "map_of (map_fields r') field = Some u" for u
    using map_lookup_ok [OF assms(2) that] unseen by (auto simp: fe_seen_def)
  with e have "map_contains (map_merge m' r') field"
    by (auto simp: map_contains_def map_lookup_merge [OF assms(1,2)] fe_merge_eq fe_is_present_def
        is_present_def list_ex_iff simp del: map_merge.simps fe_merge.simps split: option.splits)
  then show ?thesis using nmap.join_comm [OF assms(1,2)] by simp
qed

theorem map_update_wins_witness:
  "map_contains (map_merge (enabled_by ''p'')
     (the (map_apply (ActorId ''dc'' ''q'') (Remove (FieldKey [1] FT_EwFlag)) (enabled_by ''q''))))
     (FieldKey [1] FT_EwFlag)"
proof -
  let ?k = "FieldKey [1] FT_EwFlag" and ?q = "ActorId ''dc'' ''q''"
  obtain r' where r': "map_apply ?q (Remove ?k) (enabled_by ''q'') = Some r'"
    by (simp add: map_remove_eq)
  then have "map_ok (Suc 0) r'"
    by (auto simp: enabled_by_def Let_def bt_modify_def bs_union_def fe_ok_def flag_ok_def bt_all_def bt_sorted_def
        fe_seen_def tag_seen_def bt_get_or_def)
  moreover have "map_counters (enabled_by ''q'') = [(?q, 1)]" by (simp add: enabled_by_def Let_def)
  ultimately show ?thesis
    using map_update_wins [OF enabled_by_ok _ map_ok_new enabled_by_ok enabled_by_apply r', of "''p''"] r'
    by (simp add: bt_get_or_def map_new_def del: map_ok.simps)
qed

end
