(* ===== verification/Mbuf.thy ===== *)
theory Mbuf
  imports Prelude
begin

text \<open>
  The pooled byte buffers of \<open>crates/dynomite/src/io/mbuf.rs\<close>: chunks with read and write cursors, the
  tail queue of chunks, and the pool that recycles them.  A failed assertion is \<open>None\<close>.  A chunk is
  shown to be a bounded first-in first-out byte queue (the interface \<open>byte_fifo\<close>) that never touches
  its reserved tail, and the pool to hand out clean chunks of its own size only.
\<close>

unbundle bit_operations_syntax

section \<open>Chunks\<close>

definition MBUF_MIN_SIZE :: nat where "MBUF_MIN_SIZE = 512"
definition MBUF_MAX_SIZE :: nat where "MBUF_MAX_SIZE = 512000"
definition MBUF_ESIZE :: nat where "MBUF_ESIZE = 16"
definition MBUF_HSIZE :: nat where "MBUF_HSIZE = 64"

definition chunk_data_size :: "nat \<Rightarrow> nat" where
  "chunk_data_size chunk_size = chunk_size + MBUF_ESIZE - MBUF_HSIZE"

record mbuf =
  mb_buf :: bytes
  mb_pos :: nat
  mb_last :: nat
  mb_end :: nat
  mb_flags :: u32
  mb_owner :: "u64 option"

definition mbuf_with_chunk_size :: "nat \<Rightarrow> mbuf option" where
  "mbuf_with_chunk_size chunk_size =
     (if MBUF_MIN_SIZE \<le> chunk_size \<and> chunk_size \<le> MBUF_MAX_SIZE then
        (let buf = replicate (chunk_data_size chunk_size) 0
         in Some \<lparr>mb_buf = buf, mb_pos = 0, mb_last = 0, mb_end = length buf - MBUF_ESIZE, mb_flags = 0, mb_owner = None\<rparr>)
      else None)"

definition mbuf_chunk_size :: "mbuf \<Rightarrow> nat" where
  "mbuf_chunk_size m = length (mb_buf m) + MBUF_HSIZE - MBUF_ESIZE"

definition mbuf_len :: "mbuf \<Rightarrow> nat" where "mbuf_len m = mb_last m - mb_pos m"
definition mbuf_remaining :: "mbuf \<Rightarrow> nat" where "mbuf_remaining m = mb_end m - mb_last m"
definition mbuf_is_empty :: "mbuf \<Rightarrow> bool" where "mbuf_is_empty m \<longleftrightarrow> mb_pos m = mb_last m"
definition mbuf_is_full :: "mbuf \<Rightarrow> bool" where "mbuf_is_full m \<longleftrightarrow> mb_last m = mb_end m"

definition mbuf_rewind :: "mbuf \<Rightarrow> mbuf" where
  "mbuf_rewind m = m\<lparr>mb_pos := 0, mb_last := 0\<rparr>"

definition mbuf_set_flag :: "u32 \<Rightarrow> bool \<Rightarrow> mbuf \<Rightarrow> mbuf" where
  "mbuf_set_flag flag on m = m\<lparr>mb_flags := (if on then mb_flags m OR flag else mb_flags m AND NOT flag)\<rparr>"

definition mbuf_set_owner :: "u64 option \<Rightarrow> mbuf \<Rightarrow> mbuf" where
  "mbuf_set_owner owner m = m\<lparr>mb_owner := owner\<rparr>"

definition mbuf_readable :: "mbuf \<Rightarrow> bytes" where
  "mbuf_readable m = slice (mb_buf m) (mb_pos m) (mb_last m)"

text \<open>\<open>buf[i..i + xs.len()].copy_from_slice(xs)\<close>.\<close>

definition overwrite :: "bytes \<Rightarrow> nat \<Rightarrow> bytes \<Rightarrow> bytes" where
  "overwrite buf i xs = take i buf @ xs @ drop (i + length xs) buf"

definition mbuf_recv :: "bytes \<Rightarrow> mbuf \<Rightarrow> nat \<times> mbuf" where
  "mbuf_recv src m =
     (let n = min (length src) (mbuf_remaining m)
      in (n, m\<lparr>mb_buf := overwrite (mb_buf m) (mb_last m) (take n src), mb_last := mb_last m + n\<rparr>))"

text \<open>\<open>send\<close> into a destination of \<open>room\<close> bytes: the bytes copied and the advanced chunk.\<close>

definition mbuf_send :: "nat \<Rightarrow> mbuf \<Rightarrow> bytes \<times> mbuf" where
  "mbuf_send room m =
     (let n = min room (mbuf_len m)
      in (slice (mb_buf m) (mb_pos m) (mb_pos m + n), m\<lparr>mb_pos := mb_pos m + n\<rparr>))"

definition mbuf_copy_from_slice :: "bytes \<Rightarrow> mbuf \<Rightarrow> mbuf option" where
  "mbuf_copy_from_slice src m =
     (if length src \<le> mbuf_remaining m
      then Some (m\<lparr>mb_buf := overwrite (mb_buf m) (mb_last m) src, mb_last := mb_last m + length src\<rparr>)
      else None)"

definition mbuf_append :: "mbuf \<Rightarrow> mbuf \<Rightarrow> nat \<times> mbuf" where
  "mbuf_append other m = mbuf_recv (mbuf_readable other) m"

definition mbuf_advance_pos :: "nat \<Rightarrow> mbuf \<Rightarrow> mbuf option" where
  "mbuf_advance_pos n m = (if n \<le> mbuf_len m then Some (m\<lparr>mb_pos := mb_pos m + n\<rparr>) else None)"

definition mbuf_advance_last :: "nat \<Rightarrow> mbuf \<Rightarrow> mbuf option" where
  "mbuf_advance_last n m = (if n \<le> mbuf_remaining m then Some (m\<lparr>mb_last := mb_last m + n\<rparr>) else None)"

section \<open>The pool\<close>

record mbuf_pool =
  pool_chunk_size :: nat
  pool_max_free :: nat
  pool_free :: "bytes list"
  pool_total_allocated :: u64

definition pool_new :: "nat \<Rightarrow> nat \<Rightarrow> mbuf_pool option" where
  "pool_new chunk_size max_free =
     (if MBUF_MIN_SIZE \<le> chunk_size \<and> chunk_size \<le> MBUF_MAX_SIZE
      then Some \<lparr>pool_chunk_size = chunk_size, pool_max_free = max_free, pool_free = [], pool_total_allocated = 0\<rparr>
      else None)"

definition pool_data_size :: "mbuf_pool \<Rightarrow> nat" where
  "pool_data_size p = chunk_data_size (pool_chunk_size p)"

text \<open>The free list is a stack; its top is the last element.\<close>

definition alloc_buffer :: "mbuf_pool \<Rightarrow> bytes \<times> mbuf_pool" where
  "alloc_buffer p =
     (if pool_free p \<noteq> [] then (last (pool_free p), p\<lparr>pool_free := butlast (pool_free p)\<rparr>)
      else (replicate (pool_data_size p) 0, p\<lparr>pool_total_allocated := pool_total_allocated p + 1\<rparr>))"

definition pool_get :: "mbuf_pool \<Rightarrow> mbuf \<times> mbuf_pool" where
  "pool_get p =
     (let (buf, p) = alloc_buffer p
      in (\<lparr>mb_buf = buf, mb_pos = 0, mb_last = 0, mb_end = length buf - MBUF_ESIZE, mb_flags = 0, mb_owner = None\<rparr>, p))"

definition pool_put :: "mbuf \<Rightarrow> mbuf_pool \<Rightarrow> mbuf_pool" where
  "pool_put m p =
     (if length (mb_buf m) \<noteq> pool_data_size p then p
      else if length (pool_free p) < pool_max_free p then p\<lparr>pool_free := pool_free p @ [mb_buf m]\<rparr>
      else p)"

text \<open>\<open>split_off\<close>: the tail if there is one, the shortened chunk, and the pool.\<close>

definition mbuf_split_off :: "nat \<Rightarrow> mbuf \<Rightarrow> mbuf_pool \<Rightarrow> mbuf option \<times> mbuf \<times> mbuf_pool" where
  "mbuf_split_off at m pool =
     (if at > mbuf_len m then (None, m, pool)
      else
        let (tail, pool) = pool_get pool;
            cut = mb_pos m + at;
            moved = mb_last m - cut
        in if moved > mbuf_remaining tail then (None, m, pool_put tail pool)
           else (mbuf_copy_from_slice (slice (mb_buf m) cut (mb_last m)) tail, m\<lparr>mb_last := cut\<rparr>, pool))"

section \<open>Queues of chunks\<close>

type_synonym mbuf_queue = "mbuf list"

definition queue_total_len :: "mbuf_queue \<Rightarrow> nat" where
  "queue_total_len q = sum_list (map mbuf_len q)"

fun queue_recycle :: "mbuf_queue \<Rightarrow> mbuf_pool \<Rightarrow> mbuf_pool" where
  "queue_recycle [] pool = pool"
| "queue_recycle (m # q) pool = queue_recycle q (pool_put m pool)"

section \<open>Bounded byte queues\<close>

text \<open>
  What a byte buffer promises: writes append a prefix of the source as long as there is room, reads
  take from the front, and the invariant is kept.
\<close>

locale byte_fifo =
  fixes ok :: "'b \<Rightarrow> bool"
    and contents :: "'b \<Rightarrow> bytes"
    and room :: "'b \<Rightarrow> nat"
    and put :: "bytes \<Rightarrow> 'b \<Rightarrow> nat \<times> 'b"
    and take_out :: "nat \<Rightarrow> 'b \<Rightarrow> bytes \<times> 'b"
  assumes put_ok: "ok b \<Longrightarrow> put src b = (n, b') \<Longrightarrow>
      ok b' \<and> n = min (length src) (room b) \<and> contents b' = contents b @ take n src \<and> room b' = room b - n"
    and take_out_ok: "ok b \<Longrightarrow> take_out k b = (out, b') \<Longrightarrow>
      ok b' \<and> out = take k (contents b) \<and> contents b' = drop k (contents b) \<and> room b' = room b"
begin

text \<open>Any sequence of writes that fit, then reading everything: the bytes come out in order.\<close>

lemma put_all:
  assumes "ok b" and "length (concat srcs) \<le> room b"
  shows "ok (fold (\<lambda>src b. snd (put src b)) srcs b)
    \<and> contents (fold (\<lambda>src b. snd (put src b)) srcs b) = contents b @ concat srcs
    \<and> room (fold (\<lambda>src b. snd (put src b)) srcs b) = room b - length (concat srcs)"
  using assms
proof (induction srcs arbitrary: b)
  case (Cons src srcs)
  obtain n b' where p: "put src b = (n, b')" by (cases "put src b")
  from put_ok [OF Cons.prems(1) p] Cons.prems(2)
  have "ok b'" "contents b' = contents b @ src" "room b' = room b - length src" by auto
  with Cons.IH [of b'] Cons.prems(2) p show ?case by simp
qed simp

lemma put_then_take:
  assumes "ok b" and "contents b = []" and "length (concat srcs) \<le> room b"
  shows "fst (take_out (length (concat srcs)) (fold (\<lambda>src b. snd (put src b)) srcs b)) = concat srcs"
proof -
  obtain out b' where "take_out (length (concat srcs)) (fold (\<lambda>src b. snd (put src b)) srcs b) = (out, b')"
    by (cases "take_out (length (concat srcs)) (fold (\<lambda>src b. snd (put src b)) srcs b)")
  with take_out_ok [OF _ this] put_all [OF assms(1,3)] assms(2) show ?thesis by simp
qed

end

section \<open>Chunks are bounded byte queues\<close>

definition mbuf_ok :: "mbuf \<Rightarrow> bool" where
  "mbuf_ok m \<longleftrightarrow> mb_pos m \<le> mb_last m \<and> mb_last m \<le> mb_end m \<and> mb_end m + MBUF_ESIZE = length (mb_buf m)"

lemma length_overwrite: "i + length xs \<le> length buf \<Longrightarrow> length (overwrite buf i xs) = length buf"
  by (simp add: overwrite_def)

lemma overwrite_slice:
  "p \<le> i \<Longrightarrow> i + length xs \<le> length buf \<Longrightarrow> slice (overwrite buf i xs) p (i + length xs) = slice buf p i @ xs"
proof -
  assume a: "p \<le> i" "i + length xs \<le> length buf"
  let ?A = "drop p (take i buf)"
  have len: "length ?A = i - p" using a by simp
  have "i + length xs - p = length ?A + length xs" using a len by simp
  moreover have "drop p (overwrite buf i xs) = ?A @ xs @ drop (i + length xs) buf"
    using a by (simp add: overwrite_def)
  ultimately have "slice (overwrite buf i xs) p (i + length xs) = ?A @ xs" by (simp add: slice_def)
  then show ?thesis by (simp add: slice_def drop_take)
qed

lemma drop_overwrite:
  "i + length xs \<le> e \<Longrightarrow> i + length xs \<le> length buf \<Longrightarrow> drop e (overwrite buf i xs) = drop e buf"
  by (simp add: overwrite_def)

lemma length_readable [simp]: "mbuf_ok m \<Longrightarrow> length (mbuf_readable m) = mbuf_len m"
  by (auto simp: mbuf_ok_def mbuf_readable_def mbuf_len_def slice_def min_def)

lemma mbuf_recv_ok:
  assumes "mbuf_ok m" and "mbuf_recv src m = (n, m')"
  shows "mbuf_ok m' \<and> n = min (length src) (mbuf_remaining m) \<and> mbuf_readable m' = mbuf_readable m @ take n src
    \<and> mbuf_remaining m' = mbuf_remaining m - n \<and> drop (mb_end m) (mb_buf m') = drop (mb_end m) (mb_buf m)"
proof -
  have n: "n = min (length src) (mbuf_remaining m)"
    and m': "m' = m\<lparr>mb_buf := overwrite (mb_buf m) (mb_last m) (take n src), mb_last := mb_last m + n\<rparr>"
    using assms(2) by (auto simp: mbuf_recv_def Let_def)
  have len: "length (take n src) = n" by (simp add: n)
  have fit: "mb_last m + n \<le> mb_end m" "mb_last m + n \<le> length (mb_buf m)"
    using assms(1) by (auto simp: n mbuf_ok_def mbuf_remaining_def)
  have "slice (overwrite (mb_buf m) (mb_last m) (take n src)) (mb_pos m) (mb_last m + n) = mbuf_readable m @ take n src"
    using overwrite_slice [of "mb_pos m" "mb_last m" "take n src" "mb_buf m"] len fit assms(1)
    by (simp add: mbuf_ok_def mbuf_readable_def)
  moreover have "length (overwrite (mb_buf m) (mb_last m) (take n src)) = length (mb_buf m)"
    using length_overwrite [of "mb_last m" "take n src" "mb_buf m"] len fit by simp
  moreover have "drop (mb_end m) (overwrite (mb_buf m) (mb_last m) (take n src)) = drop (mb_end m) (mb_buf m)"
    using drop_overwrite [of "mb_last m" "take n src" "mb_end m" "mb_buf m"] len fit by simp
  ultimately show ?thesis using assms(1) fit n m'
    by (simp add: mbuf_ok_def mbuf_readable_def mbuf_remaining_def)
qed

lemma mbuf_send_ok:
  assumes "mbuf_ok m" and "mbuf_send k m = (out, m')"
  shows "mbuf_ok m' \<and> out = take k (mbuf_readable m) \<and> mbuf_readable m' = drop k (mbuf_readable m)
    \<and> mbuf_remaining m' = mbuf_remaining m"
  using assms by (auto simp: mbuf_send_def Let_def mbuf_ok_def mbuf_len_def mbuf_readable_def mbuf_remaining_def slice_def drop_take min_def add.commute)

interpretation chunk: byte_fifo mbuf_ok mbuf_readable mbuf_remaining mbuf_recv mbuf_send
  by unfold_locales (use mbuf_recv_ok mbuf_send_ok in blast)+

text \<open>
  C19. A chunk is a bounded byte queue: a write stores the longest prefix that fits behind what is
  readable and never touches the reserved tail, a read takes from the front, a copy that does not
  fit is refused, and writes that fit are read back in order.
\<close>

theorem mbuf_is_fifo:
  assumes "mbuf_ok m"
  shows "(case mbuf_recv src m of (n, m') \<Rightarrow>
            mbuf_ok m' \<and> n = min (length src) (mbuf_remaining m) \<and> mbuf_readable m' = mbuf_readable m @ take n src
            \<and> drop (mb_end m) (mb_buf m') = drop (mb_end m) (mb_buf m))
    \<and> (case mbuf_send k m of (out, m') \<Rightarrow>
            mbuf_ok m' \<and> out = take k (mbuf_readable m) \<and> mbuf_readable m' = drop k (mbuf_readable m))
    \<and> (mbuf_copy_from_slice src m = (if length src \<le> mbuf_remaining m then Some (snd (mbuf_recv src m)) else None))
    \<and> (mbuf_readable m = [] \<and> length (concat srcs) \<le> mbuf_remaining m \<longrightarrow>
         fst (mbuf_send (length (concat srcs)) (fold (\<lambda>src b. snd (mbuf_recv src b)) srcs m)) = concat srcs)"
proof -
  have "case mbuf_recv src m of (n, m') \<Rightarrow>
            mbuf_ok m' \<and> n = min (length src) (mbuf_remaining m) \<and> mbuf_readable m' = mbuf_readable m @ take n src
            \<and> drop (mb_end m) (mb_buf m') = drop (mb_end m) (mb_buf m)"
    using mbuf_recv_ok [OF assms] by (cases "mbuf_recv src m") auto
  moreover have "case mbuf_send k m of (out, m') \<Rightarrow>
            mbuf_ok m' \<and> out = take k (mbuf_readable m) \<and> mbuf_readable m' = drop k (mbuf_readable m)"
    using mbuf_send_ok [OF assms] by (cases "mbuf_send k m") auto
  moreover have "mbuf_copy_from_slice src m = (if length src \<le> mbuf_remaining m then Some (snd (mbuf_recv src m)) else None)"
    by (simp add: mbuf_copy_from_slice_def mbuf_recv_def Let_def min_def)
  ultimately show ?thesis using chunk.put_then_take [OF assms] by blast
qed

theorem mbuf_is_fifo_witness:
  "\<exists>m. mbuf_with_chunk_size 512 = Some m \<and> mbuf_readable m = []
     \<and> fst (mbuf_send 3 (fold (\<lambda>src b. snd (mbuf_recv src b)) [[1], [2, 3]] m)) = [1, 2, 3]"
proof -
  define m where "m = \<lparr>mb_buf = replicate 464 0, mb_pos = 0, mb_last = 0, mb_end = 448, mb_flags = 0, mb_owner = None\<rparr>"
  have m: "mbuf_with_chunk_size 512 = Some m"
    by (simp add: mbuf_with_chunk_size_def MBUF_MIN_SIZE_def MBUF_MAX_SIZE_def chunk_data_size_def
        MBUF_ESIZE_def MBUF_HSIZE_def m_def)
  have "mbuf_ok m" "mbuf_readable m = []" "length (concat [[1], [2, 3 :: u8]]) \<le> mbuf_remaining m"
    by (simp_all add: m_def mbuf_ok_def MBUF_ESIZE_def mbuf_readable_def slice_def mbuf_remaining_def)
  with mbuf_is_fifo [of m "[]" 0 "[[1], [2, 3]]"] m show ?thesis by (simp add: numeral_3_eq_3)
qed

section \<open>The pool hands out clean chunks\<close>

definition pool_ok :: "mbuf_pool \<Rightarrow> bool" where
  "pool_ok p \<longleftrightarrow> MBUF_MIN_SIZE \<le> pool_chunk_size p \<and> pool_chunk_size p \<le> MBUF_MAX_SIZE
     \<and> length (pool_free p) \<le> pool_max_free p \<and> (\<forall>b \<in> set (pool_free p). length b = pool_data_size p)"

lemma pool_data_size_ge: "pool_ok p \<Longrightarrow> MBUF_ESIZE < pool_data_size p"
  by (auto simp: pool_ok_def pool_data_size_def chunk_data_size_def MBUF_MIN_SIZE_def MBUF_ESIZE_def MBUF_HSIZE_def)

lemma pool_get_ok:
  assumes "pool_ok p" and "pool_get p = (m, p')"
  shows "pool_ok p' \<and> mbuf_ok m \<and> mbuf_readable m = [] \<and> length (mb_buf m) = pool_data_size p
    \<and> pool_data_size p' = pool_data_size p"
proof -
  have "pool_ok p' \<and> length (mb_buf m) = pool_data_size p \<and> pool_data_size p' = pool_data_size p"
  proof (cases "pool_free p = []")
    case True
    then show ?thesis using assms by (auto simp: pool_get_def alloc_buffer_def pool_ok_def pool_data_size_def)
  next
    case False
    then have "last (pool_free p) \<in> set (pool_free p)" "set (butlast (pool_free p)) \<subseteq> set (pool_free p)"
      by (auto dest: in_set_butlastD)
    then show ?thesis using False assms by (auto simp: pool_get_def alloc_buffer_def pool_ok_def pool_data_size_def)
  qed
  moreover from this have "mbuf_ok m \<and> mbuf_readable m = []"
    using assms pool_data_size_ge [OF assms(1)]
    by (auto simp: pool_get_def mbuf_ok_def mbuf_readable_def slice_def case_prod_unfold Let_def)
  ultimately show ?thesis by blast
qed

lemma pool_put_ok:
  assumes "pool_ok p" shows "pool_ok (pool_put m p) \<and> pool_data_size (pool_put m p) = pool_data_size p"
  using assms by (auto simp: pool_put_def pool_ok_def pool_data_size_def)

lemma queue_recycle_ok:
  "pool_ok p \<Longrightarrow> pool_ok (queue_recycle q p) \<and> pool_data_size (queue_recycle q p) = pool_data_size p"
  by (induction q arbitrary: p) (auto simp: pool_put_ok)

text \<open>
  C29. Splitting a chunk loses no byte: on success the head and the new tail chunk together hold
  exactly what was readable, the head the first \<open>at\<close> bytes; the split is refused, with the chunk
  unchanged, exactly when the position is beyond the readable bytes or the tail does not fit a pool
  chunk.  Pool and chunks stay well formed.
\<close>

theorem mbuf_split_off_lossless:
  assumes m: "mbuf_ok m" and p: "pool_ok pool" and s: "mbuf_split_off at m pool = (tail, m', pool')"
  shows "pool_ok pool' \<and> mbuf_ok m'
    \<and> (case tail of
         None \<Rightarrow> m' = m \<and> (at > mbuf_len m \<or> mbuf_len m - at > pool_data_size pool - MBUF_ESIZE)
       | Some t \<Rightarrow> at \<le> mbuf_len m \<and> mbuf_len m - at \<le> pool_data_size pool - MBUF_ESIZE
           \<and> mbuf_ok t \<and> mbuf_readable m' = take at (mbuf_readable m) \<and> mbuf_readable t = drop at (mbuf_readable m)
           \<and> length (mb_buf t) = pool_data_size pool)"
proof (cases "at > mbuf_len m")
  case True
  with s m p show ?thesis by (auto simp: mbuf_split_off_def)
next
  case False
  obtain t0 pool0 where g: "pool_get pool = (t0, pool0)" by (cases "pool_get pool")
  note t = pool_get_ok [OF p g]
  have rem: "mbuf_remaining t0 = pool_data_size pool - MBUF_ESIZE"
    using t g by (auto simp: mbuf_remaining_def pool_get_def case_prod_unfold Let_def)
  have cut: "mb_last m - (mb_pos m + at) = mbuf_len m - at" by (simp add: mbuf_len_def)
  have cm: "mbuf_ok (m\<lparr>mb_last := mb_pos m + at\<rparr>)" "mbuf_readable (m\<lparr>mb_last := mb_pos m + at\<rparr>) = take at (mbuf_readable m)"
    using m False by (auto simp: mbuf_ok_def mbuf_readable_def slice_def mbuf_len_def min_def)
  have src: "slice (mb_buf m) (mb_pos m + at) (mb_last m) = drop at (mbuf_readable m)"
    by (simp add: mbuf_readable_def slice_def drop_take add.commute)
  have srclen: "length (drop at (mbuf_readable m)) = mbuf_len m - at" using m by simp
  show ?thesis
  proof (cases "mbuf_len m - at > mbuf_remaining t0")
    case True
    with s False g t m pool_put_ok [of pool0 t0] show ?thesis
      by (auto simp: mbuf_split_off_def cut rem)
  next
    case fits: False
    obtain n t' where r: "mbuf_recv (drop at (mbuf_readable m)) t0 = (n, t')" by (cases "mbuf_recv (drop at (mbuf_readable m)) t0")
    have ok0: "mbuf_ok t0" using t by blast
    note rr = mbuf_recv_ok [OF ok0 r]
    have "mbuf_copy_from_slice (drop at (mbuf_readable m)) t0 = Some t'"
      using r srclen fits by (auto simp: mbuf_copy_from_slice_def mbuf_recv_def Let_def)
    then have "tail = Some t'" "m' = m\<lparr>mb_last := mb_pos m + at\<rparr>" "pool' = pool0"
      using s False g fits by (auto simp: mbuf_split_off_def cut src)
    moreover have "mbuf_readable t' = drop at (mbuf_readable m)" using rr t srclen fits by simp
    moreover have "length (mb_buf t') = length (mb_buf t0)"
    proof -
      have "mb_end t' = mb_end t0" using r by (auto simp: mbuf_recv_def Let_def)
      with rr ok0 show ?thesis by (simp add: mbuf_ok_def)
    qed
    moreover have "at \<le> mbuf_len m" "mbuf_len m - at \<le> pool_data_size pool - MBUF_ESIZE"
      using False fits rem by simp_all
    ultimately show ?thesis using cm rr t by simp
  qed
qed

theorem mbuf_split_off_lossless_witness:
  "\<exists>m pool t m' pool'. mbuf_with_chunk_size 512 = Some m \<and> pool_new 512 4 = Some pool
     \<and> mbuf_split_off 1 (snd (mbuf_recv [7, 8, 9] m)) pool = (Some t, m', pool') \<and> mbuf_readable t = [8, 9]"
proof -
  define m where "m = \<lparr>mb_buf = replicate 464 0, mb_pos = 0, mb_last = 0, mb_end = 448, mb_flags = 0, mb_owner = None\<rparr>"
  define pool where "pool = \<lparr>pool_chunk_size = 512, pool_max_free = 4, pool_free = [], pool_total_allocated = 0\<rparr>"
  have m: "mbuf_with_chunk_size 512 = Some m"
    by (simp add: mbuf_with_chunk_size_def MBUF_MIN_SIZE_def MBUF_MAX_SIZE_def chunk_data_size_def
        MBUF_ESIZE_def MBUF_HSIZE_def m_def)
  have pool: "pool_new 512 4 = Some pool" by (simp add: pool_new_def MBUF_MIN_SIZE_def MBUF_MAX_SIZE_def pool_def)
  have pok: "pool_ok pool" by (simp add: pool_ok_def pool_def MBUF_MIN_SIZE_def MBUF_MAX_SIZE_def)
  have "mbuf_ok m" "mbuf_readable m = []" "mbuf_remaining m = 448"
    by (simp_all add: m_def mbuf_ok_def MBUF_ESIZE_def mbuf_readable_def slice_def mbuf_remaining_def)
  moreover obtain n m1 where r: "mbuf_recv [7, 8, 9] m = (n, m1)" by (cases "mbuf_recv [7, 8, 9] m")
  ultimately have m1: "mbuf_ok m1" "mbuf_readable m1 = [7, 8, 9]" using mbuf_recv_ok [of m "[7, 8, 9]" n m1] by auto
  obtain tail m' pool' where s: "mbuf_split_off 1 m1 pool = (tail, m', pool')" by (cases "mbuf_split_off 1 m1 pool")
  have "mbuf_len m1 = 3" using m1 length_readable [of m1] by simp
  moreover have "pool_data_size pool = 464" by (simp add: pool_data_size_def pool_def chunk_data_size_def MBUF_ESIZE_def MBUF_HSIZE_def)
  ultimately obtain t where "tail = Some t" "mbuf_readable t = [8, 9]"
    using mbuf_split_off_lossless [OF m1(1) pok s] m1(2) by (auto simp: MBUF_ESIZE_def split: option.splits)
  with m pool r s show ?thesis by auto
qed

end
