(* ===== verification/Dnode.thy ===== *)
theory Dnode
  imports Ascii Mbuf
begin

text \<open>
  The peer-to-peer framing of \<open>crates/dynomite/src/proto/dnode.rs\<close>: the header encoder, the
  byte-driven header parser, and the classification of parsed messages.  The parser reads back
  what the encoder writes, gives the same result however its input is cut into reads, and never
  buffers more than the announced and bounded number of data bytes.
\<close>

unbundle bit_operations_syntax

section \<open>Messages\<close>

definition MAGIC :: bytes where "MAGIC = [36, 50, 48, 49, 52, 36]"
definition VERSION_10 :: u8 where "VERSION_10 = 1"
definition CRLF :: bytes where "CRLF = [13, 10]"
definition HANDSHAKE_PLACEHOLDER_DATA :: u8 where "HANDSHAKE_PLACEHOLDER_DATA = 100"
definition GOSSIP_PLACEHOLDER_DATA :: u8 where "GOSSIP_PLACEHOLDER_DATA = 97"
definition MAX_DATA_LEN :: u64 where "MAX_DATA_LEN = 268435456"
definition DMSG_FLAG_ENCRYPTED :: u8 where "DMSG_FLAG_ENCRYPTED = 1"
definition DMSG_FLAG_COMPRESSED :: u8 where "DMSG_FLAG_COMPRESSED = 2"

datatype dyn_parse_state =
    PS_Start | PS_MagicString | PS_MsgId | PS_TypeId | PS_BitField | PS_Version | PS_SameDc | PS_Star
  | PS_DataLen | PS_Data | PS_SpacesBeforePayloadLen | PS_PayloadLen | PS_CrlfBeforeDone
  | PS_Done | PS_PostDone | PS_Unknown

datatype dmsg_type =
    DT_Unknown | DT_Debug | DT_ParseError | DT_Req | DT_ReqForward | DT_Res | DT_CryptoHandshake
  | DT_GossipSyn | DT_GossipSynReply | DT_GossipAck | DT_GossipDigestSyn | DT_GossipDigestAck
  | DT_GossipDigestAck2 | DT_GossipShutdown | DT_HandoffChunk | DT_FtSearchReq | DT_FtSearchRep
  | DT_XaPrepare | DT_XaVote | DT_XaCommit | DT_XaRollback | DT_XaAck | DT_RiakReplica | DT_RampPrepare

definition dmsg_type_from_u8 :: "u8 \<Rightarrow> dmsg_type option" where
  "dmsg_type_from_u8 v = map_of
     [(0, DT_Unknown), (1, DT_Debug), (2, DT_ParseError), (3, DT_Req), (4, DT_ReqForward), (5, DT_Res),
      (6, DT_CryptoHandshake), (7, DT_GossipSyn), (8, DT_GossipSynReply), (9, DT_GossipAck),
      (10, DT_GossipDigestSyn), (11, DT_GossipDigestAck), (12, DT_GossipDigestAck2), (13, DT_GossipShutdown),
      (14, DT_HandoffChunk), (15, DT_FtSearchReq), (16, DT_FtSearchRep), (17, DT_XaPrepare), (18, DT_XaVote),
      (19, DT_XaCommit), (20, DT_XaRollback), (21, DT_XaAck), (23, DT_RampPrepare), (22, DT_RiakReplica)] v"

fun dmsg_type_as_u8 :: "dmsg_type \<Rightarrow> u8" where
  "dmsg_type_as_u8 DT_Unknown = 0"
| "dmsg_type_as_u8 DT_Debug = 1"
| "dmsg_type_as_u8 DT_ParseError = 2"
| "dmsg_type_as_u8 DT_Req = 3"
| "dmsg_type_as_u8 DT_ReqForward = 4"
| "dmsg_type_as_u8 DT_Res = 5"
| "dmsg_type_as_u8 DT_CryptoHandshake = 6"
| "dmsg_type_as_u8 DT_GossipSyn = 7"
| "dmsg_type_as_u8 DT_GossipSynReply = 8"
| "dmsg_type_as_u8 DT_GossipAck = 9"
| "dmsg_type_as_u8 DT_GossipDigestSyn = 10"
| "dmsg_type_as_u8 DT_GossipDigestAck = 11"
| "dmsg_type_as_u8 DT_GossipDigestAck2 = 12"
| "dmsg_type_as_u8 DT_GossipShutdown = 13"
| "dmsg_type_as_u8 DT_HandoffChunk = 14"
| "dmsg_type_as_u8 DT_FtSearchReq = 15"
| "dmsg_type_as_u8 DT_FtSearchRep = 16"
| "dmsg_type_as_u8 DT_XaPrepare = 17"
| "dmsg_type_as_u8 DT_XaVote = 18"
| "dmsg_type_as_u8 DT_XaCommit = 19"
| "dmsg_type_as_u8 DT_XaRollback = 20"
| "dmsg_type_as_u8 DT_XaAck = 21"
| "dmsg_type_as_u8 DT_RiakReplica = 22"
| "dmsg_type_as_u8 DT_RampPrepare = 23"

text \<open>A socket address is opaque here; the codec never sets it.\<close>

record dmsg =
  dm_id :: u64
  dm_ty :: dmsg_type
  dm_flags :: u8
  dm_version :: u8
  dm_same_dc :: bool
  dm_source_address :: "bytes option"
  dm_mlen :: u32
  dm_data :: bytes
  dm_plen :: u32
  dm_payload :: bytes

definition dmsg_new :: dmsg where
  "dmsg_new = \<lparr>dm_id = 0, dm_ty = DT_Unknown, dm_flags = 0, dm_version = VERSION_10, dm_same_dc = True,
     dm_source_address = None, dm_mlen = 0, dm_data = [], dm_plen = 0, dm_payload = []\<rparr>"

definition dmsg_is_encrypted :: "dmsg \<Rightarrow> bool" where
  "dmsg_is_encrypted d \<longleftrightarrow> dm_flags d AND DMSG_FLAG_ENCRYPTED \<noteq> 0"

definition dmsg_is_compressed :: "dmsg \<Rightarrow> bool" where
  "dmsg_is_compressed d \<longleftrightarrow> dm_flags d AND DMSG_FLAG_COMPRESSED \<noteq> 0"

section \<open>The parser\<close>

datatype parse_step = NeedMore nat | HeaderDone nat | ParseErr nat

text \<open>\<open>magic_progress\<close> counts the magic bytes seen, at most six; it is a natural number here.\<close>

record dnode_parser =
  dp_state :: dyn_parse_state
  dp_num :: u64
  dp_dmsg :: dmsg
  dp_data_remaining :: u32
  dp_magic_progress :: nat
  dp_prev_was_digit :: bool

definition parser_new :: dnode_parser where
  "parser_new = \<lparr>dp_state = PS_Start, dp_num = 0, dp_dmsg = dmsg_new, dp_data_remaining = 0,
     dp_magic_progress = 0, dp_prev_was_digit = False\<rparr>"

definition take_dmsg :: "dnode_parser \<Rightarrow> dmsg \<times> dnode_parser" where
  "take_dmsg p = (dp_dmsg p, parser_new)"

text \<open>One turn of the loop of \<open>step\<close>: go on after \<open>n\<close> bytes, fail, or return with the header done.\<close>

datatype step_action = Advance dnode_parser nat | Reject dnode_parser | Finish dnode_parser nat

definition push_digit :: "dnode_parser \<Rightarrow> u8 \<Rightarrow> dnode_parser" where
  "push_digit p ch = p\<lparr>dp_num := dp_num p * 10 + ucast (ch - 48)\<rparr>"

text \<open>The shared shape of the numeric fields: digits accumulate, a space after a digit ends the field.\<close>

definition number_field :: "dnode_parser \<Rightarrow> u8 \<Rightarrow> (dnode_parser \<Rightarrow> step_action) \<Rightarrow> step_action" where
  "number_field p ch finish =
     (if is_ascii_digit ch then Advance ((push_digit p ch)\<lparr>dp_prev_was_digit := True\<rparr>) 1
      else if ch = 32 \<and> dp_prev_was_digit p then finish p
      else Reject p)"

definition next_field :: "dyn_parse_state \<Rightarrow> dnode_parser \<Rightarrow> dnode_parser" where
  "next_field st p = p\<lparr>dp_state := st, dp_num := 0, dp_prev_was_digit := False\<rparr>"

definition start_action :: "dnode_parser \<Rightarrow> u8 \<Rightarrow> step_action" where
  "start_action p ch =
     (if dp_magic_progress p = 0 \<and> ch = 32 then Advance p 1
      else if dp_magic_progress p = 0 \<and> ch \<noteq> 36 then Reject p
      else if ch \<noteq> MAGIC ! dp_magic_progress p then Reject p
      else
        let p = p\<lparr>dp_magic_progress := dp_magic_progress p + 1\<rparr>
        in if dp_magic_progress p = length MAGIC
           then Advance (p\<lparr>dp_state := PS_MagicString, dp_magic_progress := 0\<rparr>) 1
           else Advance p 1)"

definition data_len_action :: "dnode_parser \<Rightarrow> u8 \<Rightarrow> step_action" where
  "data_len_action p ch =
     (if ch = 42 then Advance p 1
      else if is_ascii_digit ch then
        (let p = push_digit p ch in if dp_num p > MAX_DATA_LEN then Reject p else Advance p 1)
      else if ch = 32 \<and> dp_state p = PS_DataLen then
        (let mlen = ucast (dp_num p)
         in Advance (p\<lparr>dp_dmsg := (dp_dmsg p)\<lparr>dm_mlen := mlen, dm_data := []\<rparr>, dp_data_remaining := mlen,
                       dp_state := PS_Data, dp_num := 0\<rparr>) 1)
      else Reject p)"

definition data_read :: "dnode_parser \<Rightarrow> bytes \<Rightarrow> dnode_parser" where
  "data_read p xs =
     (let p = p\<lparr>dp_dmsg := (dp_dmsg p)\<lparr>dm_data := dm_data (dp_dmsg p) @ xs\<rparr>,
                dp_data_remaining := dp_data_remaining p - of_nat (length xs)\<rparr>
      in if dp_data_remaining p = 0 then p\<lparr>dp_state := PS_SpacesBeforePayloadLen\<rparr> else p)"

definition data_action :: "dnode_parser \<Rightarrow> bytes \<Rightarrow> step_action" where
  "data_action p input =
     (if dp_data_remaining p = 0 then Advance (p\<lparr>dp_state := PS_SpacesBeforePayloadLen\<rparr>) 0
      else
        let n = min (unat (dp_data_remaining p)) (length input)
        in Advance (data_read p (take n input)) n)"

definition payload_len_action :: "dnode_parser \<Rightarrow> u8 \<Rightarrow> step_action" where
  "payload_len_action p ch =
     (if is_ascii_digit ch then
        (let p = push_digit p ch in if dp_num p > MAX_DATA_LEN then Reject p else Advance p 1)
      else if ch = 13 then
        Advance (p\<lparr>dp_dmsg := (dp_dmsg p)\<lparr>dm_plen := ucast (dp_num p)\<rparr>, dp_state := PS_CrlfBeforeDone, dp_num := 0\<rparr>) 1
      else Reject p)"

text \<open>\<open>input\<close> is the rest of the input, whose first byte is \<open>ch\<close>.\<close>

definition step_turn :: "dnode_parser \<Rightarrow> u8 \<Rightarrow> bytes \<Rightarrow> step_action" where
  "step_turn p ch input =
     (case dp_state p of
        PS_Start \<Rightarrow> start_action p ch
      | PS_MagicString \<Rightarrow> if ch = 32 then Advance (p\<lparr>dp_state := PS_MsgId, dp_num := 0\<rparr>) 1 else Reject p
      | PS_MsgId \<Rightarrow> number_field p ch
          (\<lambda>p. Advance (next_field PS_TypeId (p\<lparr>dp_dmsg := (dp_dmsg p)\<lparr>dm_id := dp_num p\<rparr>\<rparr>)) 1)
      | PS_TypeId \<Rightarrow> number_field p ch
          (\<lambda>p. case dmsg_type_from_u8 (ucast (dp_num p)) of
                 Some t \<Rightarrow> Advance (next_field PS_BitField (p\<lparr>dp_dmsg := (dp_dmsg p)\<lparr>dm_ty := t\<rparr>\<rparr>)) 1
               | None \<Rightarrow> Reject p)
      | PS_BitField \<Rightarrow> number_field p ch
          (\<lambda>p. Advance (next_field PS_Version (p\<lparr>dp_dmsg := (dp_dmsg p)\<lparr>dm_flags := ucast (dp_num p) AND 0xF\<rparr>\<rparr>)) 1)
      | PS_Version \<Rightarrow> number_field p ch
          (\<lambda>p. Advance (next_field PS_SameDc (p\<lparr>dp_dmsg := (dp_dmsg p)\<lparr>dm_version := ucast (dp_num p)\<rparr>\<rparr>)) 1)
      | PS_SameDc \<Rightarrow>
          (if is_ascii_digit ch
           then Advance (p\<lparr>dp_dmsg := (dp_dmsg p)\<lparr>dm_same_dc := ch \<noteq> 48\<rparr>, dp_prev_was_digit := True\<rparr>) 1
           else if ch = 32 \<and> dp_prev_was_digit p then Advance (next_field PS_DataLen p) 1
           else Reject p)
      | PS_Star \<Rightarrow> data_len_action p ch
      | PS_DataLen \<Rightarrow> data_len_action p ch
      | PS_Data \<Rightarrow> data_action p input
      | PS_SpacesBeforePayloadLen \<Rightarrow>
          (if ch = 32 then Advance p 1
           else if ch = 42 then Advance (p\<lparr>dp_state := PS_PayloadLen, dp_num := 0\<rparr>) 1
           else Reject p)
      | PS_PayloadLen \<Rightarrow> payload_len_action p ch
      | PS_CrlfBeforeDone \<Rightarrow> if ch = 10 then Finish (p\<lparr>dp_state := PS_Done\<rparr>) 1 else Reject p
      | PS_Done \<Rightarrow> Finish p 0
      | PS_PostDone \<Rightarrow> Finish p 0
      | PS_Unknown \<Rightarrow> Finish p 0)"

lemma step_turn_progress:
  "step_turn p ch (ch # rest) = Advance p' n \<Longrightarrow>
     n \<le> Suc (length rest) \<and> (n = 0 \<longrightarrow> dp_state p = PS_Data \<and> dp_state p' = PS_SpacesBeforePayloadLen)"
  by (auto simp: step_turn_def start_action_def number_field_def data_len_action_def data_action_def payload_len_action_def
      Let_def min_def unat_eq_zero split: dyn_parse_state.splits if_splits option.splits)

function step_loop :: "dnode_parser \<Rightarrow> nat \<Rightarrow> bytes \<Rightarrow> parse_step \<times> dnode_parser" where
  "step_loop p idx [] = (NeedMore idx, p)"
| "step_loop p idx (ch # rest) =
     (case step_turn p ch (ch # rest) of
        Advance p' n \<Rightarrow> step_loop p' (idx + n) (drop n (ch # rest))
      | Reject p' \<Rightarrow> (ParseErr idx, p')
      | Finish p' n \<Rightarrow> (HeaderDone (idx + n), p'))"
  by pat_completeness auto
termination
proof (relation "measure (\<lambda>(p, _, input). 2 * length input + (if dp_state p = PS_Data then 1 else 0))", simp)
  fix p idx ch and rest :: bytes and p' n
  assume "step_turn p ch (ch # rest) = Advance p' n"
  from step_turn_progress [OF this]
  show "((p', idx + n, drop n (ch # rest)), (p, idx, ch # rest))
      \<in> measure (\<lambda>(p, _, input). 2 * length input + (if dp_state p = PS_Data then 1 else 0))"
    by (cases n) auto
qed

definition dnode_step :: "dnode_parser \<Rightarrow> bytes \<Rightarrow> parse_step \<times> dnode_parser" where
  "dnode_step p input = step_loop p 0 input"

section \<open>The encoder\<close>

definition build_header ::
  "u64 \<Rightarrow> dmsg_type \<Rightarrow> u8 \<Rightarrow> bool \<Rightarrow> bytes option \<Rightarrow> u32 \<Rightarrow> bool \<Rightarrow> bytes"
where
  "build_header msg_id ty flags same_dc aes_key_payload plen gossip_placeholder =
     [32, 32, 32] @ MAGIC @ [32]
     @ dec_bytes (unat msg_id) @ [32]
     @ dec_bytes (unat (dmsg_type_as_u8 ty)) @ [32]
     @ dec_bytes (unat (flags AND 0xF)) @ [32]
     @ dec_bytes (unat VERSION_10) @ [32]
     @ [if same_dc then 49 else 48] @ [32] @ [42]
     @ (case aes_key_payload of
          Some payload \<Rightarrow> dec_bytes (length payload) @ [32] @ payload
        | None \<Rightarrow> [49, 32] @ [if gossip_placeholder then GOSSIP_PLACEHOLDER_DATA else HANDSHAKE_PLACEHOLDER_DATA])
     @ [32] @ [42] @ dec_bytes (unat plen) @ CRLF"

datatype dnode_error = OutOfSpace | BadMagic | BadNumber | MissingCrlf | BadType | TruncatedData

definition write_chain :: "bytes \<Rightarrow> mbuf \<Rightarrow> dnode_error + mbuf" where
  "write_chain payload m =
     (if mbuf_remaining m < length payload then Inl OutOfSpace else Inr (snd (mbuf_recv payload m)))"

definition dmsg_write ::
  "mbuf \<Rightarrow> u64 \<Rightarrow> dmsg_type \<Rightarrow> u8 \<Rightarrow> bool \<Rightarrow> bytes option \<Rightarrow> u32 \<Rightarrow> dnode_error + mbuf"
where
  "dmsg_write m msg_id ty flags same_dc aes_key_payload plen =
     write_chain (build_header msg_id ty flags same_dc aes_key_payload plen False) m"

definition dmsg_write_mbuf ::
  "mbuf \<Rightarrow> u64 \<Rightarrow> dmsg_type \<Rightarrow> u8 \<Rightarrow> bool \<Rightarrow> bytes option \<Rightarrow> u32 \<Rightarrow> dnode_error + mbuf"
where
  "dmsg_write_mbuf m msg_id ty flags same_dc aes_key_payload plen =
     write_chain (build_header msg_id ty flags same_dc aes_key_payload plen True) m"

section \<open>Driving the parser over a message\<close>

datatype msg_parse_result =
    MPR_Ok | MPR_Error | MPR_Repair | MPR_Fragment | MPR_Again | MPR_Noop | MPR_DynoConfig | MPR_OomError

text \<open>The part of \<open>Msg\<close> that \<open>parse_msg\<close> reads and writes.\<close>

record msg_parse =
  mp_mbufs :: mbuf_queue
  mp_dyn_parse_state :: dyn_parse_state
  mp_dmsg :: "dmsg option"
  mp_parse_result :: msg_parse_result

definition parse_msg :: "msg_parse \<Rightarrow> msg_parse_result \<times> msg_parse" where
  "parse_msg msg =
     (let bs = concat (map mbuf_readable (mp_mbufs msg));
          (r, p) = dnode_step (parser_new\<lparr>dp_state := mp_dyn_parse_state msg\<rparr>) bs
      in case r of
           HeaderDone _ \<Rightarrow>
             (MPR_Ok, msg\<lparr>mp_dyn_parse_state := PS_Done, mp_dmsg := Some (fst (take_dmsg p)), mp_parse_result := MPR_Ok\<rparr>)
         | NeedMore _ \<Rightarrow> (MPR_Again, msg\<lparr>mp_dyn_parse_state := dp_state p, mp_parse_result := MPR_Again\<rparr>)
         | ParseErr _ \<Rightarrow> (MPR_Error, msg\<lparr>mp_dyn_parse_state := PS_Unknown, mp_parse_result := MPR_Error\<rparr>))"

definition parse_req :: "msg_parse \<Rightarrow> msg_parse_result \<times> msg_parse" where "parse_req msg = parse_msg msg"
definition parse_rsp :: "msg_parse \<Rightarrow> msg_parse_result \<times> msg_parse" where "parse_rsp msg = parse_msg msg"

datatype dmsg_dispatch = Bypass | Forward

definition dmsg_process :: "dmsg \<Rightarrow> dmsg_dispatch" where
  "dmsg_process d =
     (if dm_ty d \<in> {DT_CryptoHandshake, DT_GossipSyn, DT_GossipSynReply, DT_HandoffChunk, DT_FtSearchReq, DT_FtSearchRep,
        DT_XaPrepare, DT_XaVote, DT_XaCommit, DT_XaRollback, DT_XaAck, DT_RampPrepare, DT_RiakReplica}
      then Bypass else Forward)"

fun flatten_chain :: "mbuf_queue \<Rightarrow> bytes" where
  "flatten_chain [] = []"
| "flatten_chain (m # chain) = mbuf_readable m @ flatten_chain chain"

section \<open>Cutting the input\<close>

fun shift_step :: "nat \<Rightarrow> parse_step \<Rightarrow> parse_step" where
  "shift_step k (NeedMore n) = NeedMore (k + n)"
| "shift_step k (HeaderDone n) = HeaderDone (k + n)"
| "shift_step k (ParseErr n) = ParseErr (k + n)"

lemma step_loop_shift: "step_loop p (k + idx) input = apfst (shift_step k) (step_loop p idx input)"
  by (induction p idx input rule: step_loop.induct) (auto simp: add.assoc split: step_action.splits)

text \<open>Only the data state looks past the current byte.\<close>

lemma step_turn_tail: "dp_state p \<noteq> PS_Data \<Longrightarrow> step_turn p ch input = step_turn p ch input'"
  by (auto simp: step_turn_def split: dyn_parse_state.splits)

lemma step_turn_data: "dp_state p = PS_Data \<Longrightarrow> step_turn p ch input = data_action p input"
  by (simp add: step_turn_def)

text \<open>The machine byte by byte: in the data state one byte of a read.\<close>

definition byte_turn :: "dnode_parser \<Rightarrow> u8 \<Rightarrow> step_action" where
  "byte_turn p ch =
     (if dp_state p = PS_Data then
        if dp_data_remaining p = 0 then step_turn (p\<lparr>dp_state := PS_SpacesBeforePayloadLen\<rparr>) ch [ch]
        else Advance (data_read p [ch]) 1
      else step_turn p ch [ch])"

lemma byte_turn_advance: "byte_turn p ch = Advance p' n \<Longrightarrow> n = 1"
  using step_turn_progress [of p ch "[]" p' n]
    step_turn_progress [of "p\<lparr>dp_state := PS_SpacesBeforePayloadLen\<rparr>" ch "[]" p' n]
  by (auto simp: byte_turn_def le_Suc_eq split: if_splits)

lemma data_read_compose:
  "dp_data_remaining p \<noteq> 1 \<Longrightarrow> data_read (data_read p [ch]) xs = data_read p (ch # xs)"
  by (auto simp: data_read_def Let_def algebra_simps)

lemma data_loop_byte:
  assumes st: "dp_state p = PS_Data" and rem: "dp_data_remaining p \<noteq> 0"
  shows "step_loop p idx (ch # rest) = step_loop (data_read p [ch]) (idx + 1) rest"
proof (cases "rest = [] \<or> dp_data_remaining p = 1")
  case True
  have "0 < unat (dp_data_remaining p)" using rem by (simp add: unat_gt_0)
  then have "min (unat (dp_data_remaining p)) (length (ch # rest)) = 1"
    using True by (auto simp: min_def)
  then have "data_action p (ch # rest) = Advance (data_read p [ch]) 1"
    using rem by (simp add: data_action_def Let_def)
  then show ?thesis by (simp add: step_turn_data [OF st])
next
  case False
  let ?r = "dp_data_remaining p" let ?n = "min (unat ?r) (length (ch # rest))"
  let ?m = "min (unat (?r - 1)) (length rest)"
  obtain c rest' where rest: "rest = c # rest'" using False by (cases rest) auto
  have r1: "?r - 1 \<noteq> 0" using False by simp
  have ur: "unat (?r - 1) = unat ?r - 1" using rem by (simp add: unat_minus_one)
  have b: "dp_state (data_read p [ch]) = PS_Data" "dp_data_remaining (data_read p [ch]) = ?r - 1"
    using r1 st by (simp_all add: data_read_def Let_def)
  have pos: "0 < unat ?r" using rem by (simp add: unat_gt_0)
  have n: "?n = Suc ?m" using pos by (cases "unat ?r") (simp_all add: ur)
  have q': "step_turn p ch (ch # rest) = Advance (data_read p (ch # take ?m rest)) (Suc ?m)"
    using rem n by (simp add: step_turn_data [OF st] data_action_def Let_def)
  have q: "step_turn (data_read p [ch]) c (c # rest') = Advance (data_read p (ch # take ?m rest)) ?m"
    using r1 False b by (simp add: step_turn_data data_action_def Let_def data_read_compose rest)
  have "step_loop p idx (ch # rest) = step_loop (data_read p (ch # take ?m rest)) (idx + Suc ?m) (drop ?m rest)"
    by (simp only: step_loop.simps q' step_action.simps drop_Suc_Cons)
  also have "\<dots> = step_loop (data_read p [ch]) (idx + 1) rest"
    unfolding rest by (simp only: step_loop.simps q [unfolded rest] step_action.simps) (simp add: add.assoc)
  finally show ?thesis .
qed

lemma step_loop_byte:
  "step_loop p idx (ch # rest) =
     (case byte_turn p ch of
        Advance p' n \<Rightarrow> step_loop p' (idx + 1) rest
      | Reject p' \<Rightarrow> (ParseErr idx, p')
      | Finish p' n \<Rightarrow> (HeaderDone (idx + n), p'))"
proof (cases "dp_state p = PS_Data")
  case True
  show ?thesis
  proof (cases "dp_data_remaining p = 0")
    case z: True
    let ?p = "p\<lparr>dp_state := PS_SpacesBeforePayloadLen\<rparr>"
    have "step_loop p idx (ch # rest) = step_loop ?p idx (ch # rest)"
      using z True by (simp add: step_turn_data data_action_def)
    moreover have "step_turn ?p ch (ch # rest) = byte_turn p ch"
      using True z step_turn_tail [of ?p ch "ch # rest" "[ch]"] by (simp add: byte_turn_def)
    ultimately show ?thesis
      using byte_turn_advance [of p ch] by (cases "byte_turn p ch") auto
  next
    case False
    from data_loop_byte [OF True False] show ?thesis by (simp add: byte_turn_def True False del: step_loop.simps)
  qed
next
  case False
  then have "step_turn p ch (ch # rest) = byte_turn p ch"
    using step_turn_tail [of p ch "ch # rest" "[ch]"] by (simp add: byte_turn_def)
  then show ?thesis using byte_turn_advance [of p ch] by (cases "byte_turn p ch") auto
qed

lemma step_loop_append:
  "step_loop p idx (xs @ ys) =
     (case step_loop p idx xs of
        (NeedMore j, p') \<Rightarrow> step_loop p' j ys
      | r \<Rightarrow> r)"
  "fst (step_loop p idx xs) = NeedMore j \<Longrightarrow> j = idx + length xs"
proof (induction xs arbitrary: p idx)
  case (Cons ch xs)
  {
    case 1
    show ?case by (cases "byte_turn p ch") (simp_all add: step_loop_byte Cons.IH(1) del: step_loop.simps)
  next
    case 2
    then show ?case by (cases "byte_turn p ch") (auto simp: step_loop_byte simp del: step_loop.simps dest: Cons.IH(2))
  }
qed simp_all

text \<open>
  C4. The header parser does not depend on how its input arrives: fed with a first read that
  needs more and then with the rest, it ends in the same result and the same parser as when fed
  with both at once, the offsets shifted by the first read; a first read that already decides the
  header decides it whatever follows.
\<close>

theorem dnode_step_chunks:
  "dnode_step p (xs @ ys) =
     (case dnode_step p xs of
        (NeedMore n, p') \<Rightarrow> apfst (shift_step (length xs)) (dnode_step p' ys)
      | r \<Rightarrow> r)
   \<and> (case fst (dnode_step p xs) of NeedMore n \<Rightarrow> n = length xs | _ \<Rightarrow> True)"
proof (cases "dnode_step p xs")
  case (Pair r p')
  show ?thesis
  proof (cases r)
    case (NeedMore n)
    have n: "n = length xs" using step_loop_append(2) [of p 0 xs n] Pair NeedMore by (simp add: dnode_step_def)
    have "dnode_step p (xs @ ys) = step_loop p' n ys"
      using step_loop_append(1) [of p 0 xs ys] Pair NeedMore by (simp add: dnode_step_def)
    also have "\<dots> = apfst (shift_step (length xs)) (dnode_step p' ys)"
      using step_loop_shift [of p' n 0 ys] n by (simp add: dnode_step_def)
    finally show ?thesis using Pair NeedMore n by simp
  qed (use step_loop_append(1) [of p 0 xs ys] Pair in \<open>simp_all add: dnode_step_def\<close>)
qed

section \<open>Reading back what was written\<close>

lemma number_one:
  assumes "dp_state q \<in> {PS_MsgId, PS_TypeId, PS_BitField, PS_Version}" and "is_ascii_digit ch"
  shows "step_loop q i (ch # rest) = step_loop ((push_digit q ch)\<lparr>dp_prev_was_digit := True\<rparr>) (i + 1) rest"
proof -
  have "byte_turn q ch = Advance ((push_digit q ch)\<lparr>dp_prev_was_digit := True\<rparr>) 1"
    using assms by (auto simp: byte_turn_def step_turn_def number_field_def)
  then show ?thesis by (simp add: step_loop_byte del: step_loop.simps)
qed

lemma number_digits:
  assumes "dp_state p \<in> {PS_MsgId, PS_TypeId, PS_BitField, PS_Version}" and "dp_num p = 0"
  shows "step_loop p idx (dec_bytes n @ rest) =
    step_loop (p\<lparr>dp_num := of_nat n, dp_prev_was_digit := True\<rparr>) (idx + length (dec_bytes n)) rest"
proof -
  have one: "step_loop q i ((48 + of_nat d) # more) =
      step_loop (q\<lparr>dp_num := dp_num q * 10 + of_nat d, dp_prev_was_digit := True\<rparr>) (i + 1) more"
    if "dp_state q \<in> {PS_MsgId, PS_TypeId, PS_BitField, PS_Version}" "d < 10" for q i d more
    using number_one [OF that(1) digit_byte_facts(1) [OF that(2)]] digit_byte_facts(2) [OF that(2), where 'a = 64]
    by (simp only: push_digit_def)
  have "\<forall>idx rest. step_loop p idx (dec_bytes n @ rest) =
      step_loop (p\<lparr>dp_num := of_nat n, dp_prev_was_digit := True\<rparr>) (idx + length (dec_bytes n)) rest"
  proof (induction n rule: dec_bytes_induct)
    case (digit n)
    then show ?case using one [OF assms(1)] assms(2) by simp
  next
    case (more n d)
    then show ?case using one [of "p\<lparr>dp_num := of_nat n, dp_prev_was_digit := True\<rparr>" d] assms(1)
      by simp
  qed
  then show ?thesis by simp
qed

text \<open>The length fields check the bound at every digit.\<close>

lemma length_one:
  assumes "dp_state q \<in> {PS_DataLen, PS_PayloadLen}" and "is_ascii_digit ch"
    and "dp_num (push_digit q ch) \<le> MAX_DATA_LEN"
  shows "step_loop q i (ch # rest) = step_loop (push_digit q ch) (i + 1) rest"
proof -
  have "byte_turn q ch = Advance (push_digit q ch) 1"
    using assms by (auto simp: byte_turn_def step_turn_def data_len_action_def payload_len_action_def Let_def not_less)
  then show ?thesis by (simp add: step_loop_byte del: step_loop.simps)
qed

lemma max_data_len: "n \<le> 268435456 \<Longrightarrow> of_nat n \<le> MAX_DATA_LEN"
  by (simp add: MAX_DATA_LEN_def word_le_nat_alt unat_of_nat take_bit_nat_eq_self)

lemma length_digits:
  assumes "dp_state p \<in> {PS_DataLen, PS_PayloadLen}" and "dp_num p = 0" and "n \<le> 268435456"
  shows "step_loop p idx (dec_bytes n @ rest) = step_loop (p\<lparr>dp_num := of_nat n\<rparr>) (idx + length (dec_bytes n)) rest"
proof -
  have one: "step_loop q i ((48 + of_nat d) # more) = step_loop (q\<lparr>dp_num := of_nat k\<rparr>) (i + 1) more"
    if "dp_state q \<in> {PS_DataLen, PS_PayloadLen}" "d < 10" "dp_num q * 10 + of_nat d = of_nat k" "k \<le> 268435456"
    for q i d k more
    using length_one [OF that(1) digit_byte_facts(1) [OF that(2)]] digit_byte_facts(2) [OF that(2), where 'a = 64]
      max_data_len [OF that(4)] that(3)
    by (simp add: push_digit_def)
  have "n \<le> 268435456 \<longrightarrow> (\<forall>idx rest. step_loop p idx (dec_bytes n @ rest) =
      step_loop (p\<lparr>dp_num := of_nat n\<rparr>) (idx + length (dec_bytes n)) rest)"
  proof (induction n rule: dec_bytes_induct)
    case (digit n)
    then show ?case using one [OF assms(1), of n n] assms(2) by simp
  next
    case (more n d)
    then show ?case using one [of "p\<lparr>dp_num := of_nat n\<rparr>" d "n * 10 + d"] assms(1) by auto
  qed
  with assms(3) show ?thesis by simp
qed

lemma data_bytes:
  "dp_state p = PS_Data \<Longrightarrow> dp_data_remaining p = of_nat (length d) \<Longrightarrow> length d < 2 ^ 32 \<Longrightarrow>
     step_loop p idx (d @ 32 # rest) =
     step_loop (p\<lparr>dp_dmsg := (dp_dmsg p)\<lparr>dm_data := dm_data (dp_dmsg p) @ d\<rparr>, dp_data_remaining := 0,
                  dp_state := PS_SpacesBeforePayloadLen\<rparr>) (idx + length d) (32 # rest)"
proof (induction d arbitrary: p idx)
  case Nil
  then show ?case by (cases p) (simp add: step_turn_data data_action_def)
next
  case (Cons ch d)
  have nz: "dp_data_remaining p \<noteq> 0"
  proof
    assume "dp_data_remaining p = 0"
    with Cons.prems have "unat (of_nat (length (ch # d)) :: u32) = 0" by simp
    with Cons.prems show False by (simp add: unat_of_nat_small del: of_nat_Suc)
  qed
  have rem: "dp_data_remaining (data_read p [ch]) = of_nat (length d)"
    using Cons.prems by (simp add: data_read_def Let_def)
  show ?case
  proof (cases "d = []")
    case True
    then show ?thesis using Cons.prems data_loop_byte [OF Cons.prems(1) nz, of idx ch "32 # rest"]
      by (simp add: data_read_def del: step_loop.simps)
  next
    case False
    have "(of_nat (length d) :: u32) \<noteq> 0"
    proof
      assume "(of_nat (length d) :: u32) = 0"
      then have "unat (of_nat (length d) :: u32) = 0" by simp
      with Cons.prems False show False by (simp add: unat_of_nat_small)
    qed
    then have st: "dp_state (data_read p [ch]) = PS_Data"
      using Cons.prems by (simp add: data_read_def Let_def)
    show ?thesis
      using Cons.IH [OF st rem] Cons.prems data_loop_byte [OF Cons.prems(1) nz, of idx ch "d @ 32 # rest"]
      by (simp add: data_read_def Let_def del: step_loop.simps)
  qed
qed

abbreviation at_field :: "dyn_parse_state \<Rightarrow> dmsg \<Rightarrow> dnode_parser" where
  "at_field st d \<equiv> \<lparr>dp_state = st, dp_num = 0, dp_dmsg = d, dp_data_remaining = 0, dp_magic_progress = 0,
     dp_prev_was_digit = False\<rparr>"

lemma read_magic:
  "step_loop parser_new 0 ([32, 32, 32] @ MAGIC @ [32] @ rest) = step_loop (at_field PS_MsgId dmsg_new) 10 rest"
  by (simp add: parser_new_def MAGIC_def step_turn_def start_action_def Let_def) (simp add: eval_nat_numeral)

lemma read_msg_id:
  "step_loop (at_field PS_MsgId d) idx (dec_bytes n @ [32] @ rest) =
     step_loop (at_field PS_TypeId (d\<lparr>dm_id := of_nat n\<rparr>)) (idx + length (dec_bytes n) + 1) rest"
  by (simp add: number_digits step_turn_def number_field_def next_field_def)

lemma from_as_u8: "dmsg_type_from_u8 (dmsg_type_as_u8 ty) = Some ty"
  by (cases ty) (simp_all add: dmsg_type_from_u8_def)

lemma ucast_u8_u64: "(ucast (of_nat (unat (x :: u8)) :: u64) :: u8) = x"
  by (simp add: of_nat_unat) (rule bit_word_eqI, auto simp: bit_simps)

lemma read_type_id:
  "step_loop (at_field PS_TypeId d) idx (dec_bytes (unat (dmsg_type_as_u8 ty)) @ [32] @ rest) =
     step_loop (at_field PS_BitField (d\<lparr>dm_ty := ty\<rparr>)) (idx + length (dec_bytes (unat (dmsg_type_as_u8 ty))) + 1) rest"
  by (simp add: number_digits step_turn_def number_field_def next_field_def ucast_u8_u64 from_as_u8 del: of_nat_unat)

lemma read_flags:
  "step_loop (at_field PS_BitField d) idx (dec_bytes (unat (f AND 0xF)) @ [32] @ rest) =
     step_loop (at_field PS_Version (d\<lparr>dm_flags := f AND 0xF\<rparr>)) (idx + length (dec_bytes (unat (f AND 0xF))) + 1) rest"
  by (simp add: number_digits step_turn_def number_field_def next_field_def ucast_u8_u64 and.assoc del: of_nat_unat)

lemma read_version:
  "step_loop (at_field PS_Version d) idx (dec_bytes (unat (v :: u8)) @ [32] @ rest) =
     step_loop (at_field PS_SameDc (d\<lparr>dm_version := v\<rparr>)) (idx + length (dec_bytes (unat v)) + 1) rest"
  by (simp add: number_digits step_turn_def number_field_def next_field_def ucast_u8_u64 del: of_nat_unat)

lemma read_same_dc:
  "step_loop (at_field PS_SameDc d) idx ([if b then 49 else 48] @ [32] @ [42] @ rest) =
     step_loop (at_field PS_DataLen (d\<lparr>dm_same_dc := b\<rparr>)) (idx + 3) rest"
  by (cases b) (simp_all add: step_turn_def next_field_def data_len_action_def numeral_3_eq_3)

lemma ucast_small: "n \<le> 268435456 \<Longrightarrow> (ucast (of_nat n :: u64) :: u32) = of_nat n"
  by (rule word_unat_eq_iff [THEN iffD2]) (simp add: unsigned_ucast_eq unat_of_nat_small take_bit_nat_eq_self)

lemma read_data:
  assumes "length x \<le> 268435456"
  shows "step_loop (at_field PS_DataLen d) idx (dec_bytes (length x) @ [32] @ x @ [32] @ [42] @ rest) =
     step_loop (at_field PS_PayloadLen (d\<lparr>dm_mlen := of_nat (length x), dm_data := x\<rparr>))
       (idx + length (dec_bytes (length x)) + 1 + length x + 2) rest"
proof -
  have "step_loop (at_field PS_DataLen d) idx (dec_bytes (length x) @ [32] @ x @ [32] @ [42] @ rest) =
      step_loop ((at_field PS_Data (d\<lparr>dm_mlen := of_nat (length x), dm_data := []\<rparr>))\<lparr>dp_data_remaining := of_nat (length x)\<rparr>)
        (idx + length (dec_bytes (length x)) + 1) (x @ 32 # 42 # rest)"
    using assms by (simp add: length_digits step_turn_def data_len_action_def Let_def ucast_small)
  also have "\<dots> = step_loop (at_field PS_SpacesBeforePayloadLen (d\<lparr>dm_mlen := of_nat (length x), dm_data := x\<rparr>))
       (idx + length (dec_bytes (length x)) + 1 + length x) (32 # 42 # rest)"
    using assms by (subst data_bytes) simp_all
  finally show ?thesis by (simp add: step_turn_def)
qed

lemma read_plen:
  assumes "plen \<le> 268435456"
  shows "step_loop (at_field PS_PayloadLen d) idx (dec_bytes (unat plen) @ CRLF @ rest) =
     (HeaderDone (idx + length (dec_bytes (unat plen)) + 2), at_field PS_Done (d\<lparr>dm_plen := plen\<rparr>))"
proof -
  have le: "unat plen \<le> 268435456" using assms by (simp add: word_le_nat_alt)
  have "(ucast (of_nat (unat plen) :: u64) :: u32) = of_nat (unat plen)" by (rule ucast_small [OF le])
  also have "\<dots> = plen" by simp
  finally have "(ucast (of_nat (unat plen) :: u64) :: u32) = plen" .
  with le show ?thesis
    by (simp add: length_digits step_turn_def payload_len_action_def CRLF_def del: of_nat_unat)
qed



lemma dmsg_write_readable:
  assumes "mbuf_ok m" and "dmsg_write m msg_id ty flags same_dc key plen = Inr m'"
  shows "mbuf_ok m' \<and> mbuf_readable m' = mbuf_readable m @ build_header msg_id ty flags same_dc key plen False"
proof -
  let ?h = "build_header msg_id ty flags same_dc key plen False"
  obtain n m1 where r: "mbuf_recv ?h m = (n, m1)" by (cases "mbuf_recv ?h m")
  from assms(2) r have "\<not> mbuf_remaining m < length ?h" "m' = m1"
    by (auto simp: dmsg_write_def write_chain_def split: if_splits)
  with mbuf_recv_ok [OF assms(1) r] show ?thesis by simp
qed

section \<open>Bounded buffering\<close>

text \<open>Feeding reads until the header is decided.\<close>

fun feed :: "dnode_parser \<Rightarrow> bytes list \<Rightarrow> parse_step \<times> dnode_parser" where
  "feed p [] = (NeedMore 0, p)"
| "feed p (c # cs) =
     (case dnode_step p c of
        (NeedMore _, p') \<Rightarrow> feed p' cs
      | r \<Rightarrow> r)"

definition bounded :: "dnode_parser \<Rightarrow> bool" where
  "bounded p \<longleftrightarrow> dp_magic_progress p < 6
     \<and> unat (dm_mlen (dp_dmsg p)) \<le> 268435456 \<and> unat (dm_plen (dp_dmsg p)) \<le> 268435456
     \<and> length (dm_data (dp_dmsg p)) \<le> unat (dm_mlen (dp_dmsg p))
     \<and> (dp_state p = PS_Data \<longrightarrow> length (dm_data (dp_dmsg p)) + unat (dp_data_remaining p) = unat (dm_mlen (dp_dmsg p)))"

definition num_bounded :: "dnode_parser \<Rightarrow> bool" where
  "num_bounded p \<longleftrightarrow> (dp_state p \<in> {PS_Star, PS_DataLen, PS_PayloadLen} \<longrightarrow> dp_num p \<le> MAX_DATA_LEN)"

lemma ucast_bounded:
  assumes "n \<le> MAX_DATA_LEN" shows "unat (ucast n :: u32) \<le> 268435456"
proof -
  have "unat n \<le> 268435456" using assms by (simp add: MAX_DATA_LEN_def word_le_nat_alt)
  then have "unat (ucast n :: u32) = unat n" by (simp add: unsigned_ucast_eq take_bit_nat_eq_self)
  with \<open>unat n \<le> 268435456\<close> show ?thesis by simp
qed

lemma data_read_bounded:
  assumes "bounded p" and "dp_state p = PS_Data" and "dp_data_remaining p \<noteq> 0"
  shows "bounded (data_read p [ch]) \<and> num_bounded (data_read p [ch])"
proof -
  have "unat (dp_data_remaining p - 1) = unat (dp_data_remaining p) - 1" using assms(3) by (simp add: unat_minus_one)
  moreover have "0 < unat (dp_data_remaining p)" using assms(3) by (simp add: unat_gt_0)
  ultimately show ?thesis using assms(1,2) by (auto simp: bounded_def num_bounded_def data_read_def Let_def)
qed

lemma step_turn_bounded:
  assumes "bounded p" and "num_bounded p" and "dp_state p \<noteq> PS_Data"
  shows "case step_turn p ch [ch] of
      Advance p' _ \<Rightarrow> bounded p' \<and> num_bounded p' | Reject p' \<Rightarrow> bounded p' | Finish p' _ \<Rightarrow> bounded p'"
  using assms ucast_bounded [of "dp_num p"]
  by (cases "dp_state p")
    (auto simp: step_turn_def start_action_def number_field_def next_field_def push_digit_def data_len_action_def
      payload_len_action_def bounded_def num_bounded_def Let_def MAGIC_def not_less split: option.splits)

lemma byte_turn_bounded:
  assumes "bounded p" and "num_bounded p"
  shows "case byte_turn p ch of
      Advance p' _ \<Rightarrow> bounded p' \<and> num_bounded p' | Reject p' \<Rightarrow> bounded p' | Finish p' _ \<Rightarrow> bounded p'"
proof (cases "dp_state p = PS_Data")
  case True
  have "bounded (p\<lparr>dp_state := PS_SpacesBeforePayloadLen\<rparr>)" "num_bounded (p\<lparr>dp_state := PS_SpacesBeforePayloadLen\<rparr>)"
    using assms by (auto simp: bounded_def num_bounded_def)
  from step_turn_bounded [OF this, of ch] True show ?thesis
    using data_read_bounded [OF assms(1) True] by (simp add: byte_turn_def)
next
  case False
  with step_turn_bounded [OF assms False, of ch] show ?thesis by (simp add: byte_turn_def)
qed

lemma step_loop_bounded:
  assumes "bounded p" and "num_bounded p"
  shows "case step_loop p idx input of (NeedMore _, p') \<Rightarrow> bounded p' \<and> num_bounded p' | (_, p') \<Rightarrow> bounded p'"
  using assms
proof (induction input arbitrary: p idx)
  case (Cons ch input)
  from byte_turn_bounded [OF Cons.prems, of ch] Cons.IH show ?case
    by (cases "byte_turn p ch") (simp_all add: step_loop_byte del: step_loop.simps)
qed simp

lemma feed_bounded: "bounded p \<Longrightarrow> num_bounded p \<Longrightarrow> bounded (snd (feed p cs))"
proof (induction cs arbitrary: p)
  case (Cons c cs)
  show ?case
  proof (cases "dnode_step p c")
    case (Pair r p')
    with step_loop_bounded [OF Cons.prems, of 0 c] Cons.IH [of p'] show ?thesis
      by (cases r) (simp_all add: dnode_step_def)
  qed
qed simp

text \<open>
  C26. However hostile the input, the parser buffers at most the announced number of data bytes,
  and never accepts an announced data or payload length above 256 MiB.
\<close>

theorem dnode_parser_bounded:
  "length (dm_data (dp_dmsg (snd (feed parser_new cs)))) \<le> unat (dm_mlen (dp_dmsg (snd (feed parser_new cs))))
   \<and> unat (dm_mlen (dp_dmsg (snd (feed parser_new cs)))) \<le> unat MAX_DATA_LEN
   \<and> unat (dm_plen (dp_dmsg (snd (feed parser_new cs)))) \<le> unat MAX_DATA_LEN"
proof -
  have "bounded parser_new" "num_bounded parser_new"
    by (simp_all add: bounded_def num_bounded_def parser_new_def dmsg_new_def)
  from feed_bounded [OF this, of cs] show ?thesis by (simp add: bounded_def MAX_DATA_LEN_def)
qed

section \<open>Observations\<close>

text \<open>
  \<open>parse_msg\<close> keeps only the parser state across calls and then parses the whole chain again: the
  header of the module's own example, arriving in two reads, is refused although it parses when it
  arrives at once.
\<close>

lemma parse_msg_not_resumable:
  assumes "mbuf_readable m1 = [36, 50, 48, 49, 52, 36, 32, 49, 32]"
    and "mbuf_readable m2 = [51, 32, 48, 32, 49, 32, 49, 32, 42, 49, 32, 100, 32, 42, 48, 13, 10]"
    and "mp_mbufs msg = [m1]" and "mp_dyn_parse_state msg = PS_Start"
  shows "fst (parse_msg msg) = MPR_Again
    \<and> fst (parse_msg ((snd (parse_msg msg))\<lparr>mp_mbufs := [m1, m2]\<rparr>)) = MPR_Error
    \<and> fst (parse_msg (msg\<lparr>mp_mbufs := [m1, m2]\<rparr>)) = MPR_Ok"
  using assms
  by (simp add: parse_msg_def dnode_step_def parser_new_def step_turn_def start_action_def MAGIC_def number_field_def
      push_digit_def next_field_def data_len_action_def data_action_def data_read_def payload_len_action_def
      dmsg_type_from_u8_def MAX_DATA_LEN_def Let_def)

text \<open>A type field of 259 is read as type 3, a request: the number is cut to eight bits.\<close>

lemma type_id_wraps:
  "dm_ty (dp_dmsg (snd (dnode_step parser_new [36, 50, 48, 49, 52, 36, 32, 49, 32, 50, 53, 57, 32]))) = DT_Req"
  by (simp add: dnode_step_def parser_new_def step_turn_def start_action_def MAGIC_def number_field_def
      push_digit_def next_field_def dmsg_type_from_u8_def dmsg_new_def Let_def)

end
