(* ===== verification/Hlc.thy ===== *)
theory Hlc
  imports Prelude "HOL-Library.Product_Lexorder" "HOL-Library.List_Lexorder"
begin

text \<open>
  The hybrid logical clock of \<open>crates/dyniak/src/datatypes/hlc.rs\<close>.  A stamp is a 48-bit physical
  component kept in a \<open>u64\<close> and a 16-bit counter; both event rules are fallible functions from the
  clock to the new clock.  The guarantees the module states are proved: each event moves the clock
  strictly forward, in any execution of several nodes exchanging stamps causal order implies stamp
  order, and the packed and the encoded form order the way the stamps do.
\<close>

unbundle bit_operations_syntax

section \<open>Stamps\<close>

definition MAX_LOGICAL :: u64 where
  "MAX_LOGICAL = push_bit 48 1 - 1"

definition MAX_COUNTER :: u16 where
  "MAX_COUNTER = - 1"

datatype hlc_error = LogicalOverflow | CounterOverflow | BadEncoding

datatype hlc = Hlc (hlc_l: u64) (hlc_c: u16)

definition hlc_key :: "hlc \<Rightarrow> u64 \<times> u16" where
  "hlc_key h = (hlc_l h, hlc_c h)"

lemma hlc_key_inject: "hlc_key a = hlc_key b \<longleftrightarrow> a = b"
  by (cases a; cases b) (simp add: hlc_key_def)

text \<open>The derived order: \<open>l\<close> first, then \<open>c\<close>.\<close>

instantiation hlc :: linorder
begin

definition less_eq_hlc :: "hlc \<Rightarrow> hlc \<Rightarrow> bool" where
  "less_eq_hlc a b = (hlc_key a \<le> hlc_key b)"

definition less_hlc :: "hlc \<Rightarrow> hlc \<Rightarrow> bool" where
  "less_hlc a b = (hlc_key a < hlc_key b)"

instance
  by standard (auto simp: less_eq_hlc_def less_hlc_def simp flip: hlc_key_inject)

end

lemma hlc_less_iff: "a < b \<longleftrightarrow> hlc_l a < hlc_l b \<or> hlc_l a = hlc_l b \<and> hlc_c a < hlc_c b"
  by (auto simp: less_hlc_def hlc_key_def)

definition hlc_cmp :: "hlc \<Rightarrow> hlc \<Rightarrow> ordering" where
  "hlc_cmp a b = then_with (compare_of (hlc_l a) (hlc_l b)) (compare_of (hlc_c a) (hlc_c b))"

lemma hlc_cmp_order: "hlc_cmp a b = compare_of a b"
  by (cases a; cases b) (auto simp: hlc_cmp_def compare_of_def hlc_less_iff)

definition hlc_zero :: hlc where
  "hlc_zero = Hlc 0 0"

definition hlc_from_parts :: "u64 \<Rightarrow> u16 \<Rightarrow> hlc_error + hlc" where
  "hlc_from_parts l c = (if l > MAX_LOGICAL then Inl LogicalOverflow else Inr (Hlc l c))"

section \<open>Event rules\<close>

text \<open>\<open>checked_add(1).ok_or(HlcError::CounterOverflow)?\<close>\<close>

definition bump :: "u16 \<Rightarrow> hlc_error + u16" where
  "bump c = (case checked_add c 1 of None \<Rightarrow> Inl CounterOverflow | Some c' \<Rightarrow> Inr c')"

definition try_tick :: "u64 \<Rightarrow> hlc \<Rightarrow> hlc_error + hlc" where
  "try_tick physical_now self =
     (if physical_now > MAX_LOGICAL then Inl LogicalOverflow
      else
        let prev_l = hlc_l self;
            new_l = max prev_l physical_now;
            new_c = (if new_l = prev_l then bump (hlc_c self) else Inr 0)
        in case new_c of Inl e \<Rightarrow> Inl e | Inr c \<Rightarrow> Inr (Hlc new_l c))"

definition try_update :: "hlc \<Rightarrow> u64 \<Rightarrow> hlc \<Rightarrow> hlc_error + hlc" where
  "try_update received physical_now self =
     (if physical_now > MAX_LOGICAL \<or> hlc_l received > MAX_LOGICAL then Inl LogicalOverflow
      else
        let prev_l = hlc_l self;
            l_m = hlc_l received;
            new_l = max (max prev_l l_m) physical_now;
            new_c =
              (if new_l = prev_l \<and> new_l = l_m then bump (max (hlc_c self) (hlc_c received))
               else if new_l = prev_l then bump (hlc_c self)
               else if new_l = l_m then bump (hlc_c received)
               else Inr 0)
        in case new_c of Inl e \<Rightarrow> Inl e | Inr c \<Rightarrow> Inr (Hlc new_l c))"

text \<open>\<open>tick\<close> and \<open>update\<close> panic on an error.\<close>

definition hlc_tick :: "u64 \<Rightarrow> hlc \<Rightarrow> hlc option" where
  "hlc_tick physical_now self =
     (case try_tick physical_now self of Inl _ \<Rightarrow> None | Inr h \<Rightarrow> Some h)"

definition hlc_update :: "hlc \<Rightarrow> u64 \<Rightarrow> hlc \<Rightarrow> hlc option" where
  "hlc_update received physical_now self =
     (case try_update received physical_now self of Inl _ \<Rightarrow> None | Inr h \<Rightarrow> Some h)"

text \<open>
  \<open>now_from_wall_clock\<close> with the clock reading as argument: \<open>None\<close> is a reading before the epoch,
  \<open>Some n\<close> a \<open>u128\<close> number of milliseconds.
\<close>

definition hlc_now :: "nat option \<Rightarrow> hlc \<Rightarrow> hlc option" where
  "hlc_now since_epoch self =
     (let millis = (case since_epoch of None \<Rightarrow> 0 | Some d \<Rightarrow> d);
          pt = min (if millis < 2 ^ 64 then of_nat millis else MAX_LOGICAL) MAX_LOGICAL
      in hlc_tick pt self)"

section \<open>Scalar and wire form\<close>

definition hlc_pack :: "hlc \<Rightarrow> u64" where
  "hlc_pack h = push_bit 16 (hlc_l h) OR ucast (hlc_c h)"

definition hlc_unpack :: "u64 \<Rightarrow> hlc" where
  "hlc_unpack packed = Hlc (drop_bit 16 packed) (ucast (packed AND 0xffff))"

definition hlc_encode :: "hlc \<Rightarrow> bytes" where
  "hlc_encode h = u64_to_be (hlc_pack h)"

definition hlc_decode :: "bytes \<Rightarrow> hlc_error + hlc" where
  "hlc_decode b = (if length b = 8 then Inr (hlc_unpack (u64_from_be b)) else Inl BadEncoding)"

section \<open>Each event moves the clock forward\<close>

definition hlc_ok :: "hlc \<Rightarrow> bool" where
  "hlc_ok h \<longleftrightarrow> hlc_l h \<le> MAX_LOGICAL"

lemma bump_Inr: "bump c = Inr c' \<Longrightarrow> c < c'"
  by (auto simp: bump_def checked_add_1_less split: option.splits)

lemma unat_MAX_COUNTER: "unat MAX_COUNTER = 65535"
  by (simp add: MAX_COUNTER_def unsigned_minus_1_eq_mask mask_eq_exp_minus_1)

lemma bump_eq: "bump c = (if c = MAX_COUNTER then Inl CounterOverflow else Inr (c + 1))"
proof -
  have "checked_add c 1 = None \<longleftrightarrow> c = MAX_COUNTER"
  proof -
    have "unat c < 65536" using unsigned_less [where ?'a = nat and w = c] by simp
    then show ?thesis by (auto simp: checked_add_None unat_MAX_COUNTER
          intro!: word_unat_eq_iff [THEN iffD2])
  qed
  then show ?thesis by (auto simp: bump_def checked_add_def split: option.splits if_splits)
qed

lemma try_tick_InrD:
  assumes "try_tick pt h = Inr h'"
  shows "h < h'" and "hlc_l h' = max (hlc_l h) pt" and "hlc_ok h \<Longrightarrow> hlc_ok h'"
  using assms
  by (auto simp: try_tick_def Let_def hlc_less_iff hlc_ok_def max_def dest!: bump_Inr split: if_splits sum.splits)

lemma try_update_InrD:
  assumes "try_update m pt h = Inr h'"
  shows "h < h'" and "m < h'" and "hlc_l h' = max (max (hlc_l h) (hlc_l m)) pt"
    and "hlc_ok h \<Longrightarrow> hlc_ok h'"
  using assms
  by (auto simp: try_update_def Let_def hlc_less_iff hlc_ok_def max_def dest!: bump_Inr split: if_splits sum.splits)

text \<open>
  C32. The event rules fail exactly where they say: with \<open>LogicalOverflow\<close> when a physical time or a
  received component exceeds 48 bits, with \<open>CounterOverflow\<close> when physical time does not move past
  the winning component and the counter of that side is exhausted; otherwise they return a stamp.
\<close>

theorem hlc_errors:
  "(try_tick pt h = Inl e \<longleftrightarrow>
     (if pt > MAX_LOGICAL then e = LogicalOverflow
      else e = CounterOverflow \<and> pt \<le> hlc_l h \<and> hlc_c h = MAX_COUNTER))
   \<and> (try_update m pt h = Inl e \<longleftrightarrow>
     (if pt > MAX_LOGICAL \<or> hlc_l m > MAX_LOGICAL then e = LogicalOverflow
      else e = CounterOverflow \<and>
        (pt \<le> hlc_l h \<and> hlc_l m \<le> hlc_l h \<and> hlc_c h = MAX_COUNTER
         \<or> pt \<le> hlc_l m \<and> hlc_l h \<le> hlc_l m \<and> hlc_c m = MAX_COUNTER)))"
proof -
  have mx: "max a b = MAX_COUNTER \<longleftrightarrow> a = MAX_COUNTER \<or> b = MAX_COUNTER" for a b
    by (auto simp: MAX_COUNTER_def max_def word_order.extremum_unique)
  have top: "a \<le> MAX_COUNTER" "MAX_COUNTER \<le> a \<longleftrightarrow> a = MAX_COUNTER" for a
    by (simp_all add: MAX_COUNTER_def word_order.extremum_unique)
  have "try_tick pt h = Inl e \<longleftrightarrow>
     (if pt > MAX_LOGICAL then e = LogicalOverflow
      else e = CounterOverflow \<and> pt \<le> hlc_l h \<and> hlc_c h = MAX_COUNTER)"
    by (auto simp: try_tick_def Let_def bump_eq max_def split: sum.split)
  moreover have "try_update m pt h = Inl e \<longleftrightarrow>
     (if pt > MAX_LOGICAL \<or> hlc_l m > MAX_LOGICAL then e = LogicalOverflow
      else e = CounterOverflow \<and>
        (pt \<le> hlc_l h \<and> hlc_l m \<le> hlc_l h \<and> hlc_c h = MAX_COUNTER
         \<or> pt \<le> hlc_l m \<and> hlc_l h \<le> hlc_l m \<and> hlc_c m = MAX_COUNTER))"
    unfolding try_update_def Let_def
    by (auto simp: bump_eq mx top max_def split: sum.split if_splits)
  ultimately show ?thesis by blast
qed

text \<open>
  A wedged wall clock makes even \<open>now_from_wall_clock\<close> panic: clamping the reading bounds \<open>l\<close> only.
\<close>

lemma hlc_now_can_panic: "hlc_now (Some 5) (Hlc 5 MAX_COUNTER) = None"
  by (simp add: hlc_now_def hlc_tick_def try_tick_def bump_def checked_add_def
      unat_MAX_COUNTER MAX_LOGICAL_def)

section \<open>Executions\<close>

text \<open>
  Nodes that run local (or send) events and receive the stamp of an earlier event, in one global
  order of events.  \<open>hlc_exec\<close> computes the stamp of every event by the two rules.
\<close>

datatype hlc_event = Local_event nat u64 | Receive_event nat nat u64

fun event_node :: "hlc_event \<Rightarrow> nat" where
  "event_node (Local_event n _) = n"
| "event_node (Receive_event n _ _) = n"

fun event_time :: "hlc_event \<Rightarrow> u64" where
  "event_time (Local_event _ pt) = pt"
| "event_time (Receive_event _ _ pt) = pt"

fun event_stamp :: "hlc list \<Rightarrow> hlc_event \<Rightarrow> hlc \<Rightarrow> hlc option" where
  "event_stamp out (Local_event _ pt) h = hlc_tick pt h"
| "event_stamp out (Receive_event _ s pt) h = (if s < length out then hlc_update (out ! s) pt h else None)"

fun hlc_exec :: "hlc_event list \<Rightarrow> (nat \<Rightarrow> hlc) \<Rightarrow> hlc list \<Rightarrow> hlc list option" where
  "hlc_exec [] clk out = Some out"
| "hlc_exec (e # es) clk out =
     (case event_stamp out e (clk (event_node e)) of
        None \<Rightarrow> None
      | Some h \<Rightarrow> hlc_exec es (clk(event_node e := h)) (out @ [h]))"

text \<open>Happens-before: program order on a node, send before receive, and their transitive closure.\<close>

inductive hlc_before :: "hlc_event list \<Rightarrow> nat \<Rightarrow> nat \<Rightarrow> bool" for es where
  program_order: "i < j \<Longrightarrow> j < length es \<Longrightarrow> event_node (es ! i) = event_node (es ! j) \<Longrightarrow> hlc_before es i j"
| message: "j < length es \<Longrightarrow> es ! j = Receive_event n i pt \<Longrightarrow> hlc_before es i j"
| trans: "hlc_before es i j \<Longrightarrow> hlc_before es j k \<Longrightarrow> hlc_before es i k"

text \<open>What is known after the events \<open>done\<close>, with clocks \<open>clk\<close> and stamps \<open>out\<close>.\<close>

definition exec_inv :: "hlc_event list \<Rightarrow> (nat \<Rightarrow> hlc) \<Rightarrow> hlc list \<Rightarrow> bool" where
  "exec_inv evs clk out \<longleftrightarrow> length out = length evs
     \<and> (\<forall>i < length evs. out ! i \<le> clk (event_node (evs ! i)))
     \<and> (\<forall>j < length evs. event_time (evs ! j) \<le> hlc_l (out ! j))
     \<and> (\<forall>n. hlc_l (clk n) = 0 \<or> hlc_l (clk n) \<in> event_time ` set evs)
     \<and> (\<forall>j < length evs. hlc_l (out ! j) = 0 \<or> hlc_l (out ! j) \<in> event_time ` set evs)
     \<and> (\<forall>i j. i < j \<longrightarrow> j < length evs \<longrightarrow> event_node (evs ! i) = event_node (evs ! j) \<longrightarrow> out ! i < out ! j)
     \<and> (\<forall>j < length evs. \<forall>n i pt. evs ! j = Receive_event n i pt \<longrightarrow> i < j \<and> out ! i < out ! j)"

lemma event_stampD:
  assumes "event_stamp out e h = Some h'"
  shows "h < h'" and "event_time e \<le> hlc_l h'" and "e = Receive_event n s pt \<Longrightarrow> s < length out \<and> out ! s < h'"
    and "hlc_l h' = hlc_l h \<or> hlc_l h' = event_time e \<or> (\<exists>s < length out. hlc_l h' = hlc_l (out ! s))"
proof -
  show "h < h'" "event_time e \<le> hlc_l h'" "e = Receive_event n s pt \<Longrightarrow> s < length out \<and> out ! s < h'"
    using assms
    by (cases e; auto simp: hlc_tick_def hlc_update_def try_tick_InrD try_update_InrD split: sum.splits if_splits)+
  show "hlc_l h' = hlc_l h \<or> hlc_l h' = event_time e \<or> (\<exists>s < length out. hlc_l h' = hlc_l (out ! s))"
    using assms
    by (cases e) (auto simp: hlc_tick_def hlc_update_def try_tick_InrD(2) try_update_InrD(3) max_def
        split: sum.splits if_splits)
qed

lemma exec_inv_step:
  assumes inv: "exec_inv evs clk out" and st: "event_stamp out e (clk (event_node e)) = Some h"
  shows "exec_inv (evs @ [e]) (clk(event_node e := h)) (out @ [h])"
proof -
  note d = event_stampD [OF st]
  have len: "length out = length evs" using inv by (simp add: exec_inv_def)
  have le: "out ! i < h" if "i < length evs" "event_node (evs ! i) = event_node e" for i
    using inv that d(1) by (auto simp: exec_inv_def intro: le_less_trans)
  have h: "hlc_l h = 0 \<or> hlc_l h \<in> event_time ` set (evs @ [e])"
    using d(4) inv len by (auto simp: exec_inv_def)
  show ?thesis
    unfolding exec_inv_def
  proof (intro conjI)
    show "length (out @ [h]) = length (evs @ [e])" using len by simp
    show "\<forall>i < length (evs @ [e]). (out @ [h]) ! i \<le> (clk(event_node e := h)) (event_node ((evs @ [e]) ! i))"
      using inv le by (auto simp: exec_inv_def nth_append less_Suc_eq len intro: less_imp_le)
    show "\<forall>j < length (evs @ [e]). event_time ((evs @ [e]) ! j) \<le> hlc_l ((out @ [h]) ! j)"
      using inv d(2) by (auto simp: exec_inv_def nth_append less_Suc_eq)
    show "\<forall>n. hlc_l ((clk(event_node e := h)) n) = 0 \<or> hlc_l ((clk(event_node e := h)) n) \<in> event_time ` set (evs @ [e])"
      using inv h by (auto simp: exec_inv_def)
    show "\<forall>j < length (evs @ [e]). hlc_l ((out @ [h]) ! j) = 0 \<or> hlc_l ((out @ [h]) ! j) \<in> event_time ` set (evs @ [e])"
      using inv h by (auto simp: exec_inv_def nth_append less_Suc_eq)
    show "\<forall>i j. i < j \<longrightarrow> j < length (evs @ [e]) \<longrightarrow> event_node ((evs @ [e]) ! i) = event_node ((evs @ [e]) ! j)
        \<longrightarrow> (out @ [h]) ! i < (out @ [h]) ! j"
      using inv le by (auto simp: exec_inv_def nth_append less_Suc_eq)
    show "\<forall>j < length (evs @ [e]). \<forall>n i pt. (evs @ [e]) ! j = Receive_event n i pt \<longrightarrow>
        i < j \<and> (out @ [h]) ! i < (out @ [h]) ! j"
      using inv d(3) by (auto simp: exec_inv_def nth_append less_Suc_eq)
  qed
qed

lemma hlc_exec_inv:
  "hlc_exec es clk out = Some out' \<Longrightarrow> exec_inv evs clk out \<Longrightarrow> \<exists>clk'. exec_inv (evs @ es) clk' out'"
proof (induction es clk out arbitrary: evs rule: hlc_exec.induct)
  case (1 clk out)
  then show ?case by auto
next
  case (2 e es clk out)
  then obtain h where st: "event_stamp out e (clk (event_node e)) = Some h"
    and ex: "hlc_exec es (clk(event_node e := h)) (out @ [h]) = Some out'"
    by (auto split: option.splits)
  from 2(1) [OF st ex exec_inv_step [OF 2(3) st]] show ?case by simp
qed

text \<open>
  C2. Causality capture and physical closeness: in every execution that no overflow stops, an event
  that happens before another has a strictly smaller stamp; and the physical component of every
  stamp is at least the event's own clock reading and is some clock reading of the execution (or
  the initial zero), so a stamp is never ahead of every clock.
\<close>

theorem hlc_captures_causality:
  assumes "hlc_exec es (\<lambda>_. hlc_zero) [] = Some out"
  shows "length out = length es
    \<and> (\<forall>i j. hlc_before es i j \<longrightarrow> out ! i < out ! j)
    \<and> (\<forall>j < length es. event_time (es ! j) \<le> hlc_l (out ! j)
         \<and> (hlc_l (out ! j) = 0 \<or> hlc_l (out ! j) \<in> event_time ` set es))"
proof -
  have "exec_inv [] (\<lambda>_. hlc_zero) []" by (simp add: exec_inv_def hlc_zero_def)
  from hlc_exec_inv [OF assms this] obtain clk where inv: "exec_inv es clk out" by auto
  have "out ! i < out ! j" if "hlc_before es i j" for i j
    using that
  proof induction
    case (program_order i j)
    then show ?case using inv by (simp add: exec_inv_def)
  next
    case (message j n i pt)
    then show ?case using inv by (simp add: exec_inv_def)
  next
    case (trans i j k)
    then show ?case by simp
  qed
  then show ?thesis using inv by (simp add: exec_inv_def)
qed

theorem hlc_captures_causality_witness:
  "\<exists>out. hlc_exec [Local_event 0 10, Receive_event 1 0 7, Local_event 1 8] (\<lambda>_. hlc_zero) [] = Some out
     \<and> out ! 0 < out ! 2"
proof -
  let ?es = "[Local_event 0 10, Receive_event 1 0 7, Local_event 1 8]"
  let ?out = "[Hlc 10 0, Hlc 10 1, Hlc 10 2]"
  have ex: "hlc_exec ?es (\<lambda>_. hlc_zero) [] = Some ?out"
    by (simp add: hlc_tick_def hlc_update_def try_tick_def try_update_def hlc_zero_def bump_def
        checked_add_def MAX_LOGICAL_def max_def)
  have "hlc_before ?es 0 1" by (rule hlc_before.message) auto
  moreover have "hlc_before ?es 1 2" by (rule hlc_before.program_order) auto
  ultimately have "hlc_before ?es 0 2" by (rule hlc_before.trans)
  with hlc_captures_causality [OF ex] have "?out ! 0 < ?out ! 2" by blast
  with ex show ?thesis by blast
qed

section \<open>Packed and encoded stamps\<close>

lemma unat_hlc_pack: "hlc_ok h \<Longrightarrow> unat (hlc_pack h) = unat (hlc_l h) * 65536 + unat (hlc_c h)"
proof -
  assume ok: "hlc_ok h"
  have m: "unat MAX_LOGICAL = 2 ^ 48 - 1" by (simp add: MAX_LOGICAL_def)
  then have l: "unat (hlc_l h) < 2 ^ 48" using ok by (simp add: hlc_ok_def word_le_nat_alt)
  have c: "unat (hlc_c h) < 65536" using unsigned_less [where ?'a = nat and w = "hlc_c h"] by simp
  have p: "unat (push_bit 16 (hlc_l h)) = unat (hlc_l h) * 65536"
    using l by (simp only: unsigned_push_bit_eq) (simp add: push_bit_eq_mult take_bit_nat_eq_self)
  have u: "unat ((ucast (hlc_c h) :: u64)) = unat (hlc_c h)"
    using c by (simp add: unsigned_ucast_eq take_bit_nat_eq_self)
  have "push_bit 16 (hlc_l h) AND (ucast (hlc_c h) :: u64) = 0"
    by (rule bit_word_eqI) (auto simp: bit_simps dest: bit_imp_le_length)
  then have "hlc_pack h = push_bit 16 (hlc_l h) + (ucast (hlc_c h) :: u64)"
    using word_plus_and_or [of "push_bit 16 (hlc_l h)" "ucast (hlc_c h)"] by (simp add: hlc_pack_def)
  then show ?thesis using p u l c by (simp add: unat_add_exact)
qed

lemma hlc_pack_roundtrip [codec]:
  assumes "hlc_ok h"
  shows "hlc_unpack (hlc_pack h) = h"
proof -
  note u = unat_hlc_pack [OF assms]
  have c: "unat (hlc_c h) < 65536" using unsigned_less [where ?'a = nat and w = "hlc_c h"] by simp
  have "unat (drop_bit 16 (hlc_pack h)) = unat (hlc_l h)"
    using c unsigned_less [where ?'a = nat and w = "hlc_pack h"]
    by (simp only: unsigned_drop_bit_eq u) (simp add: drop_bit_eq_div take_bit_nat_eq_self)
  then have "drop_bit 16 (hlc_pack h) = hlc_l h" by (simp add: word_unat_eq_iff)
  moreover have m: "hlc_pack h AND 0xffff = take_bit 16 (hlc_pack h)"
    by (simp add: take_bit_eq_mask mask_eq_exp_minus_1)
  have "ucast (take_bit 16 (hlc_pack h)) = hlc_c h"
    by (rule bit_word_eqI) (auto simp: hlc_pack_def bit_simps)
  then have "ucast (hlc_pack h AND 0xffff) = hlc_c h" by (simp only: m)
  ultimately show ?thesis by (cases h) (simp add: hlc_unpack_def)
qed

lemma hlc_pack_less:
  assumes "hlc_ok a" and "hlc_ok b"
  shows "hlc_pack a < hlc_pack b \<longleftrightarrow> a < b"
proof -
  have c: "unat (hlc_c a) < 65536" "unat (hlc_c b) < 65536"
    using unsigned_less [where ?'a = nat and w = "hlc_c a"] unsigned_less [where ?'a = nat and w = "hlc_c b"]
    by simp_all
  have lex: "x * 65536 + u < y * 65536 + v \<longleftrightarrow> x < y \<or> x = y \<and> u < v"
    if "u < 65536" "v < 65536" for x y u v :: nat
    using that by (cases x y rule: linorder_cases) linarith+
  show ?thesis
    by (simp only: word_less_nat_alt [of "hlc_pack a"] unat_hlc_pack assms lex [OF c])
      (auto simp: hlc_less_iff word_less_nat_alt word_unat_eq_iff)
qed

text \<open>Big-endian bytes of one width compare as the numbers do.\<close>

lemma be_bytes_less:
  assumes "x < 256 ^ n" and "y < 256 ^ n"
  shows "be_bytes n x < be_bytes n y \<longleftrightarrow> x < y"
  using assms
proof (induction n arbitrary: x y)
  case 0
  then show ?case by simp
next
  case (Suc n)
  let ?m = "256 ^ n"
  have q: "x div ?m < 256" "y div ?m < 256" using Suc.prems by (simp_all add: less_mult_imp_div_less)
  then have "(of_nat (x div ?m) :: u8) < of_nat (y div ?m) \<longleftrightarrow> x div ?m < y div ?m"
    and "(of_nat (x div ?m) :: u8) = of_nat (y div ?m) \<longleftrightarrow> x div ?m = y div ?m"
    by (simp_all add: word_less_nat_alt word_unat_eq_iff unat_of_nat)
  moreover have "x < y \<longleftrightarrow> x div ?m < y div ?m \<or> x div ?m = y div ?m \<and> x mod ?m < y mod ?m"
  proof -
    have "x < y" if "x div ?m < y div ?m" using that by (metis div_le_mono leD not_le_imp_less)
    moreover have "x < y \<longleftrightarrow> x mod ?m < y mod ?m" if "x div ?m = y div ?m"
      using that by (metis add_less_cancel_left div_mult_mod_eq)
    moreover have "x div ?m \<le> y div ?m" if "x < y" using that by (simp add: div_le_mono)
    ultimately show ?thesis by (metis le_neq_implies_less)
  qed
  ultimately show ?case using Suc.IH [of "x mod ?m" "y mod ?m"] by simp
qed

text \<open>
  C33. The scalar and the wire form carry the clock: unpacking the packed stamp and decoding the
  encoded stamp give it back, and numeric order of packed stamps and byte-wise order of encoded
  stamps are the stamp order, for all stamps whose physical component fits 48 bits.
\<close>

theorem hlc_scalar_form:
  assumes "hlc_ok a" and "hlc_ok b"
  shows "hlc_unpack (hlc_pack a) = a \<and> hlc_decode (hlc_encode a) = Inr a
    \<and> (hlc_pack a < hlc_pack b \<longleftrightarrow> a < b) \<and> (hlc_encode a < hlc_encode b \<longleftrightarrow> a < b)"
proof -
  have lt: "unat (hlc_pack h) < 256 ^ 8" for h
    using unsigned_less [where ?'a = nat and w = "hlc_pack h"] by simp
  have "hlc_encode a < hlc_encode b \<longleftrightarrow> hlc_pack a < hlc_pack b"
    unfolding hlc_encode_def by (simp only: be_bytes_less [OF lt lt] word_less_nat_alt)
  then show ?thesis
    using assms by (simp add: hlc_pack_less hlc_pack_roundtrip hlc_decode_def hlc_encode_def del: be_bytes.simps)
qed

theorem hlc_scalar_form_witness:
  "hlc_decode (hlc_encode (Hlc 10 3)) = Inr (Hlc 10 3) \<and> hlc_encode (Hlc 10 3) < hlc_encode (Hlc 11 0)"
  using hlc_scalar_form [of "Hlc 10 3" "Hlc 11 0"]
  by (simp add: hlc_ok_def MAX_LOGICAL_def hlc_less_iff)

end
