(* ===== verification/Causal_Clock.thy ===== *)
theory Causal_Clock
  imports Main
begin

text \<open>
  What a dynamic causality clock promises: a stamp gives every point of a space a counter and owns a
  part of the space; forking divides the part, joining unites parts and takes the greater counters,
  and an event raises a counter of the part.  From these laws alone, the order of the counters is the
  inclusion of causal histories.  A history is a set of event numbers, and \<open>n\<close> is the number of events
  so far.
\<close>

locale causal_clock =
  fixes val :: "'s \<Rightarrow> 'p \<Rightarrow> nat" and own :: "'s \<Rightarrow> 'p \<Rightarrow> bool" and wf :: "nat \<Rightarrow> 's \<Rightarrow> bool"
    and limit :: nat
    and fork :: "'s \<Rightarrow> 's \<times> 's" and join :: "'s \<Rightarrow> 's \<Rightarrow> 's option"
    and event :: "'s \<Rightarrow> 's option" and peek :: "'s \<Rightarrow> 's" and leq :: "'s \<Rightarrow> 's \<Rightarrow> bool"
  assumes wf_Suc: "wf n s \<Longrightarrow> wf (Suc n) s"
    and fork: "wf n s \<Longrightarrow> fork s = (a, b) \<Longrightarrow> wf n a \<and> wf n b \<and> val a = val s \<and> val b = val s
      \<and> (\<forall>p. (own s p \<longleftrightarrow> own a p \<or> own b p) \<and> \<not> (own a p \<and> own b p))"
    and join: "n < limit \<Longrightarrow> wf n a \<Longrightarrow> wf n b \<Longrightarrow> (\<And>p. \<not> (own a p \<and> own b p)) \<Longrightarrow> \<exists>c. join a b = Some c \<and> wf n c
      \<and> (\<forall>p. val c p = max (val a p) (val b p) \<and> (own c p \<longleftrightarrow> own a p \<or> own b p))"
    and event: "Suc n < limit \<Longrightarrow> wf n s \<Longrightarrow> own s q \<Longrightarrow> \<exists>t. event s = Some t \<and> wf (Suc n) t \<and> own t = own s
      \<and> (\<forall>p. val s p \<le> val t p \<and> (\<not> own s p \<longrightarrow> val t p = val s p)) \<and> (\<exists>p. own s p \<and> val s p < val t p)"
    and event_None: "wf n s \<Longrightarrow> (\<And>p. \<not> own s p) \<Longrightarrow> event s = None"
    and peek: "wf n s \<Longrightarrow> wf n (peek s) \<and> val (peek s) = val s \<and> (\<forall>p. \<not> own (peek s) p)"
    and leq: "n < limit \<Longrightarrow> wf n a \<Longrightarrow> wf n b \<Longrightarrow> leq a b \<longleftrightarrow> (\<forall>p. val a p \<le> val b p)"
begin

text \<open>
  The ghost state: \<open>V k\<close> is the counters right after event \<open>k\<close>, and \<open>w k\<close> a point whose counter that
  event raised above every other stamp's.  \<open>tracks\<close> relates a stamp to its history, and \<open>apart\<close> two
  stamps that are live together.
\<close>

definition tracks :: "nat \<Rightarrow> (nat \<Rightarrow> 'p \<Rightarrow> nat) \<Rightarrow> (nat \<Rightarrow> 'p) \<Rightarrow> 's \<times> nat set \<Rightarrow> bool" where
  "tracks n V w = (\<lambda>(s, h). wf n s \<and> h \<subseteq> {..<n}
     \<and> (\<forall>k < n. own s (w k) \<longrightarrow> k \<in> h)
     \<and> (\<forall>k \<in> h. \<forall>p. V k p \<le> val s p)
     \<and> (\<forall>p. val s p = 0 \<or> (\<exists>k \<in> h. val s p \<le> V k p))
     \<and> (\<forall>k < n. k \<notin> h \<longrightarrow> val s (w k) < V k (w k)))"

definition apart :: "'s \<times> nat set \<Rightarrow> 's \<times> nat set \<Rightarrow> bool" where
  "apart x y \<longleftrightarrow> (\<forall>p. \<not> (own (fst x) p \<and> own (fst y) p)
     \<and> (own (fst x) p \<longrightarrow> val (fst y) p \<le> val (fst x) p) \<and> (own (fst y) p \<longrightarrow> val (fst x) p \<le> val (fst y) p))"

lemma apart_sym: "apart x y \<Longrightarrow> apart y x"
  by (auto simp: apart_def)

lemma tracks_wf: "tracks n V w (s, h) \<Longrightarrow> wf n s"
  by (simp add: tracks_def)

lemma tracks_fork:
  assumes "tracks n V w (s, h)" and "fork s = (a, b)"
  shows "tracks n V w (a, h) \<and> tracks n V w (b, h) \<and> apart (a, h) (b, h)
    \<and> (\<forall>z. apart (s, h) z \<longrightarrow> apart (a, h) z \<and> apart (b, h) z)"
proof -
  note f = fork [OF tracks_wf [OF assms(1)] assms(2)]
  then have v: "val a = val s" "val b = val s" and w: "wf n a" "wf n b" by blast+
  have o: "own s p \<longleftrightarrow> own a p \<or> own b p" "\<not> (own a p \<and> own b p)" for p using f by blast+
  show ?thesis
  proof (intro conjI)
    show "tracks n V w (a, h)" using assms(1) w(1) o(1) unfolding tracks_def prod.case v by blast
    show "tracks n V w (b, h)" using assms(1) w(2) o(1) unfolding tracks_def prod.case v by blast
    show "apart (a, h) (b, h)" using o(2) by (simp add: apart_def v)
    show "\<forall>z. apart (s, h) z \<longrightarrow> apart (a, h) z \<and> apart (b, h) z" using o by (simp add: apart_def v) blast
  qed
qed

lemma tracks_join:
  assumes "n < limit" and "tracks n V w (a, ha)" and "tracks n V w (b, hb)" and "apart (a, ha) (b, hb)"
  shows "\<exists>c. join a b = Some c \<and> tracks n V w (c, ha \<union> hb)
    \<and> (\<forall>z. apart (a, ha) z \<longrightarrow> apart (b, hb) z \<longrightarrow> apart (c, ha \<union> hb) z)"
proof -
  have "\<not> (own a p \<and> own b p)" for p using assms(4) by (simp add: apart_def)
  from join [OF assms(1) tracks_wf [OF assms(2)] tracks_wf [OF assms(3)] this]
  obtain c where c: "join a b = Some c" "wf n c" and v: "\<And>p. val c p = max (val a p) (val b p)"
    and o: "\<And>p. own c p \<longleftrightarrow> own a p \<or> own b p" by blast
  have A: "ha \<subseteq> {..<n}" "\<And>k. k < n \<Longrightarrow> own a (w k) \<Longrightarrow> k \<in> ha" "\<And>k p. k \<in> ha \<Longrightarrow> V k p \<le> val a p"
      "\<And>p. val a p = 0 \<or> (\<exists>k \<in> ha. val a p \<le> V k p)" "\<And>k. k < n \<Longrightarrow> k \<notin> ha \<Longrightarrow> val a (w k) < V k (w k)"
    and B: "hb \<subseteq> {..<n}" "\<And>k. k < n \<Longrightarrow> own b (w k) \<Longrightarrow> k \<in> hb" "\<And>k p. k \<in> hb \<Longrightarrow> V k p \<le> val b p"
      "\<And>p. val b p = 0 \<or> (\<exists>k \<in> hb. val b p \<le> V k p)" "\<And>k. k < n \<Longrightarrow> k \<notin> hb \<Longrightarrow> val b (w k) < V k (w k)"
    using assms(2,3) unfolding tracks_def by auto
  have "tracks n V w (c, ha \<union> hb)"
    unfolding tracks_def prod.case
  proof (intro conjI allI impI ballI)
    fix p
    show "val c p = 0 \<or> (\<exists>k \<in> ha \<union> hb. val c p \<le> V k p)"
      using A(4) [of p] B(4) [of p] by (auto simp: v max_def)
  next
    fix k p
    assume "k \<in> ha \<union> hb"
    then show "V k p \<le> val c p" using A(3) [of k p] B(3) [of k p] by (auto simp: v)
  qed (use A(1,2,5) B(1,2,5) c(2) in \<open>auto simp: v o\<close>)
  moreover have "apart (c, ha \<union> hb) z" if "apart (a, ha) z" "apart (b, hb) z" for z
    using that by (auto simp: apart_def v o)
  ultimately show ?thesis using c(1) by blast
qed

lemma tracks_peek:
  assumes "tracks n V w (s, h)"
  shows "tracks n V w (peek s, h) \<and> apart (s, h) (peek s, h) \<and> (\<forall>z. apart (s, h) z \<longrightarrow> apart (peek s, h) z)"
proof -
  note p = peek [OF tracks_wf [OF assms]]
  then have v: "val (peek s) = val s" and o: "\<And>p. \<not> own (peek s) p" by blast+
  show ?thesis using assms p by (simp add: tracks_def apart_def v o)
qed

text \<open>An event of one stamp: the others keep their relation to the longer history.\<close>

lemma tracks_event:
  assumes "Suc n < limit" and "tracks n V w (s, h)" and "own s q"
  shows "\<exists>t V' w'. event s = Some t \<and> tracks (Suc n) V' w' (t, insert n h)
    \<and> (\<forall>z. tracks n V w z \<longrightarrow> apart (s, h) z \<longrightarrow> tracks (Suc n) V' w' z \<and> apart (t, insert n h) z)"
proof -
  from event [OF assms(1) tracks_wf [OF assms(2)] assms(3)]
  obtain t p0 where t: "event s = Some t" "wf (Suc n) t" and o: "own t = own s"
    and up: "\<And>p. val s p \<le> val t p" and same: "\<And>p. \<not> own s p \<Longrightarrow> val t p = val s p"
    and p0: "own s p0" "val s p0 < val t p0" by blast
  define V' where "V' = V(n := val t)"
  define w' where "w' = w(n := p0)"
  have V': "V' n = val t" "w' n = p0" "\<And>k. k < n \<Longrightarrow> V' k = V k" "\<And>k. k < n \<Longrightarrow> w' k = w k"
    by (auto simp: V'_def w'_def)
  have A: "h \<subseteq> {..<n}" "\<And>k. k < n \<Longrightarrow> own s (w k) \<Longrightarrow> k \<in> h" "\<And>k p. k \<in> h \<Longrightarrow> V k p \<le> val s p"
      "\<And>k. k < n \<Longrightarrow> k \<notin> h \<Longrightarrow> val s (w k) < V k (w k)"
    using assms(2) unfolding tracks_def by auto
  have own: "tracks (Suc n) V' w' (t, insert n h)"
    unfolding tracks_def prod.case
  proof (intro conjI allI impI ballI)
    fix k assume "k < Suc n" "own t (w' k)"
    then show "k \<in> insert n h" using A(2) V' by (cases "k = n") (auto simp: o)
  next
    fix k p assume "k \<in> insert n h"
    then show "V' k p \<le> val t p" using A(1) A(3) [of k p] up [of p] V' by (cases "k = n") auto
  next
    fix p show "val t p = 0 \<or> (\<exists>k \<in> insert n h. val t p \<le> V' k p)" using V' by auto
  next
    fix k assume "k < Suc n" "k \<notin> insert n h"
    then have k: "k < n" "k \<notin> h" by auto
    then have "val t (w k) = val s (w k)" using A(2) same by blast
    then show "val t (w' k) < V' k (w' k)" using A(4) [OF k] V' k(1) by simp
  qed (use A(1) t(2) in auto)
  have others: "tracks (Suc n) V' w' z \<and> apart (t, insert n h) z" if z: "tracks n V w z" "apart (s, h) z" for z
  proof -
    obtain u g where zu: "z = (u, g)" by (cases z)
    have Z: "wf n u" "g \<subseteq> {..<n}" "\<And>k. k < n \<Longrightarrow> own u (w k) \<Longrightarrow> k \<in> g" "\<And>k p. k \<in> g \<Longrightarrow> V k p \<le> val u p"
      "\<And>p. val u p = 0 \<or> (\<exists>k \<in> g. val u p \<le> V k p)" "\<And>k. k < n \<Longrightarrow> k \<notin> g \<Longrightarrow> val u (w k) < V k (w k)"
      using z(1) unfolding tracks_def zu by auto
    have ap: "\<And>p. own s p \<Longrightarrow> \<not> own u p \<and> val u p \<le> val s p" "\<And>p. own u p \<Longrightarrow> \<not> own s p \<and> val s p \<le> val u p"
      using z(2) by (auto simp: apart_def zu)
    have gV: "\<And>k. k \<in> g \<Longrightarrow> V' k = V k" using Z(2) V'(3) by auto
    have "tracks (Suc n) V' w' (u, g)"
      unfolding tracks_def prod.case
    proof (intro conjI allI impI ballI)
      show "wf (Suc n) u" by (rule wf_Suc [OF Z(1)])
    next
      show "g \<subseteq> {..<Suc n}" using Z(2) by auto
    next
      fix k assume k: "k < Suc n" "own u (w' k)"
      have "k \<noteq> n" using k(2) ap(1) [OF p0(1)] V'(2) by auto
      with k show "k \<in> g" using Z(3) V'(4) by simp
    next
      fix k p assume "k \<in> g"
      then show "V' k p \<le> val u p" using Z(4) gV by simp
    next
      fix p show "val u p = 0 \<or> (\<exists>k \<in> g. val u p \<le> V' k p)" using Z(5) [of p] gV by auto
    next
      fix k assume k: "k < Suc n" "k \<notin> g"
      show "val u (w' k) < V' k (w' k)"
      proof (cases "k = n")
        case True
        then show ?thesis using ap(1) [OF p0(1)] p0(2) V'(1,2) by auto
      next
        case False
        with k Z(6) [of k] V'(3,4) show ?thesis by simp
      qed
    qed
    moreover have "apart (t, insert n h) (u, g)"
      using ap up same by (auto simp: apart_def o intro: le_trans)
    ultimately show ?thesis by (simp add: zu)
  qed
  from t(1) own others show ?thesis by blast
qed

lemma event_needs_ownership:
  "Suc n < limit \<Longrightarrow> tracks n V w (s, h) \<Longrightarrow> event s = Some t \<Longrightarrow> \<exists>q. own s q"
  using event_None [OF tracks_wf] by fastforce

theorem order_is_inclusion:
  assumes "n < limit" and "tracks n V w (a, ha)" and "tracks n V w (b, hb)"
  shows "leq a b \<longleftrightarrow> ha \<subseteq> hb"
proof -
  have le: "leq a b \<longleftrightarrow> (\<forall>p. val a p \<le> val b p)"
    by (rule leq [OF assms(1) tracks_wf [OF assms(2)] tracks_wf [OF assms(3)]])
  have A: "ha \<subseteq> {..<n}" "\<And>k p. k \<in> ha \<Longrightarrow> V k p \<le> val a p" "\<And>p. val a p = 0 \<or> (\<exists>k \<in> ha. val a p \<le> V k p)"
    and B: "\<And>k p. k \<in> hb \<Longrightarrow> V k p \<le> val b p" "\<And>k. k < n \<Longrightarrow> k \<notin> hb \<Longrightarrow> val b (w k) < V k (w k)"
    using assms(2,3) unfolding tracks_def by auto
  show ?thesis
    unfolding le
  proof
    assume all: "\<forall>p. val a p \<le> val b p"
    show "ha \<subseteq> hb"
    proof
      fix k assume k: "k \<in> ha"
      then have "V k (w k) \<le> val b (w k)" using A(2) [OF k] all le_trans by blast
      then show "k \<in> hb" using B(2) [of k] A(1) k by fastforce
    qed
  next
    assume sub: "ha \<subseteq> hb"
    show "\<forall>p. val a p \<le> val b p"
    proof
      fix p
      show "val a p \<le> val b p" using A(3) [of p] B(1) sub by (metis in_mono le0 le_trans)
    qed
  qed
qed

end

end
