(* ===== verification/Itc.thy ===== *)
theory Itc
  imports Causal_Clock Prelude "HOL-Library.Stream"
begin

text \<open>
  Interval tree clocks: \<open>crates/dyniak/src/datatypes/itc.rs\<close>.  An identity tree is read as the set of
  infinite paths it owns, and an event tree as a counter for each path.  The lemmas give the meaning of
  every operation on these readings, for trees whose counters do not exceed 64 bits.
\<close>

datatype itc_id = IdLeaf bool | IdNode itc_id itc_id

datatype itc_event = EvLeaf u64 | EvNode u64 itc_event itc_event

record itc =
  itc_ident :: itc_id
  itc_tree :: itc_event

section \<open>Normalisation\<close>

fun normalize_id :: "itc_id \<Rightarrow> itc_id" where
  "normalize_id (IdLeaf v) = IdLeaf v"
| "normalize_id (IdNode l r) =
     (if l = IdLeaf False \<and> r = IdLeaf False then IdLeaf False
      else if l = IdLeaf True \<and> r = IdLeaf True then IdLeaf True
      else IdNode l r)"

definition id_node :: "itc_id \<Rightarrow> itc_id \<Rightarrow> itc_id" where
  "id_node l r = normalize_id (IdNode l r)"

primrec min_leaf :: "itc_event \<Rightarrow> u64" where
  "min_leaf (EvLeaf n) = n"
| "min_leaf (EvNode n l r) = saturating_add n (min (min_leaf l) (min_leaf r))"

primrec max_leaf :: "itc_event \<Rightarrow> u64" where
  "max_leaf (EvLeaf n) = n"
| "max_leaf (EvNode n l r) = saturating_add n (max (max_leaf l) (max_leaf r))"

fun sink :: "itc_event \<Rightarrow> u64 \<Rightarrow> itc_event" where
  "sink (EvLeaf n) k = EvLeaf (n - k)"
| "sink (EvNode n l r) k = EvNode (n - k) l r"

fun lift_ev :: "itc_event \<Rightarrow> u64 \<Rightarrow> itc_event" where
  "lift_ev (EvLeaf n) k = EvLeaf (n + k)"
| "lift_ev (EvNode n l r) k = EvNode (n + k) l r"

text \<open>The last step of \<open>normalize_event\<close>, on children that are normalised already.\<close>

definition lift_min :: "u64 \<Rightarrow> itc_event \<Rightarrow> itc_event \<Rightarrow> itc_event" where
  "lift_min n l r =
     (let lifted = min (min_leaf l) (min_leaf r)
      in if lifted = 0 then EvNode n l r else EvNode (n + lifted) (sink l lifted) (sink r lifted))"

fun join_leaves :: "u64 \<Rightarrow> itc_event \<Rightarrow> itc_event \<Rightarrow> itc_event" where
  "join_leaves n (EvLeaf lv) (EvLeaf rv) =
     (if lv = rv then EvLeaf (n + lv) else lift_min n (EvLeaf lv) (EvLeaf rv))"
| "join_leaves n l r = lift_min n l r"

fun normalize_event :: "itc_event \<Rightarrow> itc_event" where
  "normalize_event (EvLeaf n) = EvLeaf n"
| "normalize_event (EvNode n l r) = join_leaves n (normalize_event l) (normalize_event r)"

section \<open>Order, supremum and identities\<close>

fun leq_event_to_leaf :: "itc_event \<Rightarrow> u64 \<Rightarrow> u64 \<Rightarrow> bool" where
  "leq_event_to_leaf (EvLeaf n) oa threshold \<longleftrightarrow> n + oa \<le> threshold"
| "leq_event_to_leaf (EvNode n l r) oa threshold \<longleftrightarrow>
     n + oa \<le> threshold \<and> leq_event_to_leaf l (oa + n) threshold \<and> leq_event_to_leaf r (oa + n) threshold"

fun leq_event :: "itc_event \<Rightarrow> u64 \<Rightarrow> itc_event \<Rightarrow> u64 \<Rightarrow> bool" where
  "leq_event (EvLeaf n1) oa (EvLeaf n2) ob \<longleftrightarrow> n1 + oa \<le> n2 + ob"
| "leq_event (EvLeaf n1) oa (EvNode n2 l2 r2) ob \<longleftrightarrow> n1 + oa \<le> n2 + ob"
| "leq_event (EvNode n1 l1 r1) oa (EvLeaf n2) ob \<longleftrightarrow>
     n1 + oa \<le> n2 + ob \<and> leq_event_to_leaf l1 (oa + n1) (n2 + ob) \<and> leq_event_to_leaf r1 (oa + n1) (n2 + ob)"
| "leq_event (EvNode n1 l1 r1) oa (EvNode n2 l2 r2) ob \<longleftrightarrow>
     n1 + oa \<le> n2 + ob \<and> leq_event l1 (oa + n1) l2 (ob + n2) \<and> leq_event r1 (oa + n1) r2 (ob + n2)"

primrec depth :: "itc_event \<Rightarrow> nat" where
  "depth (EvLeaf n) = 0"
| "depth (EvNode n l r) = Suc (max (depth l) (depth r))"

lemma depth_lift [simp]: "depth (lift_ev e k) = depth e"
  by (cases e) auto

fun join_phase :: "itc_event \<Rightarrow> itc_event \<Rightarrow> nat" where
  "join_phase (EvNode n1 l1 r1) (EvNode n2 l2 r2) = (if n1 > n2 then 1 else 0)"
| "join_phase a b = 2"

function join_event :: "itc_event \<Rightarrow> itc_event \<Rightarrow> itc_event" where
  "join_event (EvLeaf n1) (EvLeaf n2) = EvLeaf (max n1 n2)"
| "join_event (EvLeaf n1) (EvNode n2 l2 r2) = join_event (EvNode n1 (EvLeaf 0) (EvLeaf 0)) (EvNode n2 l2 r2)"
| "join_event (EvNode n1 l1 r1) (EvLeaf n2) = join_event (EvNode n1 l1 r1) (EvNode n2 (EvLeaf 0) (EvLeaf 0))"
| "join_event (EvNode n1 l1 r1) (EvNode n2 l2 r2) =
     (if n1 > n2 then join_event (EvNode n2 l2 r2) (EvNode n1 l1 r1)
      else let d = n2 - n1;
               new_l = join_event l1 (lift_ev l2 d);
               new_r = join_event r1 (lift_ev r2 d)
           in normalize_event (EvNode n1 new_l new_r))"
  by pat_completeness auto
termination
  by (relation "measures [\<lambda>(a, b). max (depth a) (depth b), \<lambda>(a, b). join_phase a b]") auto

text \<open>\<open>None\<close> is the panic on overlapping ownership.\<close>

fun sum_id :: "itc_id \<Rightarrow> itc_id \<Rightarrow> itc_id option" where
  "sum_id (IdLeaf False) x = Some x"
| "sum_id x (IdLeaf False) = Some x"
| "sum_id (IdLeaf True) _ = None"
| "sum_id _ (IdLeaf True) = None"
| "sum_id (IdNode l1 r1) (IdNode l2 r2) =
     (case (sum_id l1 l2, sum_id r1 r2) of
        (Some l, Some r) \<Rightarrow> Some (id_node l r)
      | _ \<Rightarrow> None)"

fun split_id :: "itc_id \<Rightarrow> itc_id \<times> itc_id" where
  "split_id (IdLeaf False) = (IdLeaf False, IdLeaf False)"
| "split_id (IdLeaf True) = (IdNode (IdLeaf True) (IdLeaf False), IdNode (IdLeaf False) (IdLeaf True))"
| "split_id (IdNode l r) =
     (if l = IdLeaf False then
        (let (i1, i2) = split_id r in (IdNode (IdLeaf False) i1, IdNode (IdLeaf False) i2))
      else if r = IdLeaf False then
        (let (i1, i2) = split_id l in (IdNode i1 (IdLeaf False), IdNode i2 (IdLeaf False)))
      else (IdNode l (IdLeaf False), IdNode (IdLeaf False) r))"

section \<open>Recording an event\<close>

fun fill :: "itc_id \<Rightarrow> itc_event \<Rightarrow> itc_event" where
  "fill (IdLeaf False) e = e"
| "fill (IdLeaf True) e = EvLeaf (max_leaf e)"
| "fill (IdNode il ir) (EvLeaf n) = EvLeaf n"
| "fill (IdNode il ir) (EvNode n el er) =
     (if il = IdLeaf True then
        (let er2 = fill ir er
         in normalize_event (EvNode n (EvLeaf (max (max_leaf el) (min_leaf er2))) er2))
      else if ir = IdLeaf True then
        (let el2 = fill il el
         in normalize_event (EvNode n el2 (EvLeaf (max (max_leaf er) (min_leaf el2)))))
      else normalize_event (EvNode n (fill il el) (fill ir er)))"

definition GROW_INFLATE_PENALTY :: u64 where
  "GROW_INFLATE_PENALTY = 1000"

text \<open>The choice between the two grown children; \<open>None\<close> is the unreachable panic.\<close>

fun cheaper ::
  "u64 \<Rightarrow> itc_event \<Rightarrow> itc_event \<Rightarrow> (itc_event \<times> u64) option \<Rightarrow> (itc_event \<times> u64) option \<Rightarrow> (itc_event \<times> u64) option"
where
  "cheaper n el er (Some (left_grown, left_cost)) (Some (right_grown, right_cost)) =
     Some (if left_cost < right_cost then (EvNode n left_grown er, left_cost + 1)
           else (EvNode n el right_grown, right_cost + 1))"
| "cheaper n el er _ _ = None"

function grow :: "itc_id \<Rightarrow> itc_event \<Rightarrow> (itc_event \<times> u64) option" where
  "grow (IdLeaf True) (EvLeaf n) = Some (EvLeaf (n + 1), 0)"
| "grow (IdLeaf True) (EvNode n el er) = cheaper n el er (grow (IdLeaf True) el) (grow (IdLeaf True) er)"
| "grow (IdNode il ir) (EvLeaf n) =
     map_option (\<lambda>(e2, c). (e2, c + GROW_INFLATE_PENALTY)) (grow (IdNode il ir) (EvNode n (EvLeaf 0) (EvLeaf 0)))"
| "grow (IdNode il ir) (EvNode n el er) =
     (if il = IdLeaf False then
        map_option (\<lambda>(right_grown, cost). (EvNode n el right_grown, cost + 1)) (grow ir er)
      else if ir = IdLeaf False then
        map_option (\<lambda>(left_grown, cost). (EvNode n left_grown er, cost + 1)) (grow il el)
      else cheaper n el er (grow il el) (grow ir er))"
| "grow (IdLeaf False) e = None"
  by pat_completeness auto
termination
  by (relation "measures [\<lambda>(i, e). size i, \<lambda>(i, e). (case (i, e) of (IdNode _ _, EvLeaf _) \<Rightarrow> 1 | _ \<Rightarrow> 0), \<lambda>(i, e). size e]")
    auto

definition do_event :: "itc_id \<Rightarrow> itc_event \<Rightarrow> itc_event option" where
  "do_event i e =
     (let filled = fill i e in if filled = e then map_option fst (grow i e) else Some filled)"

section \<open>The stamps\<close>

definition itc_seed :: itc where
  "itc_seed = \<lparr>itc_ident = IdLeaf True, itc_tree = EvLeaf 0\<rparr>"

definition itc_from_parts :: "itc_id \<Rightarrow> itc_event \<Rightarrow> itc" where
  "itc_from_parts i e = \<lparr>itc_ident = normalize_id i, itc_tree = normalize_event e\<rparr>"

definition itc_has_authority :: "itc \<Rightarrow> bool" where
  "itc_has_authority s \<longleftrightarrow> itc_ident s \<noteq> IdLeaf False"

definition itc_fork :: "itc \<Rightarrow> itc \<times> itc" where
  "itc_fork s = (let (i1, i2) = split_id (itc_ident s)
     in (\<lparr>itc_ident = normalize_id i1, itc_tree = itc_tree s\<rparr>, \<lparr>itc_ident = normalize_id i2, itc_tree = itc_tree s\<rparr>))"

definition itc_join :: "itc \<Rightarrow> itc \<Rightarrow> itc option" where
  "itc_join s t = map_option (\<lambda>new_id.
     \<lparr>itc_ident = normalize_id new_id, itc_tree = normalize_event (join_event (itc_tree s) (itc_tree t))\<rparr>)
     (sum_id (itc_ident s) (itc_ident t))"

definition itc_peek :: "itc \<Rightarrow> itc" where
  "itc_peek s = \<lparr>itc_ident = IdLeaf False, itc_tree = itc_tree s\<rparr>"

definition itc_record_event :: "itc \<Rightarrow> itc option" where
  "itc_record_event s =
     (if itc_has_authority s
      then map_option (\<lambda>e. s\<lparr>itc_tree := normalize_event e\<rparr>) (do_event (itc_ident s) (itc_tree s))
      else None)"

definition itc_leq :: "itc \<Rightarrow> itc \<Rightarrow> bool" where
  "itc_leq s t \<longleftrightarrow> leq_event (itc_tree s) 0 (itc_tree t) 0"

definition partial_cmp_event :: "itc \<Rightarrow> itc \<Rightarrow> ordering option" where
  "partial_cmp_event s t =
     (case (itc_leq s t, itc_leq t s) of
        (True, True) \<Rightarrow> Some Equal
      | (True, False) \<Rightarrow> Some Less
      | (False, True) \<Rightarrow> Some Greater
      | (False, False) \<Rightarrow> None)"

definition itc_send :: "itc \<Rightarrow> (itc \<times> itc) option" where
  "itc_send s = map_option (\<lambda>s. (s, itc_peek s)) (itc_record_event s)"

definition itc_receive :: "itc \<Rightarrow> itc \<Rightarrow> itc option" where
  "itc_receive s msg = Option.bind (itc_join s msg) itc_record_event"

section \<open>Event trees as counters\<close>

type_synonym path = "bool stream"

primrec ev :: "itc_event \<Rightarrow> path \<Rightarrow> nat" where
  "ev (EvLeaf n) = (\<lambda>p. unat n)"
| "ev (EvNode n l r) = (\<lambda>p. unat n + (if shd p then ev r (stl p) else ev l (stl p)))"

primrec emax :: "itc_event \<Rightarrow> nat" where
  "emax (EvLeaf n) = unat n"
| "emax (EvNode n l r) = unat n + max (emax l) (emax r)"

primrec root :: "itc_event \<Rightarrow> u64" where
  "root (EvLeaf n) = n"
| "root (EvNode n l r) = n"

primrec normal_ev :: "itc_event \<Rightarrow> bool" where
  "normal_ev (EvLeaf n) = True"
| "normal_ev (EvNode n l r) \<longleftrightarrow> normal_ev l \<and> normal_ev r \<and> (root l = 0 \<or> root r = 0)
     \<and> \<not> (\<exists>v. l = EvLeaf v \<and> r = EvLeaf v)"

lemma ev_le_emax: "ev e p \<le> emax e"
proof (induction e arbitrary: p)
  case (EvNode n l r)
  from EvNode.IH(1) [of "stl p"] EvNode.IH(2) [of "stl p"] show ?case by (simp add: max_def)
qed simp

lemma ev_emax: "\<exists>p. ev e p = emax e"
proof (induction e)
  case (EvNode n l r)
  then obtain p q where "ev l p = emax l" "ev r q = emax r" by auto
  then have "ev (EvNode n l r) (if emax l \<le> emax r then True ## q else False ## p) = emax (EvNode n l r)"
    by (simp add: max_def)
  then show ?case ..
qed simp

lemma emax_le_iff: "emax e \<le> b \<longleftrightarrow> (\<forall>p. ev e p \<le> b)"
  by (metis ev_emax ev_le_emax le_trans)

lemma emax_add_le_iff: "emax e + k \<le> b \<longleftrightarrow> (\<forall>p. ev e p + k \<le> b)"
proof
  assume "\<forall>p. ev e p + k \<le> b"
  then show "emax e + k \<le> b" using ev_emax [of e] by metis
next
  assume "emax e + k \<le> b"
  then show "\<forall>p. ev e p + k \<le> b" using ev_le_emax [of e] by (meson add_le_mono1 le_trans)
qed

lemma ev_eq_emax: "(\<And>p. ev d p = ev e p) \<Longrightarrow> emax d = emax e"
  by (metis emax_le_iff ev_le_emax le_antisym)

lemma root_le_ev: "unat (root e) \<le> ev e p"
  by (cases e) auto

lemma root_le_emax: "unat (root e) \<le> emax e"
  using root_le_ev ev_le_emax le_trans by blast

lemma ev_root: "normal_ev e \<Longrightarrow> \<exists>p. ev e p = unat (root e)"
proof (induction e)
  case (EvNode n l r)
  then obtain p q where "ev l p = unat (root l)" "ev r q = unat (root r)" by auto
  then have "ev (EvNode n l r) (if root l = 0 then False ## p else True ## q) = unat n"
    using EvNode.prems by auto
  then show ?case by (metis root.simps(2))
qed simp

lemma saturating_add_0 [simp]: "saturating_add n 0 = n" for n :: "'a::len word"
  using unsigned_less [where ?'a = nat and w = n] by (simp add: saturating_add_def)

lemma min_leaf_normal: "normal_ev e \<Longrightarrow> min_leaf e = root e"
  by (induction e) (auto simp: min_def)

lemma min_leaf_le: "unat (min_leaf e) \<le> emax e"
proof (induction e)
  case (EvNode n l r)
  then show ?case by (auto simp: unat_saturating_add min_def word_le_nat_alt)
qed simp

lemma max_leaf_emax: "emax e < 2 ^ 64 \<Longrightarrow> unat (max_leaf e) = emax e"
proof (induction e)
  case (EvNode n l r)
  then have "unat (max_leaf l) = emax l" "unat (max_leaf r) = emax r" by auto
  then have "unat (max (max_leaf l) (max_leaf r)) = max (emax l) (emax r)" by (simp add: max_def word_le_nat_alt)
  with EvNode.prems show ?case by (simp add: unat_saturating_add)
qed simp

lemma unat_max_leaf: "emax e < 2 ^ 64 \<Longrightarrow> unat (max (max_leaf e) k) = max (emax e) (unat k)"
  using max_leaf_emax [of e] by (simp only: max_def word_le_nat_alt) auto

section \<open>Normal forms\<close>

lemma constant_leaf: "normal_ev e \<Longrightarrow> (\<And>p. ev e p = c) \<Longrightarrow> e = EvLeaf (root e) \<and> unat (root e) = c"
proof (induction e arbitrary: c)
  case (EvNode n l r)
  have "ev l p + unat n = c" "ev r p + unat n = c" for p
    using EvNode.prems(2) [of "False ## p"] EvNode.prems(2) [of "True ## p"] by simp_all
  then have "ev l p = c - unat n" "ev r p = c - unat n" for p by (metis diff_add_inverse2)+
  with EvNode.IH [of "c - unat n"] EvNode.prems(1)
  have "l = EvLeaf (root l)" "r = EvLeaf (root r)" "unat (root l) = unat (root r)" by auto
  then have "\<exists>v. l = EvLeaf v \<and> r = EvLeaf v" by (metis word_unat_eq_iff)
  with EvNode.prems(1) show ?case by auto
qed simp

lemma normal_root_eq:
  assumes "normal_ev a" and "normal_ev b" and "\<And>p. ev a p = ev b p"
  shows "root a = root b"
proof -
  obtain p q where "ev a p = unat (root a)" "ev b q = unat (root b)" using ev_root assms(1,2) by metis
  then have "unat (root a) = unat (root b)" using root_le_ev [of a q] root_le_ev [of b p] assms(3) by simp
  then show ?thesis by (simp add: word_unat_eq_iff)
qed

lemma normal_ev_unique: "normal_ev a \<Longrightarrow> normal_ev b \<Longrightarrow> (\<And>p. ev a p = ev b p) \<Longrightarrow> a = b"
proof (induction a arbitrary: b)
  case (EvLeaf n)
  then have "b = EvLeaf (root b)" "unat (root b) = unat n" using constant_leaf [of b "unat n"] by simp_all
  then show ?case by (metis word_unat_eq_iff)
next
  case (EvNode n l r)
  show ?case
  proof (cases b)
    case (EvLeaf m)
    with constant_leaf [OF EvNode.prems(1), of "unat m"] EvNode.prems(3) show ?thesis by simp
  next
    case b: (EvNode m l' r')
    then have n: "n = m" using normal_root_eq [OF EvNode.prems] by simp
    have "ev l p = ev l' p" "ev r p = ev r' p" for p
      using EvNode.prems(3) [of "False ## p"] EvNode.prems(3) [of "True ## p"] by (simp_all add: b n)
    then have "l = l'" "r = r'" using EvNode.IH EvNode.prems(1,2) by (simp_all add: b)
    then show ?thesis by (simp add: b n)
  qed
qed

lemma ev_sink: "k \<le> root e \<Longrightarrow> ev (sink e k) p + unat k = ev e p"
  by (cases e) (auto simp: unat_sub_if' word_le_nat_alt)

lemma sink_normal: "normal_ev (sink e k) = normal_ev e" "root (sink e k) = root e - k"
  by (cases e; simp)+

lemma sink_leaf: "sink e k = EvLeaf v \<longleftrightarrow> (\<exists>w. e = EvLeaf w \<and> v = w - k)"
  by (cases e) auto

lemma lift_min_correct:
  assumes "normal_ev l" and "normal_ev r" and "\<not> (\<exists>v. l = EvLeaf v \<and> r = EvLeaf v)"
    and "unat n + max (emax l) (emax r) < 2 ^ 64"
  shows "normal_ev (lift_min n l r) \<and> ev (lift_min n l r) p = ev (EvNode n l r) p"
proof -
  let ?k = "min (root l) (root r)"
  have k: "?k \<le> root l" "?k \<le> root r" by auto
  have "unat ?k \<le> max (emax l) (emax r)" using root_le_emax [of l] root_le_emax [of r] by (auto simp: min_def max_def)
  with assms(4) have nk: "unat (n + ?k) = unat n + unat ?k" by (intro unat_add_exact) simp
  have norm: "normal_ev (EvNode (n + ?k) (sink l ?k) (sink r ?k))"
    using assms(1-3) by (auto simp: sink_normal sink_leaf min_def)
  have "ev (EvNode (n + ?k) (sink l ?k) (sink r ?k)) p = ev (EvNode n l r) p"
    using ev_sink [OF k(1), of "stl p"] ev_sink [OF k(2), of "stl p"] by (simp add: nk)
  moreover have "normal_ev (EvNode n l r)" if "?k = 0" using assms(1-3) that by (auto simp: min_def split: if_splits)
  ultimately show ?thesis using norm
    by (simp add: lift_min_def Let_def min_leaf_normal assms(1,2) del: ev.simps normal_ev.simps)
qed

lemma join_leaves_correct:
  assumes "normal_ev l" and "normal_ev r" and "unat n + max (emax l) (emax r) < 2 ^ 64"
  shows "normal_ev (join_leaves n l r) \<and> ev (join_leaves n l r) p = ev (EvNode n l r) p"
proof (cases "\<exists>v. l = EvLeaf v \<and> r = EvLeaf v")
  case True
  then obtain v where v: "l = EvLeaf v" "r = EvLeaf v" by auto
  have "unat (n + v) = unat n + unat v" using assms(3) by (intro unat_add_exact) (simp add: v)
  then show ?thesis by (simp add: v)
next
  case False
  then have "join_leaves n l r = lift_min n l r" by (cases l; cases r) auto
  with lift_min_correct [OF assms(1,2) False assms(3)] show ?thesis by simp
qed

lemma normalize_event_correct:
  "emax e < 2 ^ 64 \<Longrightarrow> normal_ev (normalize_event e) \<and> (\<forall>p. ev (normalize_event e) p = ev e p)"
proof (induction e)
  case (EvNode n l r)
  then have l: "normal_ev (normalize_event l)" "\<And>p. ev (normalize_event l) p = ev l p"
    and r: "normal_ev (normalize_event r)" "\<And>p. ev (normalize_event r) p = ev r p" by auto
  have m: "emax (normalize_event l) = emax l" "emax (normalize_event r) = emax r"
    using ev_eq_emax l(2) r(2) by metis+
  show ?case
    using join_leaves_correct [OF l(1) r(1), of n] EvNode.prems by (simp add: m l(2) r(2))
qed simp

lemmas normalize_event_normal = normalize_event_correct [THEN conjunct1]
lemmas ev_normalize_event = normalize_event_correct [THEN conjunct2, rule_format]

lemma emax_normalize_event: "emax e < 2 ^ 64 \<Longrightarrow> emax (normalize_event e) = emax e"
  using ev_eq_emax ev_normalize_event by metis

section \<open>Order and supremum\<close>

lemma leq_event_to_leaf_iff:
  "emax e + unat oa < 2 ^ 64 \<Longrightarrow> leq_event_to_leaf e oa t \<longleftrightarrow> emax e + unat oa \<le> unat t"
proof (induction e arbitrary: oa)
  case (EvLeaf n)
  then show ?case by (simp add: word_le_nat_alt unat_add_exact)
next
  case (EvNode n l r)
  then have n: "unat (n + oa) = unat n + unat oa" "unat (oa + n) = unat oa + unat n"
    by (simp_all add: unat_add_exact)
  have "leq_event_to_leaf l (oa + n) t \<longleftrightarrow> emax l + unat (oa + n) \<le> unat t"
    "leq_event_to_leaf r (oa + n) t \<longleftrightarrow> emax r + unat (oa + n) \<le> unat t"
    using EvNode.prems by (simp_all add: EvNode.IH n)
  then show ?case by (auto simp: word_le_nat_alt n max_def)
qed

lemma all_paths: "(\<forall>p. P p) \<longleftrightarrow> (\<forall>p. P (False ## p)) \<and> (\<forall>p. P (True ## p))" for P :: "path \<Rightarrow> bool"
proof
  assume s: "(\<forall>p. P (False ## p)) \<and> (\<forall>p. P (True ## p))"
  show "\<forall>p. P p"
  proof
    fix p :: path
    show "P p" using s by (cases p) (metis (full_types))
  qed
qed auto

lemma leq_event_iff:
  "normal_ev a \<Longrightarrow> normal_ev b \<Longrightarrow> emax a + unat oa < 2 ^ 64 \<Longrightarrow> emax b + unat ob < 2 ^ 64
   \<Longrightarrow> leq_event a oa b ob \<longleftrightarrow> (\<forall>p. ev a p + unat oa \<le> ev b p + unat ob)"
proof (induction a arbitrary: oa b ob)
  case (EvLeaf n1)
  show ?case
  proof (cases b)
    case (EvLeaf n2)
    with EvLeaf.prems show ?thesis by (simp add: word_le_nat_alt unat_add_exact)
  next
    case b: (EvNode n2 l2 r2)
    with EvLeaf.prems have le: "leq_event (EvLeaf n1) oa b ob \<longleftrightarrow> unat n1 + unat oa \<le> unat n2 + unat ob"
      by (simp add: word_le_nat_alt unat_add_exact)
    obtain p where "ev b p = unat n2" using ev_root [OF EvLeaf.prems(2)] b by auto
    then have "(\<forall>q. unat n1 + unat oa \<le> ev b q + unat ob) \<longleftrightarrow> unat n1 + unat oa \<le> unat n2 + unat ob"
      using root_le_ev [of b] b by (metis add_le_mono1 le_trans root.simps(2))
    with le show ?thesis by simp
  qed
next
  case (EvNode n1 l1 r1)
  show ?case
  proof (cases b)
    case b: (EvLeaf n2)
    have "leq_event (EvNode n1 l1 r1) oa b ob = leq_event_to_leaf (EvNode n1 l1 r1) oa (n2 + ob)"
      by (simp add: b)
    also have "\<dots> \<longleftrightarrow> emax (EvNode n1 l1 r1) + unat oa \<le> unat n2 + unat ob"
      using EvNode.prems(4) leq_event_to_leaf_iff [OF EvNode.prems(3), of "n2 + ob"] by (simp add: unat_add_exact b)
    finally show ?thesis unfolding emax_add_le_iff by (simp add: b)
  next
    case b: (EvNode n2 l2 r2)
    have n: "unat (n1 + oa) = unat n1 + unat oa" "unat (oa + n1) = unat n1 + unat oa"
      "unat (n2 + ob) = unat n2 + unat ob" "unat (ob + n2) = unat n2 + unat ob"
      using EvNode.prems by (simp_all add: unat_add_exact b)
    have fits: "emax l1 + unat (oa + n1) < 2 ^ 64" "emax r1 + unat (oa + n1) < 2 ^ 64"
      "emax l2 + unat (ob + n2) < 2 ^ 64" "emax r2 + unat (ob + n2) < 2 ^ 64"
      using EvNode.prems(3,4) by (auto simp: n b)
    have ih: "leq_event l1 (oa + n1) l2 (ob + n2) \<longleftrightarrow> (\<forall>p. ev l1 p + unat (oa + n1) \<le> ev l2 p + unat (ob + n2))"
      "leq_event r1 (oa + n1) r2 (ob + n2) \<longleftrightarrow> (\<forall>p. ev r1 p + unat (oa + n1) \<le> ev r2 p + unat (ob + n2))"
      using EvNode.IH(1) [OF _ _ fits(1,3)] EvNode.IH(2) [OF _ _ fits(2,4)] EvNode.prems(1,2) by (simp_all add: b)
    have "unat n1 + unat oa \<le> unat n2 + unat ob" if "\<forall>p. ev (EvNode n1 l1 r1) p + unat oa \<le> ev b p + unat ob"
    proof -
      obtain p where "ev b p = unat n2" using ev_root [OF EvNode.prems(2)] b by auto
      then show ?thesis using that [rule_format, of p] root_le_ev [of "EvNode n1 l1 r1" p] by simp
    qed
    then have "(\<forall>p. ev (EvNode n1 l1 r1) p + unat oa \<le> ev b p + unat ob) \<longleftrightarrow>
        unat n1 + unat oa \<le> unat n2 + unat ob \<and> (\<forall>p. ev (EvNode n1 l1 r1) p + unat oa \<le> ev b p + unat ob)"
      by blast
    also have "\<dots> \<longleftrightarrow> leq_event (EvNode n1 l1 r1) oa b ob"
      unfolding b leq_event.simps ih
        all_paths [of "\<lambda>p. ev (EvNode n1 l1 r1) p + unat oa \<le> ev (EvNode n2 l2 r2) p + unat ob"]
      by (simp add: word_le_nat_alt n ac_simps)
    finally show ?thesis by (rule sym)
  qed
qed

lemma ev_lift: "emax e + unat d < 2 ^ 64 \<Longrightarrow> ev (lift_ev e d) p = ev e p + unat d"
  by (cases e) (auto simp: unat_add_exact)

lemma emax_lift: "emax e + unat d < 2 ^ 64 \<Longrightarrow> emax (lift_ev e d) = emax e + unat d"
  by (cases e) (auto simp: unat_add_exact)

lemma join_event_correct:
  "emax a < 2 ^ 64 \<Longrightarrow> emax b < 2 ^ 64
   \<Longrightarrow> normal_ev (join_event a b) \<and> (\<forall>p. ev (join_event a b) p = max (ev a p) (ev b p))"
proof (induction a b rule: join_event.induct)
  case (1 n1 n2)
  then show ?case by (simp add: max_def word_le_nat_alt)
next
  case (4 n1 l1 r1 n2 l2 r2)
  show ?case
  proof (cases "n1 > n2")
    case True
    with "4.IH"(1) [OF True] "4.prems" show ?thesis by (simp add: max.commute del: ev.simps emax.simps)
  next
    case False
    let ?d = "n2 - n1"
    from False have "n1 \<le> n2" by simp
    then have d: "unat ?d + unat n1 = unat n2" by (simp add: unat_sub_if' word_le_nat_alt)
    then have fits: "emax l2 + unat ?d < 2 ^ 64" "emax r2 + unat ?d < 2 ^ 64" using "4.prems"(2) by auto
    have l: "ev (join_event l1 (lift_ev l2 ?d)) p = max (ev l1 p) (ev l2 p + unat ?d)" for p
      using "4.IH"(2) [OF False refl] "4.prems"(1) fits by (simp add: ev_lift emax_lift)
    have r: "ev (join_event r1 (lift_ev r2 ?d)) p = max (ev r1 p) (ev r2 p + unat ?d)" for p
      using "4.IH"(3) [OF False refl refl] "4.prems"(1) fits by (simp add: ev_lift emax_lift)
    let ?e = "EvNode n1 (join_event l1 (lift_ev l2 ?d)) (join_event r1 (lift_ev r2 ?d))"
    have e: "ev ?e p = max (ev (EvNode n1 l1 r1) p) (ev (EvNode n2 l2 r2) p)" for p
      using d by (cases "shd p") (simp_all add: l r max_def)
    have "emax ?e \<le> max (emax (EvNode n1 l1 r1)) (emax (EvNode n2 l2 r2))"
      unfolding emax_le_iff e using ev_le_emax by (meson max.mono)
    then have "emax ?e < 2 ^ 64" using "4.prems" by simp
    from normalize_event_correct [OF this] False e show ?thesis by (simp add: Let_def)
  qed
qed auto

lemma emax_join:
  assumes "emax a \<le> b" and "emax c \<le> b" and "b < 2 ^ 64"
  shows "emax (join_event a c) \<le> b"
proof -
  have "emax a < 2 ^ 64" "emax c < 2 ^ 64" using assms by linarith+
  from join_event_correct [OF this] assms(1,2) show ?thesis by (simp add: emax_le_iff)
qed

section \<open>Identities as sets of paths\<close>

primrec owns :: "itc_id \<Rightarrow> path \<Rightarrow> bool" where
  "owns (IdLeaf b) = (\<lambda>p. b)"
| "owns (IdNode l r) = (\<lambda>p. shd p \<and> owns r (stl p) \<or> \<not> shd p \<and> owns l (stl p))"

primrec normal_id :: "itc_id \<Rightarrow> bool" where
  "normal_id (IdLeaf b) = True"
| "normal_id (IdNode l r) \<longleftrightarrow> normal_id l \<and> normal_id r \<and> \<not> (\<exists>b. l = IdLeaf b \<and> r = IdLeaf b)"

lemma normalize_id_normal [simp]: "normal_id i \<Longrightarrow> normalize_id i = i"
  by (cases i) auto

lemma id_node_normal: "normal_id l \<Longrightarrow> normal_id r \<Longrightarrow> normal_id (id_node l r)"
  unfolding id_node_def normalize_id.simps by (auto split: if_splits)

lemma owns_id_node: "owns (id_node l r) p \<longleftrightarrow> shd p \<and> owns r (stl p) \<or> \<not> shd p \<and> owns l (stl p)"
  by (auto simp: id_node_def)

lemma owns_or_not:
  "normal_id i \<Longrightarrow> (i \<noteq> IdLeaf False \<longrightarrow> (\<exists>p. owns i p)) \<and> (i \<noteq> IdLeaf True \<longrightarrow> (\<exists>p. \<not> owns i p))"
proof (induction i)
  case (IdNode l r)
  have "\<exists>p. owns (IdNode l r) p = b" if "l \<noteq> IdLeaf (\<not> b) \<or> r \<noteq> IdLeaf (\<not> b)" for b
  proof -
    from that IdNode consider p where "owns l p = b" | p where "owns r p = b" by (cases b) auto
    then show ?thesis
    proof cases
      case 1
      then have "owns (IdNode l r) (False ## p) = b" by simp
      then show ?thesis ..
    next
      case 2
      then have "owns (IdNode l r) (True ## p) = b" by simp
      then show ?thesis ..
    qed
  qed
  from this [of True] this [of False] IdNode.prems show ?case by auto
qed auto

lemmas owns_some = owns_or_not [THEN conjunct1, rule_format]

lemma owns_none: "normal_id i \<Longrightarrow> (\<And>p. \<not> owns i p) \<Longrightarrow> i = IdLeaf False"
  using owns_some by blast

lemma sum_id_right_zero [simp]: "sum_id i (IdLeaf False) = Some i"
  by (cases i rule: split_id.cases) simp_all

lemma sum_id_correct:
  "normal_id a \<Longrightarrow> normal_id b \<Longrightarrow> (\<And>p. \<not> (owns a p \<and> owns b p))
   \<Longrightarrow> \<exists>c. sum_id a b = Some c \<and> normal_id c \<and> (\<forall>p. owns c p \<longleftrightarrow> owns a p \<or> owns b p)"
proof (induction a arbitrary: b)
  case (IdLeaf v)
  show ?case
  proof (cases v)
    case True
    then have "b = IdLeaf False" using IdLeaf.prems by (intro owns_none) auto
    with IdLeaf show ?thesis by auto
  qed (use IdLeaf in simp)
next
  case (IdNode l1 r1)
  show ?case
  proof (cases b)
    case (IdLeaf v)
    have "\<exists>p. owns (IdNode l1 r1) p" using IdNode.prems(1) by (intro owns_some) auto
    with IdLeaf IdNode.prems(3) have "v = False" by auto
    with IdLeaf IdNode.prems(1) show ?thesis by (auto simp del: owns.simps(2) normal_id.simps)
  next
    case b: (IdNode l2 r2)
    have d: "\<not> (owns l1 p \<and> owns l2 p)" "\<not> (owns r1 p \<and> owns r2 p)" for p
      using IdNode.prems(3) [of "False ## p"] IdNode.prems(3) [of "True ## p"] by (simp_all add: b)
    obtain l where l: "sum_id l1 l2 = Some l" "normal_id l" "\<forall>p. owns l p \<longleftrightarrow> owns l1 p \<or> owns l2 p"
      using IdNode.IH(1) [of l2] IdNode.prems(1,2) d(1) by (auto simp: b)
    obtain r where r: "sum_id r1 r2 = Some r" "normal_id r" "\<forall>p. owns r p \<longleftrightarrow> owns r1 p \<or> owns r2 p"
      using IdNode.IH(2) [of r2] IdNode.prems(1,2) d(2) by (auto simp: b)
    show ?thesis using l r by (simp add: b id_node_normal owns_id_node) blast
  qed
qed

lemma sum_id_overlap:
  "owns a p \<Longrightarrow> owns b p \<Longrightarrow> sum_id a b = None"
proof (induction a b arbitrary: p rule: sum_id.induct)
  case (5 l1 r1 l2 r2)
  show ?case
  proof (cases "shd p")
    case True
    then have "sum_id r1 r2 = None" using "5.IH"(2) "5.prems" by simp
    then show ?thesis by (simp split: option.split)
  next
    case False
    then have "sum_id l1 l2 = None" using "5.IH"(1) "5.prems" by simp
    then show ?thesis by simp
  qed
qed auto

lemma split_id_correct:
  assumes "normal_id i" and "split_id i = (a, b)"
  shows "normal_id a \<and> normal_id b \<and> (\<forall>p. (owns i p \<longleftrightarrow> owns a p \<or> owns b p) \<and> \<not> (owns a p \<and> owns b p))
    \<and> (i \<noteq> IdLeaf False \<longrightarrow> a \<noteq> IdLeaf False \<and> b \<noteq> IdLeaf False)"
  using assms
proof (induction i arbitrary: a b)
  case (IdLeaf v)
  then show ?case by (cases v) auto
next
  case (IdNode l r)
  consider "l = IdLeaf False" | "l \<noteq> IdLeaf False" "r = IdLeaf False" | "l \<noteq> IdLeaf False" "r \<noteq> IdLeaf False" by blast
  then show ?case
  proof cases
    case 1
    obtain i1 i2 where s: "split_id r = (i1, i2)" by (cases "split_id r")
    have r: "normal_id r" "r \<noteq> IdLeaf False" using IdNode.prems(1) 1 by auto
    have "a = IdNode (IdLeaf False) i1" "b = IdNode (IdLeaf False) i2" using IdNode.prems(2) 1 s by simp_all
    with IdNode.IH(2) [OF r(1) s] r 1 show ?thesis by simp blast
  next
    case 2
    obtain i1 i2 where s: "split_id l = (i1, i2)" by (cases "split_id l")
    have l: "normal_id l" using IdNode.prems(1) by simp
    have "a = IdNode i1 (IdLeaf False)" "b = IdNode i2 (IdLeaf False)" using IdNode.prems(2) 2 s by simp_all
    with IdNode.IH(1) [OF l s] 2 show ?thesis by simp blast
  next
    case 3
    with IdNode.prems show ?thesis by auto
  qed
qed

section \<open>Filling and growing\<close>

text \<open>Every counter stays or rises, and only counters of owned paths rise.\<close>

definition raises :: "itc_id \<Rightarrow> itc_event \<Rightarrow> itc_event \<Rightarrow> bool" where
  "raises i e e' \<longleftrightarrow> (\<forall>p. ev e p \<le> ev e' p \<and> (\<not> owns i p \<longrightarrow> ev e' p = ev e p))"

lemma raises_refl [simp]: "raises i e e"
  by (simp add: raises_def)

lemma raises_leaf: "emax e \<le> unat v \<Longrightarrow> raises (IdLeaf True) e (EvLeaf v)"
  by (simp add: raises_def emax_le_iff)

lemma raises_node:
  "raises il el el' \<Longrightarrow> raises ir er er' \<Longrightarrow> raises (IdNode il ir) (EvNode n el er) (EvNode n el' er')"
  by (simp add: raises_def)

lemma raises_normalize: "emax e' < 2 ^ 64 \<Longrightarrow> raises i e (normalize_event e') = raises i e e'"
  by (simp add: raises_def ev_normalize_event)

lemma fill_node:
  assumes "raises il el el'" and "raises ir er er'" and "emax el' \<le> max (emax el) (emax er)"
    and "emax er' \<le> max (emax el) (emax er)" and "emax (EvNode n el er) < 2 ^ 64"
  shows "raises (IdNode il ir) (EvNode n el er) (normalize_event (EvNode n el' er'))
    \<and> emax (normalize_event (EvNode n el' er')) \<le> emax (EvNode n el er)
    \<and> normal_ev (normalize_event (EvNode n el' er'))"
proof -
  have le: "emax (EvNode n el' er') \<le> emax (EvNode n el er)" using assms(3,4) by simp
  have lt: "emax (EvNode n el' er') < 2 ^ 64" by (rule le_less_trans [OF le assms(5)])
  show ?thesis
    using le raises_node [OF assms(1,2)]
    by (simp only: raises_normalize [OF lt] emax_normalize_event [OF lt] normalize_event_normal [OF lt] simp_thms)
qed

lemma fill_correct:
  "emax e < 2 ^ 64 \<Longrightarrow> raises i e (fill i e) \<and> emax (fill i e) \<le> emax e \<and> (normal_ev e \<longrightarrow> normal_ev (fill i e))"
proof (induction i e rule: fill.induct)
  case (2 e)
  then show ?case by (simp add: max_leaf_emax raises_leaf)
next
  case (4 il ir n el er)
  have fits: "emax el < 2 ^ 64" "emax er < 2 ^ 64" using "4.prems" by auto
  consider "il = IdLeaf True" | "il \<noteq> IdLeaf True" "ir = IdLeaf True" | "il \<noteq> IdLeaf True" "ir \<noteq> IdLeaf True" by blast
  then show ?case
  proof cases
    case 1
    let ?er = "fill ir er" and ?v = "max (max_leaf el) (min_leaf (fill ir er))"
    have ih: "raises ir er ?er" "emax ?er \<le> emax er" using "4.IH"(1) [OF 1 fits(2)] by simp_all
    have v: "unat ?v = max (emax el) (unat (min_leaf ?er))" by (rule unat_max_leaf [OF fits(1)])
    have "raises il el (EvLeaf ?v)" unfolding 1 by (rule raises_leaf) (simp add: v)
    moreover have "emax (EvLeaf ?v) \<le> max (emax el) (emax er)" using min_leaf_le [of ?er] ih(2) by (auto simp: v)
    ultimately have "raises (IdNode il ir) (EvNode n el er) (normalize_event (EvNode n (EvLeaf ?v) ?er))
      \<and> emax (normalize_event (EvNode n (EvLeaf ?v) ?er)) \<le> emax (EvNode n el er)
      \<and> normal_ev (normalize_event (EvNode n (EvLeaf ?v) ?er))"
      using ih "4.prems" by (intro fill_node) auto
    with 1 show ?thesis by (simp add: Let_def del: normalize_event.simps)
  next
    case 2
    let ?el = "fill il el" and ?v = "max (max_leaf er) (min_leaf (fill il el))"
    have ih: "raises il el ?el" "emax ?el \<le> emax el" using "4.IH"(2) [OF 2 fits(1)] by simp_all
    have v: "unat ?v = max (emax er) (unat (min_leaf ?el))" by (rule unat_max_leaf [OF fits(2)])
    have "raises ir er (EvLeaf ?v)" unfolding 2(2) by (rule raises_leaf) (simp add: v)
    moreover have "emax (EvLeaf ?v) \<le> max (emax el) (emax er)" using min_leaf_le [of ?el] ih(2) by (auto simp: v)
    ultimately have "raises (IdNode il ir) (EvNode n el er) (normalize_event (EvNode n ?el (EvLeaf ?v)))
      \<and> emax (normalize_event (EvNode n ?el (EvLeaf ?v))) \<le> emax (EvNode n el er)
      \<and> normal_ev (normalize_event (EvNode n ?el (EvLeaf ?v)))"
      using ih "4.prems" by (intro fill_node) auto
    with 2 show ?thesis by (simp add: Let_def del: normalize_event.simps)
  next
    case 3
    have "raises (IdNode il ir) (EvNode n el er) (normalize_event (EvNode n (fill il el) (fill ir er)))
      \<and> emax (normalize_event (EvNode n (fill il el) (fill ir er))) \<le> emax (EvNode n el er)
      \<and> normal_ev (normalize_event (EvNode n (fill il el) (fill ir er)))"
      using "4.IH"(3) [OF 3 fits(1)] "4.IH"(4) [OF 3 fits(2)] "4.prems" by (intro fill_node) auto
    with 3 show ?thesis by (simp del: normalize_event.simps)
  qed
qed simp_all

text \<open>The counter of some owned path rises, and the greatest counter by at most one.\<close>

definition bumps :: "itc_id \<Rightarrow> itc_event \<Rightarrow> itc_event \<Rightarrow> bool" where
  "bumps i e e' \<longleftrightarrow> raises i e e' \<and> (\<exists>p. owns i p \<and> ev e p < ev e' p) \<and> emax e' \<le> Suc (emax e)"

lemma bumps_left: "bumps il el el' \<Longrightarrow> bumps (IdNode il ir) (EvNode n el er) (EvNode n el' er)"
proof -
  assume b: "bumps il el el'"
  then obtain p where "owns il p" "ev el p < ev el' p" by (auto simp: bumps_def)
  then have "owns (IdNode il ir) (False ## p) \<and> ev (EvNode n el er) (False ## p) < ev (EvNode n el' er) (False ## p)" by simp
  then show ?thesis using b by (auto simp: bumps_def intro: raises_node simp del: owns.simps ev.simps)
qed

lemma bumps_right: "bumps ir er er' \<Longrightarrow> bumps (IdNode il ir) (EvNode n el er) (EvNode n el er')"
proof -
  assume b: "bumps ir er er'"
  then obtain p where "owns ir p" "ev er p < ev er' p" by (auto simp: bumps_def)
  then have "owns (IdNode il ir) (True ## p) \<and> ev (EvNode n el er) (True ## p) < ev (EvNode n el er') (True ## p)" by simp
  then show ?thesis using b by (auto simp: bumps_def intro: raises_node simp del: owns.simps ev.simps)
qed

lemma bumps_split_one: "bumps (IdNode (IdLeaf True) (IdLeaf True)) e e' \<Longrightarrow> bumps (IdLeaf True) e e'"
  by (auto simp: bumps_def raises_def)

lemma bumps_unfold_leaf: "bumps i (EvNode n (EvLeaf 0) (EvLeaf 0)) e' \<Longrightarrow> bumps i (EvLeaf n) e'"
  by (simp add: bumps_def raises_def)

lemma cheaper_bumps:
  assumes "l = Some (el', lc)" and "r = Some (er', rc)" and "bumps il el el'" and "bumps ir er er'"
  shows "\<exists>e' c. cheaper n el er l r = Some (e', c) \<and> bumps (IdNode il ir) (EvNode n el er) e'"
  using bumps_left [OF assms(3)] bumps_right [OF assms(4)] by (simp add: assms(1,2))

lemma grow_correct:
  "normal_id i \<Longrightarrow> i \<noteq> IdLeaf False \<Longrightarrow> Suc (emax e) < 2 ^ 64 \<Longrightarrow> \<exists>e' c. grow i e = Some (e', c) \<and> bumps i e e'"
proof (induction i e rule: grow.induct)
  case (1 n)
  have "unat (n + 1) = Suc (unat n)" using "1.prems"(3) by (simp add: unat_add_exact)
  then show ?case by (simp add: bumps_def raises_def)
next
  case (2 n el er)
  have fits: "Suc (emax el) < 2 ^ 64" "Suc (emax er) < 2 ^ 64" using "2.prems"(3) by auto
  obtain el' lc er' rc where "grow (IdLeaf True) el = Some (el', lc)" "bumps (IdLeaf True) el el'"
    "grow (IdLeaf True) er = Some (er', rc)" "bumps (IdLeaf True) er er'"
    using "2.IH"(1) [OF _ _ fits(1)] "2.IH"(2) [OF _ _ fits(2)] by auto
  with cheaper_bumps obtain e' c where
    "cheaper n el er (grow (IdLeaf True) el) (grow (IdLeaf True) er) = Some (e', c)"
    "bumps (IdNode (IdLeaf True) (IdLeaf True)) (EvNode n el er) e'" by metis
  then show ?case using bumps_split_one by auto
next
  case (3 il ir n)
  then obtain e' c where "grow (IdNode il ir) (EvNode n (EvLeaf 0) (EvLeaf 0)) = Some (e', c)"
    "bumps (IdNode il ir) (EvNode n (EvLeaf 0) (EvLeaf 0)) e'" by auto
  then show ?case using bumps_unfold_leaf by (auto simp del: grow.simps(4))
next
  case (4 il ir n el er)
  have fits: "Suc (emax el) < 2 ^ 64" "Suc (emax er) < 2 ^ 64" using "4.prems"(3) by auto
  have norm: "normal_id il" "normal_id ir" using "4.prems"(1) by auto
  consider "il = IdLeaf False" | "il \<noteq> IdLeaf False" "ir = IdLeaf False" | "il \<noteq> IdLeaf False" "ir \<noteq> IdLeaf False" by blast
  then show ?case
  proof cases
    case 1
    then have "ir \<noteq> IdLeaf False" using "4.prems"(1) by auto
    with "4.IH"(1) [OF 1 norm(2) _ fits(2)] obtain e' c where "grow ir er = Some (e', c)" "bumps ir er e'" by auto
    with 1 bumps_right show ?thesis by auto
  next
    case 2
    with "4.IH"(2) [OF 2 norm(1) _ fits(1)] obtain e' c where "grow il el = Some (e', c)" "bumps il el e'" by auto
    with 2 bumps_left show ?thesis by auto
  next
    case 3
    obtain el' lc er' rc where "grow il el = Some (el', lc)" "bumps il el el'"
      "grow ir er = Some (er', rc)" "bumps ir er er'"
      using "4.IH"(3) [OF 3 norm(1) 3(1) fits(1)] "4.IH"(4) [OF 3 norm(2) 3(2) fits(2)] by auto
    with cheaper_bumps [of _ el' lc _ er' rc] 3 show ?thesis by simp
  qed
qed simp

lemma do_event_correct:
  assumes "normal_id i" and "i \<noteq> IdLeaf False" and "normal_ev e" and "Suc (emax e) < 2 ^ 64"
  shows "\<exists>e'. do_event i e = Some e' \<and> bumps i e e'"
proof (cases "fill i e = e")
  case True
  with grow_correct [OF assms(1,2,4)] show ?thesis by (auto simp: do_event_def)
next
  case False
  have f: "raises i e (fill i e)" "emax (fill i e) \<le> emax e" "normal_ev (fill i e)"
    using fill_correct [of e i] assms(3,4) by auto
  have "\<exists>p. ev (fill i e) p \<noteq> ev e p" using normal_ev_unique [OF f(3) assms(3)] False by blast
  then obtain p where "ev (fill i e) p \<noteq> ev e p" ..
  then have "owns i p \<and> ev e p < ev (fill i e) p" using f(1) by (auto simp: raises_def le_neq_implies_less)
  with f(1,2) False show ?thesis by (auto simp: do_event_def bumps_def)
qed

section \<open>The stamps keep the contract of a causality clock\<close>

definition itc_val :: "itc \<Rightarrow> path \<Rightarrow> nat" where
  "itc_val s = ev (itc_tree s)"

definition itc_own :: "itc \<Rightarrow> path \<Rightarrow> bool" where
  "itc_own s = owns (itc_ident s)"

text \<open>A stamp in normal form whose counters do not exceed the number of events recorded so far.\<close>

definition itc_wf :: "nat \<Rightarrow> itc \<Rightarrow> bool" where
  "itc_wf n s \<longleftrightarrow> normal_id (itc_ident s) \<and> normal_ev (itc_tree s) \<and> emax (itc_tree s) \<le> n"

lemma itc_fork_correct:
  assumes "itc_wf n s" and "itc_fork s = (a, b)"
  shows "itc_wf n a \<and> itc_wf n b \<and> itc_val a = itc_val s \<and> itc_val b = itc_val s
    \<and> (\<forall>p. (itc_own s p \<longleftrightarrow> itc_own a p \<or> itc_own b p) \<and> \<not> (itc_own a p \<and> itc_own b p))"
proof -
  obtain i j where s: "split_id (itc_ident s) = (i, j)" by (cases "split_id (itc_ident s)")
  have "normal_id (itc_ident s)" using assms(1) by (simp add: itc_wf_def)
  note c = split_id_correct [OF this s]
  then have "a = \<lparr>itc_ident = i, itc_tree = itc_tree s\<rparr>" "b = \<lparr>itc_ident = j, itc_tree = itc_tree s\<rparr>"
    using assms(2) s by (auto simp: itc_fork_def)
  then show ?thesis using c assms(1) by (simp add: itc_wf_def itc_val_def itc_own_def)
qed

lemma itc_join_correct:
  assumes "n < 2 ^ 64" and "itc_wf n a" and "itc_wf n b" and "\<And>p. \<not> (itc_own a p \<and> itc_own b p)"
  shows "\<exists>c. itc_join a b = Some c \<and> itc_wf n c
    \<and> (\<forall>p. itc_val c p = max (itc_val a p) (itc_val b p) \<and> (itc_own c p \<longleftrightarrow> itc_own a p \<or> itc_own b p))"
proof -
  let ?e = "join_event (itc_tree a) (itc_tree b)"
  have w: "normal_id (itc_ident a)" "normal_id (itc_ident b)" "emax (itc_tree a) \<le> n" "emax (itc_tree b) \<le> n"
    using assms(2,3) by (auto simp: itc_wf_def)
  obtain c where c: "sum_id (itc_ident a) (itc_ident b) = Some c" "normal_id c"
      "\<forall>p. owns c p \<longleftrightarrow> owns (itc_ident a) p \<or> owns (itc_ident b) p"
    using sum_id_correct [OF w(1,2)] assms(4) by (auto simp: itc_own_def)
  have le: "emax ?e \<le> n" by (rule emax_join [OF w(3,4) assms(1)])
  then have lt: "emax ?e < 2 ^ 64" using assms(1) by linarith
  have "emax (itc_tree a) < 2 ^ 64" "emax (itc_tree b) < 2 ^ 64" using w(3,4) assms(1) by linarith+
  note j = join_event_correct [OF this, THEN conjunct2, rule_format]
  show ?thesis
    using c le by (simp add: itc_join_def itc_wf_def itc_val_def itc_own_def emax_normalize_event [OF lt]
        normalize_event_normal [OF lt] ev_normalize_event [OF lt] j)
qed

lemma itc_event_correct:
  assumes "Suc n < 2 ^ 64" and "itc_wf n s" and "itc_own s q"
  shows "\<exists>t. itc_record_event s = Some t \<and> itc_wf (Suc n) t \<and> itc_own t = itc_own s
    \<and> (\<forall>p. itc_val s p \<le> itc_val t p \<and> (\<not> itc_own s p \<longrightarrow> itc_val t p = itc_val s p))
    \<and> (\<exists>p. itc_own s p \<and> itc_val s p < itc_val t p)"
proof -
  have w: "normal_id (itc_ident s)" "normal_ev (itc_tree s)" "emax (itc_tree s) \<le> n" using assms(2) by (auto simp: itc_wf_def)
  have auth: "itc_ident s \<noteq> IdLeaf False" using assms(3) by (auto simp: itc_own_def)
  have "Suc (emax (itc_tree s)) < 2 ^ 64" using w(3) assms(1) by linarith
  from do_event_correct [OF w(1) auth w(2) this]
  obtain e where e: "do_event (itc_ident s) (itc_tree s) = Some e" "bumps (itc_ident s) (itc_tree s) e" by blast
  have le: "emax e \<le> Suc n" using e(2) w(3) by (simp add: bumps_def)
  have lt: "emax e < 2 ^ 64" by (rule le_less_trans [OF le assms(1)])
  have "itc_record_event s = Some (s\<lparr>itc_tree := normalize_event e\<rparr>)"
    using auth e(1) by (simp add: itc_record_event_def itc_has_authority_def)
  then show ?thesis
    using e(2) le w(1)
    by (simp add: itc_wf_def itc_val_def itc_own_def bumps_def raises_def emax_normalize_event [OF lt]
        normalize_event_normal [OF lt] ev_normalize_event [OF lt])
qed

lemma itc_leq_correct:
  assumes "n < 2 ^ 64" and "itc_wf n a" and "itc_wf n b"
  shows "itc_leq a b \<longleftrightarrow> (\<forall>p. itc_val a p \<le> itc_val b p)"
proof -
  have "emax (itc_tree a) + unat (0::u64) < 2 ^ 64" "emax (itc_tree b) + unat (0::u64) < 2 ^ 64"
    using assms by (auto simp: itc_wf_def)
  from leq_event_iff [OF _ _ this] assms(2,3) show ?thesis by (simp add: itc_leq_def itc_val_def itc_wf_def)
qed

interpretation itc: causal_clock itc_val itc_own itc_wf "2 ^ 64" itc_fork itc_join itc_record_event itc_peek itc_leq
proof
  show "itc_record_event s = None" if "itc_wf n s" "\<And>p. \<not> itc_own s p" for n s
    using owns_none [of "itc_ident s"] that
    by (simp add: itc_record_event_def itc_has_authority_def itc_wf_def itc_own_def)
  show "itc_wf n (itc_peek s) \<and> itc_val (itc_peek s) = itc_val s \<and> (\<forall>p. \<not> itc_own (itc_peek s) p)" if "itc_wf n s" for n s
    using that by (simp add: itc_peek_def itc_wf_def itc_val_def itc_own_def)
  show "itc_wf n s \<Longrightarrow> itc_wf (Suc n) s" for n s by (simp add: itc_wf_def)
qed (fact itc_fork_correct itc_join_correct itc_event_correct itc_leq_correct)+

end
