(* ===== verification/Itc_Causality.thy ===== *)
theory Itc_Causality
  imports Itc
begin

text \<open>
  Systems of interval tree clocks: the stamps that descend from one seed by the operations of
  \<open>crates/dyniak/src/datatypes/itc.rs\<close> order exactly as their causal histories do, and no join of two
  of them panics.
\<close>

text \<open>
  A system starts with the seed stamp and works on its stamps by the operations of the module.  Each
  live stamp carries the set of the numbers of the events it knows of.  A stamp that was consumed
  leaves its slot empty; \<open>None\<close> for the whole is an operation on an empty slot, or a panic.
\<close>

datatype itc_op =
    Fork_At nat
  | Join_At nat nat
  | Event_At nat
  | Peek_At nat
  | Send_At nat
  | Receive_At nat nat

type_synonym slots = "(itc \<times> nat set) option list"

definition slot :: "slots \<Rightarrow> nat \<Rightarrow> (itc \<times> nat set) option" where
  "slot c i = (if i < length c then c ! i else None)"

fun itc_step :: "itc_op \<Rightarrow> nat \<times> slots \<Rightarrow> (nat \<times> slots) option" where
  "itc_step (Fork_At i) (n, c) = map_option (\<lambda>(s, h).
     (n, c[i := Some (fst (itc_fork s), h)] @ [Some (snd (itc_fork s), h)])) (slot c i)"
| "itc_step (Peek_At i) (n, c) = map_option (\<lambda>(s, h). (n, c @ [Some (itc_peek s, h)])) (slot c i)"
| "itc_step (Event_At i) (n, c) = Option.bind (slot c i) (\<lambda>(s, h).
     map_option (\<lambda>t. (Suc n, c[i := Some (t, insert n h)])) (itc_record_event s))"
| "itc_step (Send_At i) (n, c) = Option.bind (slot c i) (\<lambda>(s, h).
     map_option (\<lambda>(t, m). (Suc n, c[i := Some (t, insert n h)] @ [Some (m, insert n h)])) (itc_send s))"
| "itc_step (Join_At i j) (n, c) = (if i = j then None else Option.bind (slot c i) (\<lambda>(s, h). Option.bind (slot c j) (\<lambda>(t, g).
     map_option (\<lambda>u. (n, c[i := Some (u, h \<union> g), j := None])) (itc_join s t))))"
| "itc_step (Receive_At i j) (n, c) = (if i = j then None else Option.bind (slot c i) (\<lambda>(s, h). Option.bind (slot c j) (\<lambda>(t, g).
     map_option (\<lambda>u. (Suc n, c[i := Some (u, insert n (h \<union> g)), j := None])) (itc_receive s t))))"

definition itc_run :: "itc_op list \<Rightarrow> (nat \<times> slots) option" where
  "itc_run ops = foldl (\<lambda>st op. Option.bind st (itc_step op)) (Some (0, [Some (itc_seed, {})])) ops"

lemma slot_update [simp]: "slot (c[i := x]) k = (if k = i \<and> i < length c then x else slot c k)"
  by (simp add: slot_def nth_list_update)

lemma slot_append [simp]: "slot (c @ [x]) k = (if k = length c then x else slot c k)"
  by (simp add: slot_def nth_append)

lemma slot_length: "slot c i = Some x \<Longrightarrow> i < length c"
  by (simp add: slot_def split: if_splits)

definition slots_ok :: "nat \<Rightarrow> (nat \<Rightarrow> path \<Rightarrow> nat) \<Rightarrow> (nat \<Rightarrow> path) \<Rightarrow> slots \<Rightarrow> bool" where
  "slots_ok n V w c \<longleftrightarrow> (\<forall>i x. slot c i = Some x \<longrightarrow> itc.tracks n V w x)
     \<and> (\<forall>i j x y. i \<noteq> j \<longrightarrow> slot c i = Some x \<longrightarrow> slot c j = Some y \<longrightarrow> itc.apart x y)"

lemma slots_okD:
  assumes "slots_ok n V w c"
  shows "slot c i = Some x \<Longrightarrow> itc.tracks n V w x"
    and "i \<noteq> j \<Longrightarrow> slot c i = Some x \<Longrightarrow> slot c j = Some y \<Longrightarrow> itc.apart x y"
  using assms unfolding slots_ok_def by blast+

lemma slots_ok_replace:
  assumes "slots_ok n V w c" and "itc.tracks n V w x" and "\<And>j y. j \<noteq> i \<Longrightarrow> slot c j = Some y \<Longrightarrow> itc.apart x y"
  shows "slots_ok n V w (c[i := Some x])"
  unfolding slots_ok_def
proof (intro conjI allI impI)
  fix k l y z
  assume "k \<noteq> l" "slot (c[i := Some x]) k = Some y" "slot (c[i := Some x]) l = Some z"
  then show "itc.apart y z"
    using slots_okD(2) [OF assms(1), of k l y z] assms(3) [of k y] assms(3) [of l z] itc.apart_sym
    by (auto split: if_splits)
qed (use assms(2) slots_okD(1) [OF assms(1)] in \<open>auto split: if_splits\<close>)

lemma slots_ok_add:
  assumes "slots_ok n V w c" and "itc.tracks n V w x" and "\<And>j y. slot c j = Some y \<Longrightarrow> itc.apart x y"
  shows "slots_ok n V w (c @ [Some x])"
  unfolding slots_ok_def
proof (intro conjI allI impI)
  fix k l y z
  assume "k \<noteq> l" "slot (c @ [Some x]) k = Some y" "slot (c @ [Some x]) l = Some z"
  then show "itc.apart y z"
    using slots_okD(2) [OF assms(1), of k l y z] assms(3) [of k y] assms(3) [of l z] itc.apart_sym
    by (auto split: if_splits)
qed (use assms(2) slots_okD(1) [OF assms(1)] in \<open>auto split: if_splits\<close>)

lemma slots_ok_kill: "slots_ok n V w c \<Longrightarrow> slots_ok n V w (c[j := None])"
  unfolding slots_ok_def by (auto split: if_splits)

lemma slots_ok_fork:
  assumes "slots_ok n V w c" and "slot c i = Some (s, h)" and "itc_fork s = (a, b)"
  shows "slots_ok n V w (c[i := Some (a, h)] @ [Some (b, h)])"
proof -
  note f = itc.tracks_fork [OF slots_okD(1) [OF assms(1,2)] assms(3)]
  have ap: "itc.apart (a, h) y \<and> itc.apart (b, h) y" if "j \<noteq> i" "slot c j = Some y" for j y
    using f slots_okD(2) [OF assms(1) that(1) [symmetric] assms(2) that(2)] by blast
  have "slots_ok n V w (c[i := Some (a, h)])"
    using f ap by (intro slots_ok_replace [OF assms(1)]) blast+
  then show ?thesis
    by (rule slots_ok_add) (use f ap itc.apart_sym slot_length [OF assms(2)] in \<open>auto split: if_splits\<close>)
qed

lemma slots_ok_peek:
  assumes "slots_ok n V w c" and "slot c i = Some (s, h)"
  shows "slots_ok n V w (c @ [Some (itc_peek s, h)])"
proof -
  note p = itc.tracks_peek [OF slots_okD(1) [OF assms]]
  have "itc.apart (itc_peek s, h) y" if "slot c j = Some y" for j y
  proof (cases "j = i")
    case True
    with assms(2) that p itc.apart_sym show ?thesis by auto
  next
    case False
    with p slots_okD(2) [OF assms(1) _ assms(2) that] show ?thesis by blast
  qed
  with p show ?thesis by (intro slots_ok_add [OF assms(1)]) blast+
qed

lemma slots_ok_join:
  assumes "n < 2 ^ 64" and "slots_ok n V w c" and "i \<noteq> j" and "slot c i = Some (s, h)" and "slot c j = Some (t, g)"
  shows "\<exists>u. itc_join s t = Some u \<and> slots_ok n V w (c[i := Some (u, h \<union> g), j := None])"
proof -
  from itc.tracks_join [OF assms(1) slots_okD(1) [OF assms(2,4)] slots_okD(1) [OF assms(2,5)] slots_okD(2) [OF assms(2-5)]]
  obtain u where u: "itc_join s t = Some u" "itc.tracks n V w (u, h \<union> g)"
    and ap: "\<And>z. itc.apart (s, h) z \<Longrightarrow> itc.apart (t, g) z \<Longrightarrow> itc.apart (u, h \<union> g) z" by blast
  have "slots_ok n V w (c[j := None, i := Some (u, h \<union> g)])"
  proof (rule slots_ok_replace [OF slots_ok_kill [OF assms(2)] u(2)])
    fix k y
    assume k: "k \<noteq> i" "slot (c[j := None]) k = Some y"
    then have "k \<noteq> j" "slot c k = Some y" using slot_length [OF assms(5)] by (auto split: if_splits)
    then show "itc.apart (u, h \<union> g) y"
      using ap slots_okD(2) [OF assms(2) _ assms(4), of k y] slots_okD(2) [OF assms(2) _ assms(5), of k y] k(1) by blast
  qed
  with u(1) show ?thesis by (auto simp: list_update_swap assms(3))
qed

lemma slots_ok_event:
  assumes "Suc n < 2 ^ 64" and "slots_ok n V w c" and "slot c i = Some (s, h)" and "itc_record_event s = Some t"
  shows "\<exists>V' w'. slots_ok (Suc n) V' w' (c[i := Some (t, insert n h)])"
proof -
  have tr: "itc.tracks n V w (s, h)" by (rule slots_okD(1) [OF assms(2,3)])
  obtain q where "itc_own s q" using itc.event_needs_ownership [OF assms(1) tr assms(4)] ..
  from itc.tracks_event [OF assms(1) tr this] assms(4)
  obtain V' w' where t: "itc.tracks (Suc n) V' w' (t, insert n h)"
    and z: "\<And>z. itc.tracks n V w z \<Longrightarrow> itc.apart (s, h) z \<Longrightarrow> itc.tracks (Suc n) V' w' z \<and> itc.apart (t, insert n h) z"
    by auto
  have ap: "itc.tracks (Suc n) V' w' y \<and> itc.apart (t, insert n h) y" if "j \<noteq> i" "slot c j = Some y" for j y
    using z slots_okD(1) [OF assms(2) that(2)] slots_okD(2) [OF assms(2) that(1) [symmetric] assms(3) that(2)] by blast
  have "slots_ok (Suc n) V' w' (c[i := None])"
    unfolding slots_ok_def
  proof (intro conjI allI impI)
    fix k y
    assume "slot (c[i := None]) k = Some y"
    then show "itc.tracks (Suc n) V' w' y" using ap [of k y] slot_length [OF assms(3)] by (auto split: if_splits)
  next
    fix k l y y'
    assume "k \<noteq> l" "slot (c[i := None]) k = Some y" "slot (c[i := None]) l = Some y'"
    then show "itc.apart y y'" using slots_okD(2) [OF assms(2), of k l] by (auto split: if_splits)
  qed
  then have "slots_ok (Suc n) V' w' (c[i := None, i := Some (t, insert n h)])"
    by (rule slots_ok_replace [OF _ t]) (use ap in \<open>auto split: if_splits\<close>)
  then show ?thesis by auto
qed

lemma itc_step_ok:
  assumes "slots_ok n V w c" and "itc_step op (n, c) = Some (m, d)" and "m < 2 ^ 64"
  shows "\<exists>V' w'. slots_ok m V' w' d"
proof (cases op)
  case (Fork_At i)
  with assms(2) slots_ok_fork [OF assms(1) _ prod.collapse [symmetric]] show ?thesis by (auto intro!: exI)
next
  case (Peek_At i)
  with assms(2) slots_ok_peek [OF assms(1)] show ?thesis by (auto intro!: exI)
next
  case (Event_At i)
  with assms(2) obtain s h t where "slot c i = Some (s, h)" "itc_record_event s = Some t" "m = Suc n"
    "d = c[i := Some (t, insert n h)]" by (auto split: bind_splits)
  with slots_ok_event [OF _ assms(1)] assms(3) show ?thesis by auto
next
  case (Send_At i)
  with assms(2) obtain s h t where *: "slot c i = Some (s, h)" "itc_record_event s = Some t" "m = Suc n"
    "d = c[i := Some (t, insert n h)] @ [Some (itc_peek t, insert n h)]" by (auto simp: itc_send_def split: bind_splits)
  with slots_ok_event [OF _ assms(1) *(1,2)] assms(3)
  obtain V' w' where "slots_ok m V' w' (c[i := Some (t, insert n h)])" by auto
  from slots_ok_peek [OF this, of i] *(4) slot_length [OF *(1)] show ?thesis by auto
next
  case (Join_At i j)
  with assms(2) obtain s h t g u where *: "i \<noteq> j" "slot c i = Some (s, h)" "slot c j = Some (t, g)" "itc_join s t = Some u"
    "m = n" "d = c[i := Some (u, h \<union> g), j := None]" by (auto split: bind_splits if_splits)
  with slots_ok_join [OF _ assms(1) *(1-3)] assms(3) show ?thesis by auto
next
  case (Receive_At i j)
  with assms(2) obtain s h t g u v where *: "i \<noteq> j" "slot c i = Some (s, h)" "slot c j = Some (t, g)" "itc_join s t = Some u"
    "itc_record_event u = Some v" "m = Suc n" "d = c[i := Some (v, insert n (h \<union> g)), j := None]"
    by (auto simp: itc_receive_def split: bind_splits if_splits)
  let ?c = "c[i := Some (u, h \<union> g), j := None]"
  have "slots_ok n V w ?c" using slots_ok_join [OF _ assms(1) *(1-3)] *(4,6) assms(3) by auto
  moreover have "slot ?c i = Some (u, h \<union> g)" using slot_length [OF *(2)] *(1) by simp
  ultimately have "\<exists>V' w'. slots_ok m V' w' (?c[i := Some (v, insert n (h \<union> g))])"
    using slots_ok_event *(5,6) assms(3) by blast
  then show ?thesis using *(1,7) by (simp add: list_update_swap)
qed

lemma itc_step_count: "itc_step op (n, c) = Some (m, d) \<Longrightarrow> n \<le> m"
  by (cases op) (auto split: bind_splits if_splits prod.splits)

lemma itc_seed_ok: "slots_ok 0 V w [Some (itc_seed, {})]"
  by (auto simp: slots_ok_def slot_def itc.tracks_def itc_seed_def itc_wf_def itc_val_def)

lemma itc_run_ok: "itc_run ops = Some (n, c) \<Longrightarrow> n < 2 ^ 64 \<Longrightarrow> \<exists>V w. slots_ok n V w c"
proof (induction ops arbitrary: n c rule: rev_induct)
  case Nil
  then show ?case using itc_seed_ok by (auto simp: itc_run_def)
next
  case (snoc op ops)
  then obtain m d where md: "itc_run ops = Some (m, d)" "itc_step op (m, d) = Some (n, c)"
    by (auto simp: itc_run_def split: bind_splits)
  with itc_step_count snoc.prems(2) have "m < 2 ^ 64" by (meson le_less_trans)
  with snoc.IH [OF md(1)] itc_step_ok [OF _ md(2) snoc.prems(2)] show ?case by blast
qed

text \<open>
  C1. In every system of stamps that grows from one seed by forks, joins, peeks, events, sends and
  receives, with fewer than \<open>2\<^sup>6\<^sup>4\<close> events in all, the clock order is exactly causality: one live stamp
  is below another if and only if the other knows every event that the one knows.  Hence the comparison
  reports equal, less, greater or concurrent as the histories are.  Two live stamps can always be
  joined, and every live stamp that has authority can record an event: neither panics.
\<close>

theorem itc_characterises_causality:
  assumes "itc_run ops = Some (n, c)" and "Suc n < 2 ^ 64"
    and "slot c i = Some (s, h)" and "slot c j = Some (t, g)"
  shows "(itc_leq s t \<longleftrightarrow> h \<subseteq> g)
    \<and> partial_cmp_event s t =
      (if h = g then Some Equal else if h \<subset> g then Some Less else if g \<subset> h then Some Greater else None)
    \<and> (i \<noteq> j \<longrightarrow> itc_join s t \<noteq> None) \<and> (itc_has_authority s \<longrightarrow> itc_record_event s \<noteq> None)"
proof -
  have n: "n < 2 ^ 64" using assms(2) by simp
  obtain V w where ok: "slots_ok n V w c" using itc_run_ok [OF assms(1) n] by blast
  have tr: "itc.tracks n V w (s, h)" "itc.tracks n V w (t, g)" using slots_okD(1) [OF ok] assms(3,4) by blast+
  have le: "itc_leq s t \<longleftrightarrow> h \<subseteq> g" by (rule itc.order_is_inclusion [OF n tr])
  have ge: "itc_leq t s \<longleftrightarrow> g \<subseteq> h" by (rule itc.order_is_inclusion [OF n tr(2,1)])
  have "partial_cmp_event s t =
      (if h = g then Some Equal else if h \<subset> g then Some Less else if g \<subset> h then Some Greater else None)"
    unfolding partial_cmp_event_def le ge by (cases "h \<subseteq> g"; cases "g \<subseteq> h") auto
  moreover have "i \<noteq> j \<longrightarrow> itc_join s t \<noteq> None" using slots_ok_join [OF n ok _ assms(3,4)] by auto
  moreover have "itc_has_authority s \<longrightarrow> itc_record_event s \<noteq> None"
  proof
    assume a: "itc_has_authority s"
    have "itc_wf n s" by (rule itc.tracks_wf [OF tr(1)])
    moreover from this a obtain q where "itc_own s q"
      using owns_some [of "itc_ident s"] by (auto simp: itc_wf_def itc_own_def itc_has_authority_def)
    ultimately have "\<exists>t. itc_record_event s = Some t" using itc_event_correct [OF assms(2)] by blast
    then show "itc_record_event s \<noteq> None" by auto
  qed
  ultimately show ?thesis using le by blast
qed

text \<open>A fork, an event on each side, a message from one side to the other.\<close>

definition demo_receiver :: itc where
  "demo_receiver = \<lparr>itc_ident = IdNode (IdLeaf True) (IdLeaf False), itc_tree = EvNode 1 (EvLeaf 1) (EvLeaf 0)\<rparr>"

definition demo_sender :: itc where
  "demo_sender = \<lparr>itc_ident = IdNode (IdLeaf False) (IdLeaf True), itc_tree = EvNode 0 (EvLeaf 0) (EvLeaf 1)\<rparr>"

lemma demo_run:
  "itc_run [Fork_At 0, Event_At 0, Send_At 1, Receive_At 0 2] =
     Some (3, [Some (demo_receiver, {0, 1, 2}), Some (demo_sender, {1}), None])"
  by code_simp

theorem itc_characterises_causality_witness:
  "itc_leq demo_sender demo_receiver \<and> partial_cmp_event demo_receiver demo_sender = Some Greater
   \<and> itc_join demo_receiver demo_sender \<noteq> None"
  using itc_characterises_causality [OF demo_run, of 0 demo_receiver "{0, 1, 2}" 1 demo_sender "{1}"]
    itc_characterises_causality [OF demo_run, of 1 demo_sender "{1}" 0 demo_receiver "{0, 1, 2}"]
  by (auto simp: slot_def)

end
