(* ===== verification/Quorum.thy ===== *)
theory Quorum
  imports Prelude
begin

text \<open>
  Quorum decisions.  \<open>crates/dyniak/src/quorum.rs\<close> resolves a consistency knob to a replica count;
  \<open>crates/dynomite/src/msg/response_mgr.rs\<close> collects the replies of one datacenter and decides when a
  request is answered.  The manager's decision table is shown to be the majority rule on the
  checksums of the replies, for every reply sequence a request can see.
\<close>

section \<open>Knob resolution\<close>

definition QUORUM_ONE :: u32 where "QUORUM_ONE = - 1"
definition QUORUM_QUORUM :: u32 where "QUORUM_QUORUM = - 1 - 1"
definition QUORUM_ALL :: u32 where "QUORUM_ALL = - 1 - 2"
definition QUORUM_DEFAULT :: u32 where "QUORUM_DEFAULT = - 1 - 3"

definition clamp :: "'a::linorder \<Rightarrow> 'a \<Rightarrow> 'a \<Rightarrow> 'a" where
  "clamp k lo hi = (if k < lo then lo else if k > hi then hi else k)"

definition resolve_default :: "u32 option \<Rightarrow> u32 \<Rightarrow> u32" where
  "resolve_default bucket_default n =
     (case bucket_default of
        None \<Rightarrow> n div 2 + 1
      | Some k \<Rightarrow>
          if k = QUORUM_DEFAULT \<or> k = QUORUM_QUORUM then n div 2 + 1
          else if k = QUORUM_ONE then 1
          else if k = QUORUM_ALL then n
          else clamp k 1 n)"

definition resolve :: "u32 option \<Rightarrow> u8 \<Rightarrow> u32 option \<Rightarrow> u32" where
  "resolve knob n_val bucket_default =
     (let n = ucast (max n_val 1) in
      case knob of
        None \<Rightarrow> resolve_default bucket_default n
      | Some k \<Rightarrow>
          if k = QUORUM_DEFAULT then resolve_default bucket_default n
          else if k = QUORUM_ONE then 1
          else if k = QUORUM_QUORUM then n div 2 + 1
          else if k = QUORUM_ALL then n
          else clamp k 1 n)"

section \<open>Response manager\<close>

definition MAX_REPLICAS_PER_DC :: nat where
  "MAX_REPLICAS_PER_DC = 3"

text \<open>The fields of a message that the manager reads; \<open>'t\<close> is the message type.\<close>

record 't rmsg =
  m_id :: u64
  m_ty :: 't
  m_is_read :: bool
  m_is_error :: bool

record 't good_response =
  gr_msg :: "'t rmsg"
  gr_checksum :: u32

datatype quorum_outcome = Pending | Achieved | Mismatched | Failed

record 't response_mgr =
  is_read :: bool
  max_responses :: u8
  quorum_responses :: u8
  error_responses :: u8
  good :: "'t good_response list"
  err_rsp :: "'t rmsg option"
  mgr_msg_id :: u64
  mgr_msg_type :: 't
  dc_name :: "string option"

definition mgr_new :: "'t rmsg \<Rightarrow> u8 \<Rightarrow> string option \<Rightarrow> 't response_mgr" where
  "mgr_new req maxr dc =
     (let max_responses = max maxr 1 in
      \<lparr>is_read = m_is_read req, max_responses = max_responses, quorum_responses = max_responses div 2 + 1,
       error_responses = 0, good = [], err_rsp = None, mgr_msg_id = m_id req, mgr_msg_type = m_ty req,
       dc_name = dc\<rparr>)"

definition good_responses :: "'t response_mgr \<Rightarrow> u8" where
  "good_responses mgr = (if length (good mgr) < 256 then of_nat (length (good mgr)) else - 1)"

definition pending_responses :: "'t response_mgr \<Rightarrow> u8" where
  "pending_responses mgr =
     saturating_sub (saturating_sub (max_responses mgr) (good_responses mgr)) (error_responses mgr)"

definition submit_response :: "'t rmsg \<Rightarrow> u32 \<Rightarrow> 't response_mgr \<Rightarrow> 't response_mgr" where
  "submit_response rsp checksum mgr =
     (if m_is_error rsp then
        mgr\<lparr>error_responses := saturating_add (error_responses mgr) 1,
            err_rsp := (case err_rsp mgr of None \<Rightarrow> Some rsp | Some e \<Rightarrow> Some e)\<rparr>
      else if length (good mgr) < MAX_REPLICAS_PER_DC then
        mgr\<lparr>good := good mgr @ [\<lparr>gr_msg = rsp, gr_checksum = checksum\<rparr>]\<rparr>
      else mgr)"

text \<open>Indexing past the end panics (\<open>None\<close>).\<close>

definition good_checksum :: "'t response_mgr \<Rightarrow> nat \<Rightarrow> u32 option" where
  "good_checksum mgr i = (if i < length (good mgr) then Some (gr_checksum (good mgr ! i)) else None)"

definition is_quorum_achieved :: "'t response_mgr \<Rightarrow> bool option" where
  "is_quorum_achieved mgr =
     (let g = good_responses mgr in
      if quorum_responses mgr = 1 \<and> g = quorum_responses mgr then Some True
      else if g < quorum_responses mgr then Some False
      else case (good_checksum mgr 0, good_checksum mgr 1) of
        (Some chk0, Some chk1) \<Rightarrow>
          if chk0 = chk1 then Some True
          else if g < 3 then Some False
          else map_option (\<lambda>chk2. chk1 = chk2 \<or> chk0 = chk2) (good_checksum mgr 2)
      | _ \<Rightarrow> None)"

definition outcome :: "'t response_mgr \<Rightarrow> quorum_outcome option" where
  "outcome mgr =
     (let g = good_responses mgr; pending = pending_responses mgr in
      if g < quorum_responses mgr then
        (if pending + g < quorum_responses mgr then Some Failed else Some Pending)
      else
        map_option (\<lambda>ach. if ach then Achieved else if pending = 0 then Mismatched else Pending)
          (is_quorum_achieved mgr))"

definition is_done :: "'t response_mgr \<Rightarrow> bool option" where
  "is_done mgr = map_option (\<lambda>oc. oc \<noteq> Pending) (outcome mgr)"

text \<open>The outer option is the panic, the inner one the returned value.\<close>

definition pick_response :: "'t response_mgr \<Rightarrow> 't rmsg option option" where
  "pick_response mgr =
     (case outcome mgr of
        None \<Rightarrow> None
      | Some oc \<Rightarrow> Some (
          if oc \<noteq> Achieved then None
          else if length (good mgr) = 1 \<or> length (good mgr) = 2 then Some (gr_msg (good mgr ! 0))
          else if length (good mgr) = 3 then
            (let c0 = gr_checksum (good mgr ! 0); c1 = gr_checksum (good mgr ! 1);
                 c2 = gr_checksum (good mgr ! 2) in
             if c0 = c1 then Some (gr_msg (good mgr ! 0))
             else if c1 = c2 then Some (gr_msg (good mgr ! 1))
             else if c0 = c2 then Some (gr_msg (good mgr ! 0))
             else None)
          else None))"

section \<open>Resolution stays in range and quorums overlap\<close>

lemma unat_half_up: "unat ((n :: u32) div 2 + 1) = unat n div 2 + 1"
proof -
  have "unat n < 2 ^ 32" using unsigned_less [where ?'a = nat and w = n] by simp
  then show ?thesis by (subst unat_add_exact) (simp_all add: unat_div_distrib)
qed

lemma clamp_bounds: "lo \<le> hi \<Longrightarrow> lo \<le> clamp k lo hi \<and> clamp k lo hi \<le> hi"
  by (auto simp: clamp_def)

lemma half_up_bounds: "1 \<le> n \<Longrightarrow> 1 \<le> (n :: u32) div 2 + 1 \<and> n div 2 + 1 \<le> n"
  by (simp add: word_le_nat_alt unat_half_up)

lemma resolve_default_bounds: "1 \<le> n \<Longrightarrow> 1 \<le> resolve_default d n \<and> resolve_default d n \<le> n"
  by (auto simp: resolve_default_def half_up_bounds clamp_bounds split: option.split)

lemma unat_replicas: "unat (ucast (max n 1 :: u8) :: u32) = max (unat n) 1"
proof -
  have "unat (ucast m :: u32) = unat m" for m :: u8
    using unsigned_less [where ?'a = nat and w = m] by (simp add: unsigned_ucast_eq take_bit_nat_eq_self)
  then show ?thesis by (auto simp: max_def word_le_nat_alt)
qed

lemma resolve_bounds:
  "1 \<le> resolve knob n d \<and> resolve knob n d \<le> ucast (max n 1)"
proof -
  have "1 \<le> (ucast (max n 1) :: u32)" by (simp add: word_le_nat_alt unat_replicas)
  then show ?thesis
    by (auto simp: resolve_def Let_def half_up_bounds clamp_bounds resolve_default_bounds split: option.split)
qed

lemma large_sets_meet:
  assumes "A \<subseteq> {..< n :: nat}" "B \<subseteq> {..< n}" "n < card A + card B"
  shows "A \<inter> B \<noteq> {}"
proof
  assume "A \<inter> B = {}"
  then have "card (A \<union> B) = card A + card B"
    using assms(1,2) by (intro card_Un_disjoint) (auto intro: finite_subset)
  moreover have "card (A \<union> B) \<le> card {..< n}" using assms(1,2) by (intro card_mono) auto
  ultimately show False using assms(3) by simp
qed

text \<open>
  C28. Every knob resolves to a count between one and the replica count, whatever the bucket default,
  and two sets of replicas of the size that \<open>quorum\<close> resolves to always share a replica, so a
  quorum read sees every quorum write.
\<close>

theorem quorum_resolution:
  assumes "N = max (unat n_val) 1" and "q = unat (resolve (Some QUORUM_QUORUM) n_val d)"
    and "A \<subseteq> {..< N}" and "B \<subseteq> {..< N}" and "q \<le> card A" and "q \<le> card B"
  shows "1 \<le> unat (resolve knob n_val d') \<and> unat (resolve knob n_val d') \<le> N \<and> A \<inter> B \<noteq> {}"
proof -
  have "q = N div 2 + 1"
    unfolding assms(1,2)
    by (simp add: resolve_def QUORUM_QUORUM_def QUORUM_DEFAULT_def QUORUM_ONE_def unat_half_up unat_replicas)
  then have "A \<inter> B \<noteq> {}" using assms(3-6) by (intro large_sets_meet [of _ N]) auto
  then show ?thesis
    using resolve_bounds [of knob n_val d'] unfolding assms(1) by (simp add: word_le_nat_alt unat_replicas)
qed

theorem quorum_resolution_witness:
  "unat (resolve (Some 9) 3 None) \<le> 3 \<and> {0, 1 :: nat} \<inter> {1, 2} \<noteq> {}"
proof -
  have "resolve (Some QUORUM_QUORUM) 3 None = 2" by code_simp
  then have q: "2 = unat (resolve (Some QUORUM_QUORUM) 3 None)" by simp
  have n: "3 = max (unat (3 :: u8)) 1" by simp
  have "1 \<le> unat (resolve (Some 9) 3 None) \<and> unat (resolve (Some 9) 3 None) \<le> 3 \<and> {0, 1 :: nat} \<inter> {1, 2} \<noteq> {}"
    by (rule quorum_resolution [OF n q]) auto
  then show ?thesis by blast
qed

section \<open>The decision table is the majority rule\<close>

definition deliver :: "('t rmsg \<times> u32) list \<Rightarrow> 't response_mgr \<Rightarrow> 't response_mgr" where
  "deliver rs mgr = fold (\<lambda>(rsp, checksum). submit_response rsp checksum) rs mgr"

text \<open>Good replies with a given checksum, and error replies.\<close>

definition agreeing :: "('t rmsg \<times> u32) list \<Rightarrow> u32 \<Rightarrow> nat" where
  "agreeing rs c = length (filter (\<lambda>(rsp, k). \<not> m_is_error rsp \<and> k = c) rs)"

definition errors :: "('t rmsg \<times> u32) list \<Rightarrow> nat" where
  "errors rs = length (filter (\<lambda>(rsp, k). m_is_error rsp) rs)"

definition goods :: "('t rmsg \<times> u32) list \<Rightarrow> 't good_response list" where
  "goods rs = map (\<lambda>(rsp, k). \<lparr>gr_msg = rsp, gr_checksum = k\<rparr>) (filter (\<lambda>(rsp, k). \<not> m_is_error rsp) rs)"

definition majority_rule :: "nat \<Rightarrow> ('t rmsg \<times> u32) list \<Rightarrow> quorum_outcome" where
  "majority_rule n rs =
     (if \<exists>c \<in> snd ` set rs. n div 2 + 1 \<le> agreeing rs c then Achieved
      else if n < errors rs + (n div 2 + 1) then Failed
      else if length rs = n then Mismatched
      else Pending)"

lemma deliver_state:
  assumes "length rs \<le> 3"
  shows "good (deliver rs (mgr_new req m dc)) = goods rs
    \<and> unat (error_responses (deliver rs (mgr_new req m dc))) = errors rs
    \<and> max_responses (deliver rs (mgr_new req m dc)) = max m 1
    \<and> quorum_responses (deliver rs (mgr_new req m dc)) = max m 1 div 2 + 1"
  using assms
proof (induction rs rule: rev_induct)
  case Nil
  then show ?case by (simp add: deliver_def mgr_new_def Let_def goods_def errors_def)
next
  case (snoc r rs)
  obtain x k where r: "r = (x, k)" by (cases r)
  have "errors rs \<le> 2" "length (goods rs) \<le> 2"
    using snoc.prems by (auto simp: errors_def goods_def intro: le_trans [OF length_filter_le])
  with snoc show ?case
    by (auto simp: deliver_def r submit_response_def MAX_REPLICAS_PER_DC_def goods_def errors_def
        unat_saturating_add)
qed

lemma short_list:
  assumes "length xs \<le> 3"
  obtains "xs = []" | x where "xs = [x]" | x y where "xs = [x, y]" | x y z where "xs = [x, y, z]"
  using assms by (cases xs; cases "tl xs"; cases "tl (tl xs)") (auto simp: Suc_le_eq)

lemma reply_counts:
  "agreeing rs c = count_list (map gr_checksum (goods rs)) c" "length rs = length (goods rs) + errors rs"
  by (induction rs) (auto simp: agreeing_def goods_def errors_def)

lemma goods_mem: "g \<in> set (goods rs) \<Longrightarrow> (gr_msg g, gr_checksum g) \<in> set rs \<and> \<not> m_is_error (gr_msg g)"
  by (auto simp: goods_def)

definition agreed :: "nat \<Rightarrow> 't good_response list \<Rightarrow> bool" where
  "agreed q g = (\<exists>c \<in> set (map gr_checksum g). q \<le> count_list (map gr_checksum g) c)"

lemma majority_rule_goods:
  "majority_rule n rs =
     (if agreed (n div 2 + 1) (goods rs) then Achieved
      else if n < errors rs + (n div 2 + 1) then Failed
      else if length (goods rs) + errors rs = n then Mismatched
      else Pending)"
proof -
  let ?cs = "map gr_checksum (goods rs)"
  have "(\<exists>c \<in> snd ` set rs. n div 2 + 1 \<le> count_list ?cs c) \<longleftrightarrow> agreed (n div 2 + 1) (goods rs)"
  proof
    assume "\<exists>c \<in> snd ` set rs. n div 2 + 1 \<le> count_list ?cs c"
    then obtain c where c: "n div 2 + 1 \<le> count_list ?cs c" by blast
    then have "c \<in> set ?cs" by (metis add_is_0 count_notin le_zero_eq one_neq_zero)
    with c show "agreed (n div 2 + 1) (goods rs)" by (auto simp: agreed_def)
  qed (force simp: agreed_def dest: goods_mem)
  then show ?thesis by (simp add: majority_rule_def reply_counts)
qed

text \<open>The table on counts: \<open>n\<close> replicas, \<open>g\<close> the good replies, \<open>e\<close> the errors.\<close>

lemma outcome_counts:
  assumes n: "n = 1 \<or> n = 2 \<or> n = 3" and le: "length g + e \<le> n"
    and mgr: "good mgr = g" "error_responses mgr = of_nat e" "max_responses mgr = of_nat n"
      "quorum_responses mgr = of_nat (n div 2 + 1)"
  shows "good_responses mgr = of_nat (length g)" and "pending_responses mgr = of_nat (n - e - length g)"
proof -
  show g: "good_responses mgr = of_nat (length g)" using assms by (auto simp: good_responses_def)
  have u: "unat (of_nat k :: u8) = k" if "k \<le> n" for k using that n by (auto simp: unat_of_nat)
  have "unat (pending_responses mgr) = n - e - length g"
    using le by (simp add: pending_responses_def unat_saturating_sub g mgr u)
  then show "pending_responses mgr = of_nat (n - e - length g)" by (metis of_nat_unat ucast_id)
qed

lemma small_word_less:
  "i \<le> 3 \<Longrightarrow> j \<le> 3 \<Longrightarrow> (of_nat i :: u8) < of_nat j \<longleftrightarrow> i < j"
  "i \<le> 3 \<Longrightarrow> j \<le> 3 \<Longrightarrow> (of_nat i :: u8) = of_nat j \<longleftrightarrow> i = j"
  by (simp_all add: word_less_nat_alt word_unat_eq_iff unat_of_nat)

lemma achieved_counts:
  assumes n: "n = 1 \<or> n = 2 \<or> n = 3" and le: "length g + e \<le> n"
    and mgr: "good mgr = g" "error_responses mgr = of_nat e" "max_responses mgr = of_nat n"
      "quorum_responses mgr = of_nat (n div 2 + 1)"
  shows "is_quorum_achieved mgr = Some (agreed (n div 2 + 1) g)"
proof -
  have gl: "good_responses mgr = of_nat (length g)" using outcome_counts [OF assms] by simp
  have q: "n div 2 + 1 \<le> 3" and len: "length g \<le> 3" using n le by auto
  have w: "(1 :: u8) = of_nat 1" "(3 :: u8) = of_nat 3" by simp_all
  have "is_quorum_achieved mgr =
      (if n div 2 + 1 = 1 \<and> length g = n div 2 + 1 then Some True
       else if length g < n div 2 + 1 then Some False
       else case (good_checksum mgr 0, good_checksum mgr 1) of
        (Some chk0, Some chk1) \<Rightarrow>
          if chk0 = chk1 then Some True
          else if length g < 3 then Some False
          else map_option (\<lambda>chk2. chk1 = chk2 \<or> chk0 = chk2) (good_checksum mgr 2)
      | _ \<Rightarrow> None)"
    unfolding is_quorum_achieved_def Let_def gl mgr w using q len by (simp only: small_word_less)
  also have "\<dots> = Some (agreed (n div 2 + 1) g)"
    using len n le by (cases rule: short_list)
      (auto simp: mgr good_checksum_def agreed_def)
  finally show ?thesis .
qed

lemma outcome_table:
  assumes n: "n = 1 \<or> n = 2 \<or> n = 3" and le: "length g + e \<le> n"
    and mgr: "good mgr = g" "error_responses mgr = of_nat e" "max_responses mgr = of_nat n"
      "quorum_responses mgr = of_nat (n div 2 + 1)"
  shows "outcome mgr = Some (if agreed (n div 2 + 1) g then Achieved
      else if n < e + (n div 2 + 1) then Failed else if length g + e = n then Mismatched else Pending)"
proof -
  note c = outcome_counts [OF assms] achieved_counts [OF assms]
  have few: "\<not> agreed (n div 2 + 1) g" if "length g < n div 2 + 1"
    using that by (auto simp: agreed_def dest: le_less_trans [OF _ that] simp: not_le
        intro: le_less_trans [OF count_le_length])
  have s: "n - e - length g + length g = n - e" using le by simp
  have b: "n div 2 + 1 \<le> 3" "length g \<le> 3" "n - e \<le> 3" "n - e - length g \<le> 3" "0 \<le> (3 :: nat)"
    using n le by auto
  have w: "(0 :: u8) = of_nat 0" by simp
  have "pending_responses mgr + good_responses mgr = of_nat (n - e)"
    unfolding c by (metis of_nat_add s)
  then have "outcome mgr = (if length g < n div 2 + 1 then (if n - e < n div 2 + 1 then Some Failed else Some Pending)
      else Some (if agreed (n div 2 + 1) g then Achieved else if n - e - length g = 0 then Mismatched else Pending))"
    unfolding outcome_def Let_def c mgr using b by (simp only: small_word_less w option.map)
  then show ?thesis using few n le by auto
qed

lemma pick_agreed:
  assumes "agreed q g" and "length g \<le> 3" and "q = 1 \<and> length g \<le> 1 \<or> q = 2"
    and oc: "outcome mgr = Some Achieved" and g: "good mgr = g"
  shows "\<exists>r \<in> set g. pick_response mgr = Some (Some (gr_msg r))
    \<and> q \<le> count_list (map gr_checksum g) (gr_checksum r)"
  using assms(1,3)
  by (cases rule: short_list [OF assms(2)])
    (auto simp: pick_response_def oc g agreed_def Let_def split: if_splits)

text \<open>
  C3. For a request sent to one, two or three replicas, after any sequence of at most that many
  replies: the manager never indexes out of range, its outcome is \<open>Achieved\<close> exactly when a strict
  majority of the replicas returned one checksum, \<open>Failed\<close> when too many errors make a majority of
  good replies impossible, \<open>Mismatched\<close> when all have replied without agreement and \<open>Pending\<close>
  otherwise; and the reply it picks is a good one whose checksum a strict majority returned, and it
  picks one exactly when the outcome is \<open>Achieved\<close>.
\<close>

theorem response_mgr_majority:
  assumes "n \<in> {1, 2, 3}" and "length rs \<le> n" and "mgr = deliver rs (mgr_new req (of_nat n) dc)"
  shows "outcome mgr = Some (majority_rule n rs)
    \<and> (\<exists>p. pick_response mgr = Some p \<and> (p \<noteq> None \<longleftrightarrow> majority_rule n rs = Achieved)
         \<and> (\<forall>m. p = Some m \<longrightarrow> (\<exists>c. (m, c) \<in> set rs \<and> \<not> m_is_error m \<and> n div 2 + 1 \<le> agreeing rs c)))"
proof -
  let ?g = "goods rs" and ?e = "errors rs"
  have n: "n = 1 \<or> n = 2 \<or> n = 3" using assms(1) by auto
  then have len: "length rs \<le> 3" using assms(2) by auto
  have mx: "max (of_nat n :: u8) 1 = of_nat n" "(of_nat n :: u8) div 2 + 1 = of_nat (n div 2 + 1)"
    using n by auto
  note st = deliver_state [OF len, of req "of_nat n" dc, folded assms(3), unfolded mx]
  have e: "error_responses mgr = of_nat ?e" using st by (metis of_nat_unat ucast_id)
  have le: "length ?g + ?e \<le> n" using assms(2) reply_counts(2) [of rs] by simp
  have oc: "outcome mgr = Some (majority_rule n rs)"
    unfolding majority_rule_goods using st e by (intro outcome_table [OF n le]) auto
  have g: "good mgr = ?g" using st by simp
  show ?thesis
  proof (cases "majority_rule n rs = Achieved")
    case False
    then show ?thesis using oc by (simp add: pick_response_def oc)
  next
    case True
    then have "agreed (n div 2 + 1) ?g" by (auto simp: majority_rule_goods split: if_splits)
    moreover have "length ?g \<le> 3" "n div 2 + 1 = 1 \<and> length ?g \<le> 1 \<or> n div 2 + 1 = 2"
      using n le by auto
    ultimately have "\<exists>r \<in> set ?g. pick_response mgr = Some (Some (gr_msg r))
        \<and> n div 2 + 1 \<le> count_list (map gr_checksum ?g) (gr_checksum r)"
      using pick_agreed g oc True by metis
    then obtain r where "r \<in> set ?g" "pick_response mgr = Some (Some (gr_msg r))"
      "n div 2 + 1 \<le> agreeing rs (gr_checksum r)" by (auto simp: reply_counts)
    with True oc goods_mem [of r rs] show ?thesis by auto
  qed
qed

theorem response_mgr_majority_witness:
  "\<exists>p. pick_response (deliver
      [(\<lparr>m_id = 2, m_ty = (), m_is_read = False, m_is_error = False\<rparr>, 7),
       (\<lparr>m_id = 3, m_ty = (), m_is_read = False, m_is_error = False\<rparr>, 8),
       (\<lparr>m_id = 4, m_ty = (), m_is_read = False, m_is_error = False\<rparr>, 8)]
      (mgr_new \<lparr>m_id = 1, m_ty = (), m_is_read = True, m_is_error = False\<rparr> (of_nat 3) None)) = Some p
    \<and> p \<noteq> None"
proof -
  let ?rs = "[(\<lparr>m_id = 2, m_ty = (), m_is_read = False, m_is_error = False\<rparr>, 7),
       (\<lparr>m_id = 3, m_ty = (), m_is_read = False, m_is_error = False\<rparr>, 8),
       (\<lparr>m_id = 4, m_ty = (), m_is_read = False, m_is_error = False\<rparr>, 8 :: u32)]"
  have "majority_rule 3 ?rs = Achieved" by (simp add: majority_rule_def agreeing_def)
  then show ?thesis
    using response_mgr_majority [of 3 ?rs _ "\<lparr>m_id = 1, m_ty = (), m_is_read = True, m_is_error = False\<rparr>" None, OF _ _ refl]
    by auto
qed

end
