(* ===== verification/Swim.thy ===== *)
theory Swim
  imports BTree
begin

text \<open>
  The SWIM and Lifeguard membership state machine of \<open>crates/dynomite/src/cluster/swim.rs\<close>.
  \<open>SwimState\<close> is pure in the source: every event carries its logical time, and the model follows it
  operation by operation.  Plain additions wrap, as in the release profile.  The lemmas show that a
  refutation overrides the suspicion that caused it, that an unrefuted suspicion is confirmed within
  a bounded number of periods, and that a member nobody reports stays alive.
\<close>

section \<open>State\<close>

datatype peer_state = Unknown | Joining | Normal | Standby | Down | Reset | Leaving

datatype swim_status = Alive | Suspect u64 u32 | Dead

datatype probe_result = Acked | IndirectAcked | Failed

record swim_member =
  sm_incarnation :: u64
  sm_status :: swim_status

record swim_config =
  indirect_probes :: u32
  suspicion_periods_base :: u64
  ns_dilation :: u64
  ns_max :: u32
  refutation_enabled :: bool

record swim_update =
  up_member :: nat
  up_incarnation :: u64
  up_status :: swim_status

record swim_state =
  sw_me :: nat
  my_incarnation :: u64
  sw_members :: "(nat, swim_member) btmap"
  nack_score :: u32
  sw_cfg :: swim_config

type_synonym transitions = "(u32 \<times> peer_state) list"

definition swim_config_default :: swim_config where
  "swim_config_default = \<lparr>indirect_probes = 3, suspicion_periods_base = 4, ns_dilation = 1, ns_max = 8,
     refutation_enabled = True\<rparr>"

text \<open>\<open>or_insert(Member { incarnation: 0, status: Alive })\<close>.\<close>

definition member_new :: swim_member where
  "member_new = \<lparr>sm_incarnation = 0, sm_status = Alive\<rparr>"

text \<open>\<open>None\<close> is the panic of the assertion.\<close>

definition swim_new :: "nat \<Rightarrow> nat \<Rightarrow> swim_config \<Rightarrow> swim_state option" where
  "swim_new me n cfg =
     (if me < n then
        Some \<lparr>sw_me = me, my_incarnation = 0,
              sw_members = fold (\<lambda>i m. if i \<noteq> me then bt_insert i member_new m else m) [0..<n] [],
              nack_score = 0, sw_cfg = cfg\<rparr>
      else None)"

section \<open>Operations\<close>

definition swim_status_of :: "swim_state \<Rightarrow> nat \<Rightarrow> swim_status" where
  "swim_status_of s m =
     (if m = sw_me s then Alive
      else case map_of (sw_members s) m of None \<Rightarrow> Alive | Some e \<Rightarrow> sm_status e)"

definition swim_incarnation :: "swim_state \<Rightarrow> nat \<Rightarrow> u64" where
  "swim_incarnation s m =
     (if m = sw_me s then my_incarnation s
      else case map_of (sw_members s) m of None \<Rightarrow> 0 | Some e \<Rightarrow> sm_incarnation e)"

fun status_to_peer_state :: "swim_status \<Rightarrow> peer_state" where
  "status_to_peer_state Alive = Normal"
| "status_to_peer_state (Suspect _ _) = Down"
| "status_to_peer_state Dead = Down"

definition member_state :: "swim_state \<Rightarrow> nat \<Rightarrow> peer_state" where
  "member_state s m =
     (case swim_status_of s m of Alive \<Rightarrow> Normal | Suspect _ _ \<Rightarrow> Down | Dead \<Rightarrow> Down)"

fun status_rank :: "swim_status \<Rightarrow> u8" where
  "status_rank Alive = 0"
| "status_rank (Suspect _ _) = 1"
| "status_rank Dead = 2"

fun merge_suspect :: "swim_status \<Rightarrow> swim_status \<Rightarrow> u64 \<Rightarrow> swim_status" where
  "merge_suspect (Suspect s1 c1) (Suspect _ c2) tick = Suspect s1 (saturating_add c1 c2)"
| "merge_suspect _ (Suspect _ c) tick = Suspect tick (max c 1)"
| "merge_suspect _ other tick = other"

definition transition :: "nat \<Rightarrow> peer_state \<Rightarrow> peer_state \<Rightarrow> transitions" where
  "transition m prev now = (if prev = now then [] else [(of_nat m, now)])"

definition saturating_mul :: "'a::len word \<Rightarrow> 'a word \<Rightarrow> 'a word" where
  "saturating_mul a b = (if unat a * unat b < 2 ^ LENGTH('a) then a * b else - 1)"

definition confirm_deadline_for :: "swim_state \<Rightarrow> u64 \<Rightarrow> u32 \<Rightarrow> u64" where
  "confirm_deadline_for s since suspectors =
     (let dilated = saturating_mul (suspicion_periods_base (sw_cfg s))
            (1 + ucast (nack_score s) * ns_dilation (sw_cfg s));
          shift = min (saturating_sub suspectors 1) 63;
          shrunk = max (drop_bit (unat shift) dilated) 1
      in saturating_add since shrunk)"

definition confirm_deadline :: "swim_state \<Rightarrow> nat \<Rightarrow> u64 option" where
  "confirm_deadline s m =
     (case map_of (sw_members s) m of
        Some e \<Rightarrow> (case sm_status e of Suspect since n \<Rightarrow> Some (confirm_deadline_for s since n) | _ \<Rightarrow> None)
      | None \<Rightarrow> None)"

definition mark_alive_local :: "nat \<Rightarrow> swim_state \<Rightarrow> transitions \<times> swim_state" where
  "mark_alive_local target s =
     (let entry = bt_get_or member_new (sw_members s) target;
          prev = status_to_peer_state (sm_status entry);
          entry = (if sm_status entry = Dead then entry else entry\<lparr>sm_status := Alive\<rparr>);
          s = s\<lparr>sw_members := bt_insert target entry (sw_members s)\<rparr>
      in (transition target prev (status_to_peer_state (swim_status_of s target)), s))"

definition begin_suspicion :: "u64 \<Rightarrow> nat \<Rightarrow> swim_state \<Rightarrow> transitions \<times> swim_state" where
  "begin_suspicion tick target s =
     (let entry = bt_get_or member_new (sw_members s) target;
          prev = status_to_peer_state (sm_status entry);
          entry = (case sm_status entry of
              Alive \<Rightarrow> entry\<lparr>sm_status := Suspect tick 1\<rparr>
            | Suspect since n \<Rightarrow> entry\<lparr>sm_status := Suspect since (saturating_add n 1)\<rparr>
            | Dead \<Rightarrow> entry);
          s = s\<lparr>sw_members := bt_insert target entry (sw_members s)\<rparr>
      in (transition target prev (status_to_peer_state (swim_status_of s target)), s))"

definition on_probe :: "u64 \<Rightarrow> nat \<Rightarrow> probe_result \<Rightarrow> swim_state \<Rightarrow> transitions \<times> swim_state" where
  "on_probe tick target result s =
     (if target = sw_me s then ([], s)
      else case result of
        Acked \<Rightarrow> mark_alive_local target (s\<lparr>nack_score := saturating_sub (nack_score s) 1\<rparr>)
      | IndirectAcked \<Rightarrow> mark_alive_local target (s\<lparr>nack_score := min (nack_score s + 1) (ns_max (sw_cfg s))\<rparr>)
      | Failed \<Rightarrow> begin_suspicion tick target s)"

definition handle_update_about_self :: "swim_update \<Rightarrow> swim_state \<Rightarrow> swim_state" where
  "handle_update_about_self u s =
     (if up_status u \<noteq> Alive \<and> refutation_enabled (sw_cfg s) \<and> up_incarnation u \<ge> my_incarnation s
      then s\<lparr>my_incarnation := up_incarnation u + 1\<rparr> else s)"

definition takes :: "swim_member \<Rightarrow> swim_update \<Rightarrow> bool" where
  "takes entry u =
     (case compare_of (up_incarnation u) (sm_incarnation entry) of
        Greater \<Rightarrow> True
      | Less \<Rightarrow> False
      | Equal \<Rightarrow> status_rank (up_status u) > status_rank (sm_status entry)
          \<or> (case (up_status u, sm_status entry) of (Suspect _ _, Suspect _ _) \<Rightarrow> True | _ \<Rightarrow> False))"

definition on_update :: "u64 \<Rightarrow> swim_update \<Rightarrow> swim_state \<Rightarrow> transitions \<times> swim_state" where
  "on_update tick u s =
     (if up_member u = sw_me s then ([], handle_update_about_self u s)
      else
        let entry = bt_get_or member_new (sw_members s) (up_member u);
            prev = status_to_peer_state (sm_status entry);
            entry = (if takes entry u
              then \<lparr>sm_incarnation = up_incarnation u, sm_status = merge_suspect (sm_status entry) (up_status u) tick\<rparr>
              else entry);
            s = s\<lparr>sw_members := bt_insert (up_member u) entry (sw_members s)\<rparr>
        in (transition (up_member u) prev (status_to_peer_state (swim_status_of s (up_member u))), s))"

text \<open>One turn of the loop of \<open>tick\<close>; the keys are those of the map, so the lookup always succeeds.\<close>

definition tick_member :: "u64 \<Rightarrow> nat \<Rightarrow> transitions \<times> swim_state \<Rightarrow> transitions \<times> swim_state" where
  "tick_member tick m = (\<lambda>(ts, s).
     case map_of (sw_members s) m of
       None \<Rightarrow> (ts, s)
     | Some e \<Rightarrow>
         (case sm_status e of
            Suspect since n \<Rightarrow>
              if tick \<ge> confirm_deadline_for s since n then
                (ts @ transition m (status_to_peer_state (sm_status e)) (status_to_peer_state Dead),
                 s\<lparr>sw_members := bt_modify m (\<lambda>e. e\<lparr>sm_status := Dead\<rparr>) (sw_members s)\<rparr>)
              else (ts, s)
          | _ \<Rightarrow> (ts, s)))"

definition swim_tick :: "u64 \<Rightarrow> swim_state \<Rightarrow> transitions \<times> swim_state" where
  "swim_tick tick s = fold (tick_member tick) (map fst (sw_members s)) ([], s)"

definition swim_snapshot :: "swim_state \<Rightarrow> (nat \<times> peer_state) list" where
  "swim_snapshot s = map (\<lambda>(m, _). (m, member_state s m)) (sw_members s)"

section \<open>The handler\<close>

text \<open>The fields of \<open>Peer\<close> the handler reads and writes; \<open>now_secs\<close> is the wall clock reading.\<close>

record pool_peer =
  pp_idx :: u32
  pp_is_local :: bool
  pp_state :: peer_state
  pp_ts :: u64

definition tick_of :: "nat \<Rightarrow> nat \<Rightarrow> nat \<Rightarrow> u64" where
  "tick_of period epoch now = of_nat ((now - epoch) div max period 1)"

fun apply_one :: "u64 \<Rightarrow> u32 \<times> peer_state \<Rightarrow> pool_peer list \<Rightarrow> pool_peer list" where
  "apply_one now_secs (idx, st) [] = []"
| "apply_one now_secs (idx, st) (p # ps) =
     (if pp_idx p = idx \<and> \<not> pp_is_local p then
        (if pp_state p \<noteq> st then p\<lparr>pp_state := st, pp_ts := now_secs\<rparr> else p) # ps
      else p # apply_one now_secs (idx, st) ps)"

definition swim_apply :: "u64 \<Rightarrow> transitions \<Rightarrow> pool_peer list \<Rightarrow> pool_peer list" where
  "swim_apply now_secs ts peers = fold (apply_one now_secs) ts peers"

section \<open>The view of one member\<close>

text \<open>
  A well-formed state keeps its members in order, never lists the node itself, and has a nack score
  within its cap.  The lemmas say what each operation does to the record of one member.
\<close>

named_theorems swim_view \<open>the record of a member after each operation\<close>
named_theorems swim_frame \<open>what each operation leaves alone\<close>

definition swim_ok :: "swim_state \<Rightarrow> bool" where
  "swim_ok s \<longleftrightarrow> bt_sorted (sw_members s) \<and> map_of (sw_members s) (sw_me s) = None
     \<and> nack_score s \<le> ns_max (sw_cfg s)"

definition view :: "swim_state \<Rightarrow> nat \<Rightarrow> swim_member" where
  "view s m = bt_get_or member_new (sw_members s) m"

lemma status_view: "m \<noteq> sw_me s \<Longrightarrow> swim_status_of s m = sm_status (view s m)"
  by (simp add: swim_status_of_def view_def bt_get_or_def member_new_def split: option.split)

lemma incarnation_view: "m \<noteq> sw_me s \<Longrightarrow> swim_incarnation s m = sm_incarnation (view s m)"
  by (simp add: swim_incarnation_def view_def bt_get_or_def member_new_def split: option.split)

lemma member_state_projection: "member_state s m = status_to_peer_state (swim_status_of s m)"
  by (simp add: member_state_def split: swim_status.split)

definition alive_entry :: "swim_member \<Rightarrow> swim_member" where
  "alive_entry e = (if sm_status e = Dead then e else e\<lparr>sm_status := Alive\<rparr>)"

definition suspect_entry :: "u64 \<Rightarrow> swim_member \<Rightarrow> swim_member" where
  "suspect_entry t e = (case sm_status e of
      Alive \<Rightarrow> e\<lparr>sm_status := Suspect t 1\<rparr>
    | Suspect since n \<Rightarrow> e\<lparr>sm_status := Suspect since (saturating_add n 1)\<rparr>
    | Dead \<Rightarrow> e)"

definition update_entry :: "u64 \<Rightarrow> swim_update \<Rightarrow> swim_member \<Rightarrow> swim_member" where
  "update_entry t u e = (if takes e u
     then \<lparr>sm_incarnation = up_incarnation u, sm_status = merge_suspect (sm_status e) (up_status u) t\<rparr> else e)"

definition confirm_entry :: "u64 \<Rightarrow> swim_state \<Rightarrow> swim_member \<Rightarrow> swim_member" where
  "confirm_entry t s e = (case sm_status e of
      Suspect since n \<Rightarrow> if confirm_deadline_for s since n \<le> t then e\<lparr>sm_status := Dead\<rparr> else e
    | _ \<Rightarrow> e)"

lemma view_insert:
  "bt_sorted (sw_members s) \<Longrightarrow>
   view (s\<lparr>sw_members := bt_insert k e (sw_members s)\<rparr>) m = (if m = k then e else view s m)"
  by (simp add: view_def bt_get_or_def bt_simps)

lemma view_nack [simp]: "view (s\<lparr>nack_score := n\<rparr>) m = view s m"
  by (simp add: view_def)

lemma view_mark_alive [swim_view]:
  "bt_sorted (sw_members s) \<Longrightarrow>
   view (snd (mark_alive_local k s)) m = (if m = k then alive_entry (view s m) else view s m)"
  by (simp add: mark_alive_local_def Let_def view_insert alive_entry_def) (simp add: view_def)

lemma view_begin_suspicion [swim_view]:
  "bt_sorted (sw_members s) \<Longrightarrow>
   view (snd (begin_suspicion t k s)) m = (if m = k then suspect_entry t (view s m) else view s m)"
  by (simp add: begin_suspicion_def Let_def view_insert suspect_entry_def)
    (simp add: view_def split: swim_status.split)

lemma view_probe [swim_view]:
  "bt_sorted (sw_members s) \<Longrightarrow>
   view (snd (on_probe t k r s)) m =
     (if m = k \<and> k \<noteq> sw_me s
      then if r = Failed then suspect_entry t (view s m) else alive_entry (view s m) else view s m)"
  by (cases r) (auto simp: on_probe_def swim_view)

lemma view_update [swim_view]:
  "bt_sorted (sw_members s) \<Longrightarrow>
   view (snd (on_update t u s)) m =
     (if m = up_member u \<and> m \<noteq> sw_me s then update_entry t u (view s m) else view s m)"
  by (simp add: on_update_def Let_def view_insert update_entry_def handle_update_about_self_def)
    (simp add: view_def)

lemma update_frame [swim_frame]:
  "sw_me (snd (on_update t u s)) = sw_me s \<and> sw_cfg (snd (on_update t u s)) = sw_cfg s
   \<and> nack_score (snd (on_update t u s)) = nack_score s"
  by (simp add: on_update_def Let_def handle_update_about_self_def)

lemma probe_frame [swim_frame]:
  "sw_me (snd (on_probe t k r s)) = sw_me s \<and> sw_cfg (snd (on_probe t k r s)) = sw_cfg s"
  by (cases r) (simp_all add: on_probe_def mark_alive_local_def begin_suspicion_def Let_def)

lemma probe_nack:
  assumes "nack_score s \<le> ns_max (sw_cfg s)"
  shows "nack_score (snd (on_probe t k r s)) \<le> ns_max (sw_cfg s)"
proof -
  have "saturating_sub (nack_score s) 1 \<le> nack_score s"
    by (simp add: word_le_nat_alt unat_saturating_sub)
  with assms show ?thesis
    by (cases r) (auto simp: on_probe_def mark_alive_local_def begin_suspicion_def Let_def)
qed

text \<open>The loop of \<open>tick\<close> treats every member once, and reports no change of the projected state.\<close>

lemma deadline_members [simp]:
  "confirm_deadline_for (s\<lparr>sw_members := ms\<rparr>) = confirm_deadline_for s"
  by (simp add: confirm_deadline_for_def fun_eq_iff)

lemma tick_member_eq:
  assumes "bt_sorted (sw_members s)"
  shows "\<exists>ms. tick_member t k (ts, s) = (ts, s\<lparr>sw_members := ms\<rparr>) \<and> bt_sorted ms
    \<and> map_of ms = (map_of (sw_members s))(k := map_option (confirm_entry t s) (map_of (sw_members s) k))"
proof (cases "map_of (sw_members s) k")
  case None
  then show ?thesis using assms by (intro exI [of _ "sw_members s"]) (auto simp: tick_member_def)
next
  case (Some e)
  show ?thesis
  proof (cases "confirm_entry t s e = e")
    case True
    have "tick_member t k (ts, s) = (ts, s)"
      using True Some by (cases e; cases "sm_status e") (auto simp: tick_member_def confirm_entry_def split: if_splits)
    then show ?thesis using assms True Some by (intro exI [of _ "sw_members s"]) auto
  next
    case False
    then obtain since n where "sm_status e = Suspect since n" "confirm_deadline_for s since n \<le> t"
      by (auto simp: confirm_entry_def split: swim_status.splits if_splits)
    then show ?thesis using assms Some
      by (intro exI [of _ "bt_modify k (\<lambda>e. e\<lparr>sm_status := Dead\<rparr>) (sw_members s)"])
        (auto simp: tick_member_def confirm_entry_def transition_def bt_intros bt_simps)
  qed
qed

lemma confirm_entry_members [simp]: "confirm_entry t (s\<lparr>sw_members := ms\<rparr>) = confirm_entry t s"
  by (auto simp: confirm_entry_def fun_eq_iff split: swim_status.split)

lemma tick_fold:
  assumes "distinct ks" and "bt_sorted (sw_members s)"
  shows "\<exists>ms. fold (tick_member t) ks (ts, s) = (ts, s\<lparr>sw_members := ms\<rparr>) \<and> bt_sorted ms
    \<and> (\<forall>m. map_of ms m = (if m \<in> set ks then map_option (confirm_entry t s) (map_of (sw_members s) m)
                          else map_of (sw_members s) m))"
  using assms
proof (induction ks arbitrary: s)
  case Nil
  then show ?case by (intro exI [of _ "sw_members s"]) simp
next
  case (Cons k ks)
  obtain ms where ms: "tick_member t k (ts, s) = (ts, s\<lparr>sw_members := ms\<rparr>)" "bt_sorted ms"
    "map_of ms = (map_of (sw_members s))(k := map_option (confirm_entry t s) (map_of (sw_members s) k))"
    using tick_member_eq [OF Cons.prems(2)] by blast
  have "distinct ks" "k \<notin> set ks" using Cons.prems(1) by simp_all
  with Cons.IH [of "s\<lparr>sw_members := ms\<rparr>"] ms show ?case by fastforce
qed

lemma tick_eq:
  assumes "bt_sorted (sw_members s)"
  shows "\<exists>ms. swim_tick t s = ([], s\<lparr>sw_members := ms\<rparr>) \<and> bt_sorted ms
    \<and> (\<forall>m. map_of ms m = map_option (confirm_entry t s) (map_of (sw_members s) m))"
proof -
  have "map_of (sw_members s) m = None" if "m \<notin> fst ` set (sw_members s)" for m
    using that by (simp add: map_of_eq_None_iff)
  with tick_fold [OF bt_sorted_distinct assms, OF assms, of t "[]"] show ?thesis
    by (fastforce simp: swim_tick_def)
qed

lemma view_tick [swim_view]:
  assumes "bt_sorted (sw_members s)"
  shows "view (snd (swim_tick t s)) m = confirm_entry t s (view s m)"
proof -
  have "confirm_entry t s member_new = member_new" by (simp add: confirm_entry_def member_new_def)
  with tick_eq [OF assms, of t] show ?thesis
    by (auto simp: view_def bt_get_or_def split: option.splits)
qed

section \<open>Executions\<close>

datatype swim_event = Ev_Probe u64 nat probe_result | Ev_Update u64 swim_update | Ev_Tick u64

fun swim_step :: "swim_event \<Rightarrow> swim_state \<Rightarrow> swim_state" where
  "swim_step (Ev_Probe t k r) s = snd (on_probe t k r s)"
| "swim_step (Ev_Update t u) s = snd (on_update t u s)"
| "swim_step (Ev_Tick t) s = snd (swim_tick t s)"

abbreviation swim_run :: "swim_event list \<Rightarrow> swim_state \<Rightarrow> swim_state" where
  "swim_run es \<equiv> fold swim_step es"

fun entry_step :: "swim_state \<Rightarrow> nat \<Rightarrow> swim_event \<Rightarrow> swim_member \<Rightarrow> swim_member" where
  "entry_step s m (Ev_Probe t k r) e =
     (if k = m then if r = Failed then suspect_entry t e else alive_entry e else e)"
| "entry_step s m (Ev_Update t u) e = (if up_member u = m then update_entry t u e else e)"
| "entry_step s m (Ev_Tick t) e = confirm_entry t s e"

lemma swim_ok_sorted: "swim_ok s \<Longrightarrow> bt_sorted (sw_members s)"
  by (simp add: swim_ok_def)

lemma step_frame:
  assumes "swim_ok s" shows "sw_me (swim_step e s) = sw_me s \<and> sw_cfg (swim_step e s) = sw_cfg s"
proof (cases e)
  case (Ev_Tick t)
  with tick_eq [OF swim_ok_sorted [OF assms], of t] show ?thesis by auto
qed (simp_all add: swim_frame)

lemma step_view:
  "swim_ok s \<Longrightarrow> m \<noteq> sw_me s \<Longrightarrow> view (swim_step e s) m = entry_step s m e (view s m)"
  by (cases e) (auto simp: swim_view swim_ok_sorted)

lemma swim_ok_step:
  assumes "swim_ok s" shows "swim_ok (swim_step e s)"
proof (cases e)
  case (Ev_Probe t k r)
  have "bt_sorted (sw_members (snd (on_probe t k r s))) \<and> map_of (sw_members (snd (on_probe t k r s))) (sw_me s) = None"
    using assms by (cases r) (auto simp: swim_ok_def on_probe_def mark_alive_local_def begin_suspicion_def Let_def bt_intros bt_simps)
  then show ?thesis using assms probe_nack [of s t k r] by (simp add: Ev_Probe swim_ok_def swim_frame)
next
  case (Ev_Update t u)
  have "bt_sorted (sw_members (snd (on_update t u s))) \<and> map_of (sw_members (snd (on_update t u s))) (sw_me s) = None"
    using assms by (auto simp: swim_ok_def on_update_def handle_update_about_self_def Let_def bt_intros bt_simps)
  then show ?thesis using assms by (simp add: Ev_Update swim_ok_def swim_frame)
next
  case (Ev_Tick t)
  with assms tick_eq [OF swim_ok_sorted [OF assms], of t] show ?thesis by (auto simp: swim_ok_def)
qed

lemma swim_ok_run: "swim_ok s \<Longrightarrow> swim_ok (swim_run es s)"
  by (induction es arbitrary: s) (simp_all add: swim_ok_step)

lemma run_frame: "swim_ok s \<Longrightarrow> sw_me (swim_run es s) = sw_me s \<and> sw_cfg (swim_run es s) = sw_cfg s"
  by (induction es arbitrary: s) (simp_all add: swim_ok_step step_frame)

lemma swim_new_ok:
  assumes "swim_new me n cfg = Some s"
  shows "swim_ok s \<and> sw_me s = me \<and> sw_cfg s = cfg \<and> (\<forall>m. view s m = member_new)"
proof -
  let ?f = "\<lambda>i m. if i \<noteq> me then bt_insert i member_new m else m"
  have "bt_sorted (fold ?f is ms) \<and> map_of (fold ?f is ms) me = None
    \<and> (\<forall>k v. map_of (fold ?f is ms) k = Some v \<longrightarrow> v = member_new)"
    if "bt_sorted ms" "map_of ms me = None" "\<forall>k v. map_of ms k = Some v \<longrightarrow> v = member_new" for "is" ms
    using that
  proof (induction "is" arbitrary: ms)
    case (Cons i "is")
    have "\<forall>k v. map_of (?f i ms) k = Some v \<longrightarrow> v = member_new"
      using Cons.prems by (auto simp: bt_simps)
    moreover have "bt_sorted (?f i ms)" "map_of (?f i ms) me = None"
      using Cons.prems by (auto simp: bt_intros bt_simps)
    ultimately show ?case using Cons.IH [of "?f i ms"] by simp
  qed simp
  from this [of "[]" "[0..<n]"] assms show ?thesis
    by (auto simp: swim_new_def swim_ok_def view_def bt_get_or_def split: if_splits option.splits)
qed

section \<open>Bounded waiting\<close>

definition max_wait :: "swim_config \<Rightarrow> nat" where
  "max_wait cfg = max 1 (unat (suspicion_periods_base cfg) * (1 + unat (ns_max cfg) * unat (ns_dilation cfg)))"

lemma unat_shrunk: "unat (max (drop_bit j w) 1) \<le> max 1 (unat w)" for w :: u64
proof -
  have "unat (drop_bit j w) \<le> unat w" by (simp only: unat_drop_bit_eq) (simp add: drop_bit_eq_div)
  then show ?thesis by (auto simp: max_def)
qed

lemma deadline_bound:
  assumes "nack_score s \<le> ns_max (sw_cfg s)" and "max_wait (sw_cfg s) < 2 ^ 64"
  shows "unat (confirm_deadline_for s since n) \<le> unat since + max_wait (sw_cfg s)"
proof -
  let ?c = "sw_cfg s"
  let ?b = "unat (suspicion_periods_base ?c)" and ?d = "unat (ns_dilation ?c)"
  let ?k = "1 + ucast (nack_score s) * ns_dilation ?c :: u64"
  have ns: "unat (nack_score s) * ?d \<le> unat (ns_max ?c) * ?d" using assms(1) by (simp add: word_le_nat_alt)
  have "unat ?k \<le> 1 + unat (nack_score s) * ?d"
  proof -
    have "unat (ucast (nack_score s) :: u64) \<le> unat (nack_score s)" by (simp add: unsigned_ucast_eq)
    then have "unat (ucast (nack_score s) * ns_dilation ?c :: u64) \<le> unat (nack_score s) * ?d"
      by (simp only: unat_word_ariths) (meson le_trans mod_less_eq_dividend mult_le_mono1)
    moreover have "unat ?k \<le> 1 + unat (ucast (nack_score s) * ns_dilation ?c :: u64)"
      using mod_less_eq_dividend by (subst unat_word_ariths) simp
    ultimately show ?thesis by simp
  qed
  with ns have k: "?b * unat ?k \<le> max_wait ?c" unfolding max_wait_def
    by (meson add_left_mono le_trans max.cobounded2 mult_le_mono2)
  then have "unat (saturating_mul (suspicion_periods_base ?c) ?k) \<le> max_wait ?c"
    using assms(2) by (simp add: saturating_mul_def unat_word_ariths)
  moreover have "1 \<le> max_wait ?c" by (simp add: max_wait_def)
  ultimately have "unat (max (drop_bit j (saturating_mul (suspicion_periods_base ?c) ?k)) 1) \<le> max_wait ?c" for j
    using unat_shrunk [of j "saturating_mul (suspicion_periods_base ?c) ?k"] by linarith
  then show ?thesis
    unfolding confirm_deadline_for_def Let_def unat_saturating_add by (intro min.coboundedI1 add_left_mono)
qed

text \<open>
  Events that bring no sign of life of \<open>m\<close>: no acknowledged probe, and no update of an incarnation
  above the one known at the start.
\<close>

fun quiet :: "nat \<Rightarrow> u64 \<Rightarrow> swim_event \<Rightarrow> bool" where
  "quiet m i (Ev_Probe t k r) = (k = m \<longrightarrow> r = Failed)"
| "quiet m i (Ev_Update t u) = (up_member u = m \<longrightarrow> up_incarnation u \<le> i)"
| "quiet m i (Ev_Tick t) = True"

definition doomed :: "u64 \<Rightarrow> u64 \<Rightarrow> swim_member \<Rightarrow> bool" where
  "doomed i sn e \<longleftrightarrow> sm_incarnation e = i \<and> (sm_status e = Dead \<or> (\<exists>n. sm_status e = Suspect sn n))"

lemma takes_le:
  "takes e u \<Longrightarrow> sm_incarnation e \<le> up_incarnation u"
  by (auto simp: takes_def compare_of_def split: if_splits)

lemma update_quiet:
  assumes "up_incarnation u \<le> sm_incarnation e"
  shows "sm_incarnation (update_entry t u e) = sm_incarnation e
    \<and> (sm_status e = Dead \<longrightarrow> update_entry t u e = e)
    \<and> (sm_status e = Suspect sn n \<longrightarrow>
         sm_status (update_entry t u e) = Dead \<or> (\<exists>n'. sm_status (update_entry t u e) = Suspect sn n'))"
proof (cases "takes e u")
  case True
  with assms takes_le [OF True] have "up_incarnation u = sm_incarnation e" by simp
  with True show ?thesis
    by (cases "up_status u"; cases "sm_status e") (auto simp: update_entry_def takes_def compare_of_def)
next
  case False
  then show ?thesis by (simp add: update_entry_def)
qed

lemma doomed_step: "quiet m i ev \<Longrightarrow> doomed i sn e \<Longrightarrow> doomed i sn (entry_step s m ev e)"
proof (cases ev)
  case (Ev_Update t u)
  assume "quiet m i ev" "doomed i sn e"
  with Ev_Update update_quiet [of u e t sn] show ?thesis by (auto simp: doomed_def)
next
  case (Ev_Tick t)
  assume "doomed i sn e"
  then show ?thesis
    by (cases "\<exists>n. sm_status e = Suspect sn n \<and> confirm_deadline_for s sn n \<le> t")
      (auto simp: Ev_Tick doomed_def confirm_entry_def)
qed (auto simp: doomed_def suspect_entry_def)

lemma dead_step:
  "quiet m (sm_incarnation e) ev \<Longrightarrow> sm_status e = Dead \<Longrightarrow> entry_step s m ev e = e"
  using update_quiet by (cases ev) (auto simp: suspect_entry_def confirm_entry_def)

lemma doomed_run:
  "swim_ok s \<Longrightarrow> m \<noteq> sw_me s \<Longrightarrow> list_all (quiet m i) es \<Longrightarrow> doomed i sn (view s m) \<Longrightarrow>
   doomed i sn (view (swim_run es s) m)"
  by (induction es arbitrary: s) (simp_all add: swim_ok_step step_frame step_view doomed_step)

lemma dead_run:
  "swim_ok s \<Longrightarrow> m \<noteq> sw_me s \<Longrightarrow> list_all (quiet m (sm_incarnation (view s m))) es \<Longrightarrow>
   sm_status (view s m) = Dead \<Longrightarrow> sm_status (view (swim_run es s) m) = Dead"
  by (induction es arbitrary: s) (simp_all add: swim_ok_step step_frame step_view dead_step)

section \<open>Properties\<close>

text \<open>
  C5. An unrefuted suspicion is confirmed: once a member is suspected, and as long as no probe of it is
  acknowledged and no update of a newer incarnation of it arrives, the first timer tick that lies the
  base period, dilated by the greatest nack score, after the start of the suspicion finds or makes
  the member dead, whatever other probes, updates and ticks happen in between; and it stays dead and
  out of routing.
\<close>

theorem swim_unrefuted_confirmed:
  assumes "swim_ok s" and "m \<noteq> sw_me s" and "swim_status_of s m = Suspect sn n"
    and "list_all (quiet m (swim_incarnation s m)) (es @ es')"
    and "max_wait (sw_cfg s) < 2 ^ 64" and "unat sn + max_wait (sw_cfg s) \<le> unat t"
  shows "swim_status_of (swim_run (es @ [Ev_Tick t] @ es') s) m = Dead
    \<and> member_state (swim_run (es @ [Ev_Tick t] @ es') s) m = Down"
proof -
  let ?i = "sm_incarnation (view s m)"
  define s1 where "s1 = swim_run es s"
  have q: "list_all (quiet m ?i) es" "list_all (quiet m ?i) es'"
    using assms(2,4) by (simp_all add: incarnation_view)
  have s1: "swim_ok s1" "m \<noteq> sw_me s1" "sw_cfg s1 = sw_cfg s"
    using assms(1,2) by (simp_all add: s1_def swim_ok_run run_frame)
  have d: "doomed ?i sn (view s1 m)" unfolding s1_def
    using assms(1-3) q(1) by (intro doomed_run) (simp_all add: doomed_def status_view)
  define s2 where "s2 = swim_step (Ev_Tick t) s1"
  have s2: "swim_ok s2" "m \<noteq> sw_me s2" using s1 by (simp_all add: s2_def swim_ok_step step_frame del: swim_step.simps)
  have "confirm_deadline_for s1 sn k \<le> t" for k
    using deadline_bound [of s1 sn k] s1 assms(5,6) by (simp add: swim_ok_def word_le_nat_alt)
  then have "view s2 m = (view s1 m)\<lparr>sm_status := Dead\<rparr>"
    using d s1 step_view [of s1 m "Ev_Tick t"] by (auto simp: s2_def doomed_def confirm_entry_def)
  with d q(2) dead_run [OF s2, of es'] have "sm_status (view (swim_run es' s2) m) = Dead"
    by (simp add: doomed_def)
  moreover have "swim_run (es @ [Ev_Tick t] @ es') s = swim_run es' s2" by (simp add: s1_def s2_def)
  moreover have "m \<noteq> sw_me (swim_run es' s2)" using s2 by (simp add: run_frame)
  ultimately show ?thesis by (simp add: member_state_projection status_view)
qed

definition swim_sample :: swim_state where
  "swim_sample = \<lparr>sw_me = 0, my_incarnation = 0,
     sw_members = [(1, \<lparr>sm_incarnation = 0, sm_status = Suspect 1 1\<rparr>), (2, member_new)],
     nack_score = 0, sw_cfg = swim_config_default\<rparr>"

lemma swim_sample_ok: "swim_ok swim_sample" "max_wait (sw_cfg swim_sample) = 36"
  by (simp_all add: swim_sample_def swim_ok_def bt_sorted_def swim_config_default_def max_wait_def)

theorem swim_unrefuted_confirmed_witness:
  "swim_ok swim_sample \<and> swim_status_of swim_sample 1 = Suspect 1 1
   \<and> swim_status_of (swim_run ([Ev_Probe 2 2 IndirectAcked, Ev_Probe 3 1 Failed] @ [Ev_Tick 40] @ []) swim_sample) 1 = Dead"
proof -
  have st: "swim_status_of swim_sample 1 = Suspect 1 1" by (simp add: swim_sample_def swim_status_of_def)
  have "(1 :: nat) \<noteq> sw_me swim_sample" by (simp add: swim_sample_def)
  from swim_unrefuted_confirmed [OF swim_sample_ok(1) this st, of "[Ev_Probe 2 2 IndirectAcked, Ev_Probe 3 1 Failed]" "[]" 40]
  show ?thesis using swim_sample_ok st by simp
qed

lemma less_next:
  fixes x :: u64
  assumes "x \<noteq> - 1" shows "x < x + 1"
proof -
  have "unat (- 1 :: u64) = 2 ^ 64 - 1" by (simp add: unsigned_minus_1_eq_mask mask_eq_exp_minus_1)
  moreover have "unat x \<noteq> unat (- 1 :: u64)" using assms by (metis unsigned_word_eqI)
  moreover have "unat x < 2 ^ 64" using unsigned_less [where ?'a = nat and w = x] by simp
  ultimately have "unat x + unat (1 :: u64) < 2 ^ LENGTH(64)" by simp
  then show ?thesis by (simp add: word_less_nat_alt unat_add_exact)
qed

text \<open>
  C6. A refutation overrides the suspicion it answers: when a node with refutation enabled learns that
  it is suspected or declared dead at some incarnation (below the greatest 64-bit value), the
  incarnation it then announces is higher; an observer that knows no newer incarnation than the
  accusation takes the node back as alive and routable on receiving that announcement, whatever it
  believed before; and no further copy of the accusation, or of any older one, convicts the node there.
\<close>

theorem swim_refutation_wins:
  assumes "refutation_enabled (sw_cfg s)" and "up_member u = sw_me s" and "up_status u \<noteq> Alive"
    and "up_incarnation u \<noteq> - 1"
    and "swim_ok obs" and "sw_me obs \<noteq> sw_me s" and "swim_incarnation obs (sw_me s) \<le> up_incarnation u"
  shows "let s' = snd (on_update t u s);
      alive = \<lparr>up_member = sw_me s, up_incarnation = my_incarnation s', up_status = Alive\<rparr>;
      obs' = snd (on_update t' alive obs)
    in up_incarnation u < my_incarnation s'
       \<and> swim_status_of obs' (sw_me s) = Alive \<and> member_state obs' (sw_me s) = Normal
       \<and> (\<forall>w t''. up_member w = sw_me s \<and> up_incarnation w \<le> up_incarnation u \<longrightarrow>
            swim_status_of (snd (on_update t'' w obs')) (sw_me s) = Alive)"
proof -
  let ?s = "snd (on_update t u s)" and ?m = "sw_me s"
  let ?alive = "\<lparr>up_member = ?m, up_incarnation = my_incarnation ?s, up_status = Alive\<rparr>"
  let ?o = "snd (on_update t' ?alive obs)"
  have "up_incarnation u < up_incarnation u + 1"
    using assms(4) by (rule less_next)
  then have inc: "up_incarnation u < my_incarnation ?s"
    using assms(1-3) by (auto simp: on_update_def handle_update_about_self_def)
  have "sm_incarnation (view obs ?m) < my_incarnation ?s"
    using inc assms(6,7) incarnation_view [of ?m obs] by simp
  then have v: "view ?o ?m = \<lparr>sm_incarnation = my_incarnation ?s, sm_status = Alive\<rparr>"
    using assms(5,6) by (simp add: view_update swim_ok_sorted update_entry_def takes_def compare_of_def)
  have o: "swim_ok ?o" "sw_me ?o \<noteq> ?m"
    using swim_ok_step [OF assms(5), of "Ev_Update t' ?alive"] assms(6) by (simp_all add: swim_frame)
  have "view (snd (on_update t'' w ?o)) ?m = view ?o ?m"
    if "up_member w = ?m" "up_incarnation w \<le> up_incarnation u" for w t''
  proof -
    have "up_incarnation w < sm_incarnation (view ?o ?m)" using that(2) inc v by simp
    then have "\<not> takes (view ?o ?m) w" using takes_le [of "view ?o ?m" w] by auto
    with o that(1) show ?thesis by (simp add: view_update swim_ok_sorted update_entry_def)
  qed
  then have "\<forall>w t''. up_member w = ?m \<and> up_incarnation w \<le> up_incarnation u \<longrightarrow>
      swim_status_of (snd (on_update t'' w ?o)) ?m = Alive"
    using o(2) v by (simp add: status_view swim_frame)
  then show ?thesis
    unfolding Let_def using inc v o(2) by (simp add: member_state_projection status_view)
qed

theorem swim_refutation_wins_witness:
  "\<exists>s'. s' = snd (on_update 2 \<lparr>up_member = 1, up_incarnation = 0, up_status = Dead\<rparr> (swim_sample\<lparr>sw_me := 1\<rparr>))
     \<and> swim_status_of swim_sample 1 = Suspect 1 1
     \<and> swim_status_of (snd (on_update 3 \<lparr>up_member = 1, up_incarnation = my_incarnation s', up_status = Alive\<rparr> swim_sample)) 1 = Alive"
proof -
  let ?s = "swim_sample\<lparr>sw_me := 1\<rparr>" and ?u = "\<lparr>up_member = 1, up_incarnation = 0, up_status = Dead\<rparr>"
  have "refutation_enabled (sw_cfg ?s)" "up_member ?u = sw_me ?s" "up_status ?u \<noteq> Alive" "up_incarnation ?u \<noteq> - 1"
    "sw_me swim_sample \<noteq> sw_me ?s" "swim_incarnation swim_sample (sw_me ?s) \<le> up_incarnation ?u"
    by (simp_all add: swim_sample_def swim_config_default_def swim_incarnation_def)
  note h = this
  have "swim_status_of swim_sample 1 = Suspect 1 1" by (simp add: swim_sample_def swim_status_of_def)
  with swim_refutation_wins [OF h(1-4) swim_sample_ok(1) h(5,6), of 2 3] show ?thesis by (simp add: Let_def)
qed

text \<open>Events that accuse \<open>m\<close> of nothing.\<close>

fun harmless :: "nat \<Rightarrow> swim_event \<Rightarrow> bool" where
  "harmless m (Ev_Probe t k r) = (k = m \<longrightarrow> r \<noteq> Failed)"
| "harmless m (Ev_Update t u) = (up_member u = m \<longrightarrow> up_status u = Alive)"
| "harmless m (Ev_Tick t) = True"

lemma entry_step_mono:
  "sm_incarnation e \<le> sm_incarnation (entry_step s m ev e)
   \<and> (sm_status e = Dead \<longrightarrow> sm_status (entry_step s m ev e) = Dead \<or> sm_incarnation e < sm_incarnation (entry_step s m ev e))"
proof (cases ev)
  case (Ev_Update t u)
  have "sm_incarnation e \<le> sm_incarnation (update_entry t u e)"
    using takes_le [of e u] by (simp add: update_entry_def)
  moreover have "sm_status (update_entry t u e) = Dead"
    if "sm_status e = Dead" "\<not> sm_incarnation e < sm_incarnation (update_entry t u e)"
  proof (cases "takes e u")
    case True
    with that takes_le [OF True] have "up_incarnation u \<le> sm_incarnation e" by (simp add: update_entry_def)
    from update_quiet [OF this, of t] that(1) show ?thesis by simp
  qed (simp add: update_entry_def that)
  ultimately show ?thesis by (auto simp: Ev_Update)
qed (auto simp: suspect_entry_def alive_entry_def confirm_entry_def split: swim_status.split)

lemma entry_step_harmless:
  "harmless m ev \<Longrightarrow> sm_status e = Alive \<Longrightarrow> sm_status (entry_step s m ev e) = Alive"
  by (cases ev) (auto simp: alive_entry_def update_entry_def confirm_entry_def)

lemma run_mono:
  assumes "swim_ok s" and "m \<noteq> sw_me s"
  shows "sm_incarnation (view s m) \<le> sm_incarnation (view (swim_run es s) m)
    \<and> (sm_status (view s m) = Dead \<longrightarrow>
         sm_status (view (swim_run es s) m) = Dead \<or> sm_incarnation (view s m) < sm_incarnation (view (swim_run es s) m))"
  using assms
proof (induction es arbitrary: s)
  case (Cons e es)
  have "swim_ok (swim_step e s)" "m \<noteq> sw_me (swim_step e s)" using Cons.prems by (simp_all add: swim_ok_step step_frame)
  from Cons.IH [OF this] entry_step_mono [of "view s m" s m e] step_view [OF Cons.prems, of e]
  show ?case by fastforce
qed simp

lemma run_harmless:
  "swim_ok s \<Longrightarrow> m \<noteq> sw_me s \<Longrightarrow> list_all (harmless m) es \<Longrightarrow> sm_status (view s m) = Alive \<Longrightarrow>
   sm_status (view (swim_run es s) m) = Alive"
  by (induction es arbitrary: s) (simp_all add: swim_ok_step step_frame step_view entry_step_harmless)

text \<open>
  C11. In every execution of a fresh node, of any length and order of probes, updates and ticks: the
  incarnation known of another member never decreases; a member once dead is not believed otherwise
  again without a higher incarnation; and a member that no probe of this node failed to reach and no
  update accused is alive and routable.
\<close>

theorem swim_run_safe:
  assumes "swim_new me n cfg = Some s" and "m \<noteq> me"
  shows "swim_incarnation (swim_run es s) m \<le> swim_incarnation (swim_run (es @ es') s) m
    \<and> (swim_status_of (swim_run es s) m = Dead \<longrightarrow>
         swim_status_of (swim_run (es @ es') s) m = Dead
         \<or> swim_incarnation (swim_run es s) m < swim_incarnation (swim_run (es @ es') s) m)
    \<and> (list_all (harmless m) es \<longrightarrow> member_state (swim_run es s) m = Normal)"
proof -
  note new = swim_new_ok [OF assms(1)]
  have s: "swim_ok s" "m \<noteq> sw_me s" using new assms(2) by simp_all
  define s1 where "s1 = swim_run es s"
  have s1: "swim_ok s1" "m \<noteq> sw_me s1" using s by (simp_all add: s1_def swim_ok_run run_frame)
  have s2: "m \<noteq> sw_me (swim_run es' s1)" using s1 by (simp add: run_frame)
  have "swim_run (es @ es') s = swim_run es' s1" by (simp add: s1_def)
  moreover have "list_all (harmless m) es \<Longrightarrow> sm_status (view s1 m) = Alive"
    using run_harmless [OF s] new by (simp add: s1_def member_new_def)
  ultimately show ?thesis
    using run_mono [OF s1, of es'] s1(2) s2
    by (simp add: incarnation_view status_view member_state_projection flip: s1_def)
qed

theorem swim_run_safe_witness:
  "\<exists>s. swim_new 0 3 swim_config_default = Some s
     \<and> member_state (swim_run [Ev_Probe 1 2 Failed, Ev_Probe 2 1 Acked, Ev_Tick 9] s) 1 = Normal"
proof -
  obtain s where s: "swim_new 0 3 swim_config_default = Some s" by (simp add: swim_new_def)
  from swim_run_safe [OF s, of 1 "[Ev_Probe 1 2 Failed, Ev_Probe 2 1 Acked, Ev_Tick 9]"] s show ?thesis by simp
qed

section \<open>Corner cases\<close>

text \<open>
  A second copy of one accusation counts as a further suspector; an accusation at a newer incarnation
  keeps the start of the old suspicion; and an accusation at the greatest incarnation wraps the
  node's own incarnation to zero.
\<close>

lemma swim_repeated_copy_counts:
  "update_entry t u (update_entry t u \<lparr>sm_incarnation = 0, sm_status = Alive\<rparr>) = \<lparr>sm_incarnation = 0, sm_status = Suspect t 2\<rparr>"
  if "u = \<lparr>up_member = 1, up_incarnation = 0, up_status = Suspect 0 1\<rparr>"
  by (simp add: that update_entry_def takes_def compare_of_def saturating_add_def)

lemma swim_newer_suspicion_keeps_start:
  "update_entry 90 \<lparr>up_member = 1, up_incarnation = 2, up_status = Suspect 90 1\<rparr>
     \<lparr>sm_incarnation = 1, sm_status = Suspect 5 1\<rparr> = \<lparr>sm_incarnation = 2, sm_status = Suspect 5 2\<rparr>"
  by (simp add: update_entry_def takes_def compare_of_def saturating_add_def)

lemma swim_incarnation_wraps:
  "refutation_enabled (sw_cfg s) \<Longrightarrow>
   my_incarnation (snd (on_update t \<lparr>up_member = sw_me s, up_incarnation = - 1, up_status = Dead\<rparr> s)) = 0"
  by (simp add: on_update_def handle_update_about_self_def)

end
