(* ===== verification/Throttle.thy ===== *)
theory Throttle
  imports Prelude
begin

text \<open>
  The token bucket of \<open>crates/throttle-core/src/lib.rs\<close>.  Instants and durations are nanosecond counts
  and 64- and 128-bit integers are naturals with their saturation written out.  Each clock reading is
  an argument.  A compare-and-exchange loop takes effect at its successful exchange, so the bucket's
  atomic actions are a refill (serialised by its mutex) and a consumption, and a concurrent execution
  is an interleaving of them.  The lemmas bound what any interleaving can grant, and show that a
  blocked acquisition returns.
\<close>

definition u64_max :: nat where "u64_max = 2 ^ 64 - 1"
definition u128_max :: nat where "u128_max = 2 ^ 128 - 1"

record throttle =
  th_capacity :: nat
  refill_per_sec :: nat
  th_available :: nat
  last_refill :: nat

datatype throttle_error =
    RequestExceedsCapacity nat nat
  | ZeroRefillExhausted nat nat

definition with_clock :: "nat \<Rightarrow> nat \<Rightarrow> nat \<Rightarrow> throttle" where
  "with_clock capacity rate now =
     \<lparr>th_capacity = capacity, refill_per_sec = rate, th_available = capacity, last_refill = now\<rparr>"

text \<open>\<open>u64::try_from(x).unwrap_or(u64::MAX)\<close> is \<open>min x u64_max\<close>; \<open>duration_since\<close> stops at zero.\<close>

definition new_tokens_for :: "nat \<Rightarrow> nat \<Rightarrow> nat" where
  "new_tokens_for elapsed rate = min (elapsed * rate) u128_max div 1000000000"

definition credited_nanos :: "nat \<Rightarrow> nat \<Rightarrow> nat" where
  "credited_nanos new rate = (new * 1000000000) div rate"

definition refill :: "nat \<Rightarrow> throttle \<Rightarrow> throttle" where
  "refill now t =
     (if refill_per_sec t = 0 then t
      else
        let rate = refill_per_sec t;
            new_u128 = new_tokens_for (now - last_refill t) rate
        in if new_u128 = 0 then t
           else
             let new = min new_u128 u64_max
             in t\<lparr>last_refill := last_refill t + min (credited_nanos new rate) u64_max,
                  th_available := min (min (th_available t + new) u64_max) (th_capacity t)\<rparr>)"

definition consume :: "nat \<Rightarrow> throttle \<Rightarrow> bool \<times> throttle" where
  "consume n t =
     (if th_available t < n then (False, t) else (True, t\<lparr>th_available := th_available t - n\<rparr>))"

definition try_acquire :: "nat \<Rightarrow> nat \<Rightarrow> throttle \<Rightarrow> bool \<times> throttle" where
  "try_acquire now n t =
     (if n > th_capacity t then (False, t)
      else
        let t = refill now t
        in if n = 0 then (True, t) else consume n t)"

definition wait_nanos :: "nat \<Rightarrow> throttle \<Rightarrow> nat" where
  "wait_nanos n t =
     (let needed = max (n - th_available t) 1;
          want = min (needed * 1000000000) u128_max div refill_per_sec t
      in max 1000000 (min want 1000000000))"

text \<open>
  The wait loop.  \<open>wake now d\<close> is the clock reading after sleeping \<open>d\<close> from \<open>now\<close>; \<open>None\<close> would be a
  loop that never ends.
\<close>

partial_function (option) acquire_loop ::
  "(nat \<Rightarrow> nat \<Rightarrow> nat) \<Rightarrow> nat \<Rightarrow> nat \<Rightarrow> throttle \<Rightarrow> (nat \<times> throttle) option"
where
  "acquire_loop wake n now t =
     (let now = wake now (wait_nanos n t) in
      case try_acquire now n t of (ok, t) \<Rightarrow> if ok then Some (now, t) else acquire_loop wake n now t)"

definition acquire_blocking ::
  "(nat \<Rightarrow> nat \<Rightarrow> nat) \<Rightarrow> nat \<Rightarrow> nat \<Rightarrow> throttle \<Rightarrow> (throttle_error + nat \<times> throttle) option"
where
  "acquire_blocking wake n now t =
     (if n > th_capacity t then Some (Inl (RequestExceedsCapacity n (th_capacity t)))
      else if n = 0 then Some (Inr (now, t))
      else case try_acquire now n t of (ok, t) \<Rightarrow>
        if ok then Some (Inr (now, t))
        else if refill_per_sec t = 0 then Some (Inl (ZeroRefillExhausted n (th_available t)))
        else map_option Inr (acquire_loop wake n now t))"

section \<open>One refill\<close>

definition throttle_ok :: "throttle \<Rightarrow> bool" where
  "throttle_ok t \<longleftrightarrow> th_available t \<le> th_capacity t \<and> th_capacity t \<le> u64_max"

lemma refill_frame [simp]:
  "th_capacity (refill now t) = th_capacity t" "refill_per_sec (refill now t) = refill_per_sec t"
  by (simp_all add: refill_def Let_def)

lemma refill_ok: "throttle_ok t \<Longrightarrow> throttle_ok (refill now t)"
  by (auto simp: throttle_ok_def refill_def Let_def)

lemma refill_grows: "throttle_ok t \<Longrightarrow> th_available t \<le> th_available (refill now t)"
  by (auto simp: throttle_ok_def refill_def Let_def)

lemma try_acquire_frame [simp]:
  "th_capacity (snd (try_acquire now n t)) = th_capacity t"
  "refill_per_sec (snd (try_acquire now n t)) = refill_per_sec t"
  by (simp_all add: try_acquire_def consume_def Let_def)

text \<open>What a refill credits is paid for by the time it advances, up to the rounding of one nanosecond.\<close>

definition drift :: "nat \<Rightarrow> nat" where
  "drift rate = (if rate dvd 1000000000 then 0 else 1)"

lemma credited_bounds:
  assumes "rate > 0"
  shows "new * 1000000000 \<le> rate * (credited_nanos new rate + drift rate)"
    and "new * 1000000000 \<le> e * rate \<Longrightarrow> credited_nanos new rate \<le> e"
proof -
  let ?x = "new * 1000000000"
  show "?x \<le> rate * (credited_nanos new rate + drift rate)"
  proof (cases "rate dvd 1000000000")
    case True
    then have "rate * (?x div rate) = ?x" by (simp add: dvd_mult)
    then show ?thesis by (simp add: credited_nanos_def drift_def True)
  next
    case False
    have "?x = rate * (?x div rate) + ?x mod rate" by simp
    moreover have "?x mod rate < rate" using assms by simp
    ultimately have "?x \<le> rate * (?x div rate) + rate" by linarith
    then show ?thesis by (simp add: credited_nanos_def drift_def False algebra_simps)
  qed
  show "credited_nanos new rate \<le> e" if "?x \<le> e * rate"
  proof -
    have "?x div rate \<le> e * rate div rate" using that by (rule div_le_mono)
    then show ?thesis using assms by (simp add: credited_nanos_def)
  qed
qed

lemma refill_paid:
  assumes "throttle_ok t" and "last_refill t \<le> now" and "now - last_refill t < 2 ^ 64"
  shows "last_refill t \<le> last_refill (refill now t) \<and> last_refill (refill now t) \<le> now
    \<and> (th_available (refill now t) - th_available t) * 1000000000
        \<le> refill_per_sec t * (last_refill (refill now t) - last_refill t + drift (refill_per_sec t))"
proof (cases "refill now t = t")
  case True
  then show ?thesis using assms by simp
next
  case False
  let ?e = "now - last_refill t" and ?r = "refill_per_sec t"
  define new where "new = min (new_tokens_for ?e ?r) u64_max"
  define c where "c = credited_nanos new ?r"
  have r: "?r > 0" and t': "refill now t = t\<lparr>last_refill := last_refill t + min c u64_max,
      th_available := min (min (th_available t + new) u64_max) (th_capacity t)\<rparr>"
    using False by (auto simp: refill_def Let_def new_def c_def split: if_splits)
  have "new * 1000000000 \<le> min (?e * ?r) u128_max"
    unfolding new_def new_tokens_for_def
    by (meson div_times_less_eq_dividend le_trans min.cobounded1 mult_le_mono1)
  then have "new * 1000000000 \<le> ?e * ?r" by simp
  then have c: "c \<le> ?e" using credited_bounds(2) [OF r] by (simp add: c_def)
  with assms(3) have m: "min c u64_max = c" by (simp add: u64_max_def)
  have "(th_available (refill now t) - th_available t) * 1000000000 \<le> new * 1000000000"
    by (simp add: t')
  also have "\<dots> \<le> ?r * (c + drift ?r)" unfolding c_def by (rule credited_bounds(1) [OF r])
  finally show ?thesis using c m assms(2) by (simp add: t')
qed

section \<open>Interleavings\<close>

text \<open>
  The atomic actions of all threads, with the tokens granted so far.  A thread reads the clock before
  it takes the mutex, so the readings of successive refills need not be in order.
\<close>

datatype throttle_action = Refill nat | Consume nat

fun throttle_act :: "throttle_action \<Rightarrow> throttle \<times> nat \<Rightarrow> throttle \<times> nat" where
  "throttle_act (Refill now) (t, g) = (refill now t, g)"
| "throttle_act (Consume n) (t, g) = (case consume n t of (ok, t') \<Rightarrow> (t', if ok then g + n else g))"

fun reads_until :: "nat \<Rightarrow> throttle_action \<Rightarrow> bool" where
  "reads_until T (Refill now) = (now \<le> T)"
| "reads_until T (Consume n) = True"

fun refill_count :: "throttle_action list \<Rightarrow> nat" where
  "refill_count [] = 0"
| "refill_count (Refill now # as) = Suc (refill_count as)"
| "refill_count (Consume n # as) = refill_count as"

definition paid :: "nat \<Rightarrow> nat \<Rightarrow> nat \<Rightarrow> nat \<Rightarrow> throttle \<times> nat \<Rightarrow> bool" where
  "paid C rate t0 k = (\<lambda>(t, g). throttle_ok t \<and> th_capacity t = C \<and> refill_per_sec t = rate \<and> t0 \<le> last_refill t
     \<and> (g + th_available t) * 1000000000 \<le> C * 1000000000 + rate * (last_refill t - t0 + drift rate * k))"

lemma refill_stale: "now \<le> last_refill t \<Longrightarrow> refill now t = t"
  by (simp add: refill_def new_tokens_for_def Let_def)

lemma paid_refill:
  assumes "paid C rate t0 k (t, g)" and "last_refill t \<le> T" and "now \<le> T" and "T - t0 < 2 ^ 64"
  shows "paid C rate t0 (Suc k) (refill now t, g) \<and> last_refill (refill now t) \<le> T"
proof (cases "now \<le> last_refill t")
  case True
  have "rate * (drift rate * k) \<le> rate * (drift rate * Suc k)" by simp
  then have "paid C rate t0 (Suc k) (t, g)" using assms(1) by (auto simp: paid_def algebra_simps)
  with True assms(2) show ?thesis by (simp add: refill_stale)
next
  case False
  let ?t = "refill now t"
  have ok: "throttle_ok t" "t0 \<le> last_refill t" "refill_per_sec t = rate" using assms(1) by (simp_all add: paid_def)
  have le: "last_refill t \<le> now" and lt: "now - last_refill t < 2 ^ 64" using False assms(3,4) ok(2) by linarith+
  have p: "last_refill t \<le> last_refill ?t" "last_refill ?t \<le> now"
    "(th_available ?t - th_available t) * 1000000000 \<le> rate * (last_refill ?t - last_refill t + drift rate)"
    using refill_paid [OF ok(1) le lt, unfolded ok(3)] by blast+
  have "(g + th_available ?t) * 1000000000
      = (g + th_available t) * 1000000000 + (th_available ?t - th_available t) * 1000000000"
    using refill_grows [OF ok(1), of now] by (simp add: algebra_simps diff_mult_distrib)
  also have "\<dots> \<le> C * 1000000000 + rate * (last_refill t - t0 + drift rate * k)
      + rate * (last_refill ?t - last_refill t + drift rate)"
    using assms(1) p(3) unfolding paid_def prod.case by (intro add_mono) blast+
  also have "\<dots> = C * 1000000000 + rate * (last_refill ?t - t0 + drift rate * Suc k)"
  proof -
    have "last_refill t - t0 + (last_refill ?t - last_refill t) = last_refill ?t - t0" using ok(2) p(1) by simp
    then have "rate * (last_refill t - t0) + rate * (last_refill ?t - last_refill t) = rate * (last_refill ?t - t0)"
      by (metis distrib_left)
    then show ?thesis by (simp add: distrib_left)
  qed
  finally show ?thesis using assms(1,3) p ok by (simp add: paid_def refill_ok)
qed

lemma paid_consume: "paid C rate t0 k (t, g) \<Longrightarrow> paid C rate t0 k (throttle_act (Consume n) (t, g))"
  by (auto simp: paid_def consume_def throttle_ok_def)

lemma paid_run:
  assumes "paid C rate t0 k (t, g)" and "last_refill t \<le> T" and "list_all (reads_until T) as" and "T - t0 < 2 ^ 64"
  shows "paid C rate t0 (k + refill_count as) (fold throttle_act as (t, g))
    \<and> last_refill (fst (fold throttle_act as (t, g))) \<le> T"
  using assms
proof (induction as arbitrary: k t g)
  case (Cons a as)
  obtain t' g' where a': "throttle_act a (t, g) = (t', g')" by (cases "throttle_act a (t, g)")
  show ?case
  proof (cases a)
    case (Refill now)
    have "paid C rate t0 (Suc k) (t', g') \<and> last_refill t' \<le> T"
      using paid_refill [OF Cons.prems(1,2), of now] Cons.prems(3,4) a' Refill by simp
    with Cons.IH [of "Suc k" t' g'] Cons.prems(3,4) a' Refill show ?thesis by simp
  next
    case (Consume n)
    have "paid C rate t0 k (t', g')" using paid_consume [OF Cons.prems(1), of n] a' Consume by simp
    moreover have "last_refill t' \<le> T" using a' Consume Cons.prems(2) by (auto simp: consume_def split: if_splits)
    ultimately show ?thesis using Cons.IH [of k t' g'] Cons.prems(3,4) a' Consume by simp
  qed
qed simp

section \<open>Properties\<close>

text \<open>
  C7. No interleaving over-grants: for a fresh bucket and any sequence of refills and consumptions of
  any number of threads whose clock readings end at \<open>T\<close>, the tokens granted are at most the capacity
  plus what the rate earns in the elapsed time, plus, when the rate does not divide a second into
  whole nanoseconds, what it earns in one nanosecond per refill; and the bucket never holds more than
  its capacity.
\<close>

theorem throttle_envelope:
  assumes "capacity \<le> u64_max" and "t0 \<le> T" and "T - t0 < 2 ^ 64" and "list_all (reads_until T) as"
    and "fold throttle_act as (with_clock capacity rate t0, 0) = (t, granted)"
  shows "granted * 1000000000 \<le> capacity * 1000000000 + rate * (T - t0 + drift rate * refill_count as)
    \<and> th_available t \<le> capacity"
proof -
  have "paid capacity rate t0 0 (with_clock capacity rate t0, 0)"
    using assms(1) by (simp add: paid_def with_clock_def throttle_ok_def)
  from paid_run [OF this, of T as] assms have p: "paid capacity rate t0 (refill_count as) (t, granted)" "last_refill t \<le> T"
    by (simp_all add: with_clock_def)
  have "granted * 1000000000 \<le> (granted + th_available t) * 1000000000" by simp
  also have "\<dots> \<le> capacity * 1000000000 + rate * (last_refill t - t0 + drift rate * refill_count as)"
    using p(1) unfolding paid_def prod.case by blast
  also have "\<dots> \<le> capacity * 1000000000 + rate * (T - t0 + drift rate * refill_count as)"
    using p(2) by (intro add_left_mono mult_le_mono2 add_right_mono) simp
  finally show ?thesis using p(1) by (simp add: paid_def throttle_ok_def)
qed

theorem throttle_envelope_witness:
  "\<exists>t granted. fold throttle_act [Consume 8, Consume 1, Refill 500000000, Consume 2] (with_clock 8 4 0, 0) = (t, granted)
     \<and> granted = 10 \<and> granted * 1000000000 \<le> (8 + 2) * (1000000000 :: nat)"
proof -
  let ?as = "[Consume 8, Consume 1, Refill 500000000, Consume 2]"
  obtain t granted where r: "fold throttle_act ?as (with_clock 8 4 0, 0) = (t, granted)" by (meson surj_pair)
  moreover from r have "granted = 10"
    by (auto simp: with_clock_def consume_def refill_def Let_def new_tokens_for_def credited_nanos_def u64_max_def u128_max_def)
  moreover have "drift 4 = 0" by (simp add: drift_def)
  ultimately show ?thesis
    using throttle_envelope [of 8 0 500000000 ?as 4 t granted] by (simp add: u64_max_def)
qed

lemma refill_last:
  assumes "last_refill t \<le> now" shows "last_refill (refill now t) \<le> now"
proof (cases "refill_per_sec t = 0")
  case False
  let ?e = "now - last_refill t" and ?r = "refill_per_sec t"
  let ?new = "min (new_tokens_for ?e ?r) u64_max"
  have "?new * 1000000000 \<le> min (?e * ?r) u128_max"
    unfolding new_tokens_for_def by (meson div_times_less_eq_dividend le_trans min.cobounded1 mult_le_mono1)
  then have "credited_nanos ?new ?r \<le> ?e" using False by (intro credited_bounds(2)) simp_all
  with assms show ?thesis by (auto simp: refill_def Let_def)
qed (simp add: refill_def assms)

text \<open>
  Progress of the wait loop: an unsuccessful turn either adds a token or lets the credit that is not
  yet a whole token grow.
\<close>

definition deficit :: "nat \<Rightarrow> nat \<Rightarrow> throttle \<Rightarrow> nat" where
  "deficit n now t = (n - th_available t) * 1000000001
     + (1000000000 - min 1000000000 ((now - last_refill t) * refill_per_sec t))"

lemma refill_progress:
  assumes ok: "throttle_ok t" and r: "refill_per_sec t > 0" and n: "n \<le> th_capacity t"
    and later: "now < now'" and last: "last_refill t \<le> now"
    and short: "th_available (refill now' t) < n"
  shows "deficit n now' (refill now' t) < deficit n now t \<and> last_refill (refill now' t) \<le> now'"
proof -
  let ?e = "now' - last_refill t" and ?r = "refill_per_sec t"
  define new where "new = min (new_tokens_for ?e ?r) u64_max"
  have le: "last_refill (refill now' t) \<le> now'" using refill_last [of t now'] later last by simp
  show ?thesis
  proof (cases "new_tokens_for ?e ?r = 0")
    case True
    then have same: "refill now' t = t" by (simp add: refill_def Let_def)
    have "min (?e * ?r) u128_max < 1000000000" using True by (simp add: new_tokens_for_def div_eq_0_iff)
    then have lt: "?e * ?r < 1000000000" by (simp add: u128_max_def min_def split: if_splits)
    have "(now - last_refill t) * ?r < ?e * ?r" using later last r by simp
    with lt have "1000000000 - min 1000000000 (?e * ?r) < 1000000000 - min 1000000000 ((now - last_refill t) * ?r)"
      by (simp only: min_def split: if_split) linarith
    then have "deficit n now' t < deficit n now t" unfolding deficit_def by (rule add_strict_left_mono)
    with same le show ?thesis by simp
  next
    case False
    then have "0 < new" by (simp add: new_def u64_max_def)
    moreover have "th_available (refill now' t) = min (min (th_available t + new) u64_max) (th_capacity t)"
      using False r by (simp add: refill_def Let_def new_def)
    ultimately have "th_available t < th_available (refill now' t)"
      using ok n short by (auto simp: throttle_ok_def)
    then have "Suc (n - th_available (refill now' t)) \<le> n - th_available t" using short by linarith
    then have "Suc (n - th_available (refill now' t)) * 1000000001 \<le> (n - th_available t) * 1000000001"
      by (rule mult_le_mono1)
    then have "deficit n now' (refill now' t) < deficit n now t"
      unfolding deficit_def mult_Suc by linarith
    with le show ?thesis by simp
  qed
qed

lemma wait_positive: "0 < wait_nanos n t"
  by (simp add: wait_nanos_def Let_def)

lemma acquire_loop_returns:
  assumes "\<And>now d. now + d \<le> wake now d"
    and "throttle_ok t" and "refill_per_sec t > 0" and "0 < n" and "n \<le> th_capacity t" and "last_refill t \<le> now"
  shows "\<exists>now' t'. acquire_loop wake n now t = Some (now', t') \<and> now < now' \<and> throttle_ok t'
    \<and> th_available t' + n \<le> th_capacity t"
  using assms(2-)
proof (induction "deficit n now t" arbitrary: now t rule: less_induct)
  case less
  define now' where "now' = wake now (wait_nanos n t)"
  have later: "now < now'" using assms(1) [of now "wait_nanos n t"] wait_positive [of n t] by (simp add: now'_def)
  let ?t = "refill now' t"
  have ok: "throttle_ok ?t" using less.prems(1) by (rule refill_ok)
  have step: "acquire_loop wake n now t =
      (if th_available ?t < n then acquire_loop wake n now' ?t
       else Some (now', ?t\<lparr>th_available := th_available ?t - n\<rparr>))"
    using less.prems(3,4) by (subst acquire_loop.simps) (simp add: now'_def Let_def try_acquire_def consume_def)
  show ?case
  proof (cases "th_available ?t < n")
    case True
    note pr = refill_progress [OF less.prems(1,2,4) later less.prems(5) True]
    have "\<exists>now'' t'. acquire_loop wake n now' ?t = Some (now'', t') \<and> now' < now'' \<and> throttle_ok t'
        \<and> th_available t' + n \<le> th_capacity ?t"
      using pr less.prems(2-4) by (intro less.hyps ok) simp_all
    then obtain now'' t' where
      "acquire_loop wake n now' ?t = Some (now'', t')" "now' < now''" "throttle_ok t'" "th_available t' + n \<le> th_capacity t"
      by auto
    with step True later show ?thesis by auto
  next
    case False
    then have "acquire_loop wake n now t = Some (now', ?t\<lparr>th_available := th_available ?t - n\<rparr>)"
      using step by simp
    with later False ok show ?thesis by (auto simp: throttle_ok_def)
  qed
qed



section \<open>Fast rates\<close>

text \<open>
  A rate above one token per nanosecond that does not divide evenly is credited without advancing the
  refill instant: with the clock standing still one nanosecond after the start, every refill adds a
  token.
\<close>

lemma frozen_clock_refills:
  "refill 1 \<lparr>th_capacity = 8, refill_per_sec = 1500000000, th_available = k, last_refill = 0\<rparr> =
     \<lparr>th_capacity = 8, refill_per_sec = 1500000000, th_available = k + 1, last_refill = 0\<rparr>" if "k < 8"
  using that by (simp add: refill_def Let_def new_tokens_for_def credited_nanos_def u64_max_def u128_max_def)

end
