(* ===== verification/Vclock.thy ===== *)
theory Vclock
  imports Join_Lattice "HOL-Library.List_Lexorder"
begin

text \<open>
  The version vector of \<open>crates/dyniak/src/vclock.rs\<close>: a map from actor bytes to a 64-bit counter
  with saturating increment, element-wise maximum, causal comparison and a length-prefixed wire
  form.  Comparison is related to pointwise dominance, merging is shown to be the least upper bound
  of that order, and the wire form to decode to the vector it encodes.
\<close>

section \<open>The vector\<close>

record vclock =
  vc_entries :: "(bytes, u64) btmap"

definition vc_new :: vclock where
  "vc_new = \<lparr>vc_entries = []\<rparr>"

definition vc_advance :: "bytes \<Rightarrow> vclock \<Rightarrow> vclock" where
  "vc_advance actor vc = \<lparr>vc_entries = bt_entry actor 0 (\<lambda>c. saturating_add c 1) (vc_entries vc)\<rparr>"

definition vc_merge :: "vclock \<Rightarrow> vclock \<Rightarrow> vclock" where
  "vc_merge self other =
     \<lparr>vc_entries = bt_join (\<lambda>_. 0) (\<lambda>e n. if e < n then n else e) (vc_entries self) (vc_entries other)\<rparr>"

text \<open>The loop over the keys of both vectors, with its two flags.\<close>

definition cmp_step :: "vclock \<Rightarrow> vclock \<Rightarrow> bytes \<Rightarrow> bool \<times> bool \<Rightarrow> bool \<times> bool" where
  "cmp_step self other actor flags =
     (let a = bt_get_or 0 (vc_entries self) actor; b = bt_get_or 0 (vc_entries other) actor in
      case compare_of a b of
        Greater \<Rightarrow> (True, snd flags)
      | Less \<Rightarrow> (fst flags, True)
      | Equal \<Rightarrow> flags)"

definition vc_partial_cmp :: "vclock \<Rightarrow> vclock \<Rightarrow> ordering option" where
  "vc_partial_cmp self other =
     (case fold (cmp_step self other) (map fst (vc_entries self) @ map fst (vc_entries other)) (False, False) of
        (False, False) \<Rightarrow> Some Equal
      | (True, False) \<Rightarrow> Some Greater
      | (False, True) \<Rightarrow> Some Less
      | (True, True) \<Rightarrow> None)"

section \<open>Wire form\<close>

definition vc_encode_entry :: "bytes \<times> u64 \<Rightarrow> bytes" where
  "vc_encode_entry e = u32_to_be (u32_of_len (length (fst e))) @ fst e @ u64_to_be (snd e)"

definition vc_encode :: "vclock \<Rightarrow> bytes" where
  "vc_encode vc = (if vc_entries vc = [] then []
     else u32_to_be (u32_of_len (length (vc_entries vc))) @ concat (map vc_encode_entry (vc_entries vc)))"

text \<open>The closures \<open>read_u32\<close> and \<open>read_u64\<close>: the value and the advanced position.\<close>

definition read_u32 :: "bytes \<Rightarrow> nat \<Rightarrow> (u32 \<times> nat) option" where
  "read_u32 b pos = (case usize_add pos 4 of
     None \<Rightarrow> None
   | Some e \<Rightarrow> if e > length b then None else Some (u32_from_be (slice b pos e), e))"

definition read_u64 :: "bytes \<Rightarrow> nat \<Rightarrow> (u64 \<times> nat) option" where
  "read_u64 b pos = (case usize_add pos 8 of
     None \<Rightarrow> None
   | Some e \<Rightarrow> if e > length b then None else Some (u64_from_be (slice b pos e), e))"

text \<open>\<open>for _ in 0..count\<close>: every early return keeps the entries read so far.\<close>

primrec vc_decode_loop :: "nat \<Rightarrow> bytes \<Rightarrow> nat \<Rightarrow> vclock \<Rightarrow> vclock" where
  "vc_decode_loop 0 b pos vc = vc"
| "vc_decode_loop (Suc n) b pos vc =
     (case read_u32 b pos of
        None \<Rightarrow> vc
      | Some (alen, pos) \<Rightarrow>
          (case usize_add pos (unat alen) of
             None \<Rightarrow> vc
           | Some e \<Rightarrow>
               if e > length b then vc
               else
                 (case read_u64 b e of
                    None \<Rightarrow> vc
                  | Some (counter, pos') \<Rightarrow>
                      vc_decode_loop n b pos'
                        \<lparr>vc_entries = bt_insert (slice b pos e) counter (vc_entries vc)\<rparr>)))"

definition vc_decode :: "bytes \<Rightarrow> vclock" where
  "vc_decode b =
     (if b = [] then vc_new
      else case read_u32 b 0 of
        None \<Rightarrow> vc_new
      | Some (count, pos) \<Rightarrow> vc_decode_loop (unat count) b pos vc_new)"

section \<open>Invariant and pointwise order\<close>

definition vc_ok :: "vclock \<Rightarrow> bool" where
  "vc_ok vc = bt_sorted (vc_entries vc)"

abbreviation vc_get :: "vclock \<Rightarrow> bytes \<Rightarrow> u64" where
  "vc_get vc actor \<equiv> bt_get_or 0 (vc_entries vc) actor"

definition vc_le :: "vclock \<Rightarrow> vclock \<Rightarrow> bool" where
  "vc_le a b \<longleftrightarrow> (\<forall>k. vc_get a k \<le> vc_get b k)"

lemma vc_ok_ops [bt_intros]:
  "vc_ok vc_new"
  "vc_ok a \<Longrightarrow> vc_ok (vc_advance k a)"
  "vc_ok a \<Longrightarrow> vc_ok (vc_merge a b)"
  by (auto simp: vc_ok_def vc_new_def vc_advance_def vc_merge_def intro: bt_intros)

lemma vc_get_advance:
  "vc_ok a \<Longrightarrow> vc_get (vc_advance k a) k' = (if k' = k then saturating_add (vc_get a k) 1 else vc_get a k')"
  by (simp add: vc_advance_def vc_ok_def bt_get_or_def map_of_bt_entry)

lemma vc_get_merge: "vc_ok a \<Longrightarrow> vc_ok b \<Longrightarrow> vc_get (vc_merge a b) k = max (vc_get a k) (vc_get b k)"
  by (auto simp: vc_merge_def vc_ok_def bt_get_or_def map_of_bt_join max_def word_gt_0
      split: option.split)

lemma vc_get_present: "n < vc_get a k \<Longrightarrow> k \<in> fst ` set (vc_entries a)"
  by (cases "map_of (vc_entries a) k") (force simp: bt_get_or_def dest!: map_of_SomeD)+

interpretation vcj: keyed_join "\<lambda>_ _. True" "\<lambda>_. 0 :: u64" "\<lambda>e n. if e < n then n else e"
  by unfold_locales (auto simp: not_less)

interpretation vc: join_semilattice vc_ok vc_merge
proof
  fix a b c :: vclock
  have all: "bt_all (\<lambda>_ _. True) m = bt_sorted m" for m :: "(bytes, u64) btmap"
    by (simp add: bt_all_def)
  note j = vcj.jm.join_assoc vcj.jm.join_comm vcj.jm.join_idem
  assume a: "vc_ok a"
  then show "vc_merge a a = a" using j(3) [of "vc_entries a"] by (simp add: vc_merge_def vc_ok_def all)
  assume b: "vc_ok b"
  show "vc_ok (vc_merge a b)" using a by (rule vc_ok_ops)
  show "vc_merge a b = vc_merge b a"
    using a b j(2) [of "vc_entries a" "vc_entries b"] by (simp add: vc_merge_def vc_ok_def all)
  assume c: "vc_ok c"
  show "vc_merge (vc_merge a b) c = vc_merge a (vc_merge b c)"
    using a b c j(1) [of "vc_entries a" "vc_entries b" "vc_entries c"]
    by (simp add: vc_merge_def vc_ok_def all)
qed

section \<open>Causal comparison\<close>

lemma cmp_loop:
  "fold (cmp_step a b) ks (p, q) =
     (p \<or> (\<exists>k \<in> set ks. vc_get a k > vc_get b k), q \<or> (\<exists>k \<in> set ks. vc_get a k < vc_get b k))"
  by (induction ks arbitrary: p q) (auto simp: cmp_step_def Let_def compare_of_def)

lemma vc_partial_cmp_le:
  "vc_partial_cmp a b =
     (if vc_le a b then (if vc_le b a then Some Equal else Some Less)
      else if vc_le b a then Some Greater else None)"
proof -
  let ?ks = "map fst (vc_entries a) @ map fst (vc_entries b)"
  have gt: "(\<exists>k \<in> set ?ks. vc_get a k > vc_get b k) \<longleftrightarrow> \<not> vc_le a b"
    using vc_get_present [of _ a] by (force simp: vc_le_def not_le)
  have lt: "(\<exists>k \<in> set ?ks. vc_get a k < vc_get b k) \<longleftrightarrow> \<not> vc_le b a"
    using vc_get_present [of _ b] by (force simp: vc_le_def not_le)
  show ?thesis unfolding vc_partial_cmp_def cmp_loop gt lt by simp
qed

text \<open>
  C12. The comparison is the causal partial order: it answers \<open>Less\<close>, \<open>Equal\<close> or \<open>Greater\<close> exactly
  when the first vector is pointwise below, equal to or above the second, and \<open>None\<close> exactly when
  neither dominates; and merging two well-formed vectors gives the least vector above both.
\<close>

theorem vc_causal_order:
  assumes "vc_ok a" and "vc_ok b"
  shows "(vc_partial_cmp a b = Some Less \<longleftrightarrow> vc_le a b \<and> \<not> vc_le b a)
    \<and> (vc_partial_cmp a b = Some Greater \<longleftrightarrow> vc_le b a \<and> \<not> vc_le a b)
    \<and> (vc_partial_cmp a b = Some Equal \<longleftrightarrow> (\<forall>k. vc_get a k = vc_get b k))
    \<and> (vc_partial_cmp a b = None \<longleftrightarrow> \<not> vc_le a b \<and> \<not> vc_le b a)
    \<and> vc_le a (vc_merge a b) \<and> vc_le b (vc_merge a b)
    \<and> (\<forall>c. vc_le a c \<longrightarrow> vc_le b c \<longrightarrow> vc_le (vc_merge a b) c)"
proof -
  have "(vc_le a b \<and> vc_le b a) \<longleftrightarrow> (\<forall>k. vc_get a k = vc_get b k)"
    by (auto simp: vc_le_def order.antisym)
  moreover have "vc_le a (vc_merge a b)" "vc_le b (vc_merge a b)"
    "\<forall>c. vc_le a c \<longrightarrow> vc_le b c \<longrightarrow> vc_le (vc_merge a b) c"
    using assms by (auto simp: vc_le_def vc_get_merge)
  ultimately show ?thesis by (auto simp: vc_partial_cmp_le)
qed

lemma vc_advance_new: "vc_get (vc_advance k vc_new) k' = (if k' = k then 1 else 0)"
  by (simp add: vc_get_advance vc_ok_ops) (simp add: bt_get_or_def vc_new_def saturating_add_def)

theorem vc_causal_order_witness:
  "vc_partial_cmp (vc_advance [1] vc_new) (vc_advance [2] vc_new) = None"
proof -
  let ?a = "vc_advance [1] vc_new" and ?b = "vc_advance [2] vc_new"
  have "vc_ok ?a" "vc_ok ?b" by (simp_all add: vc_ok_ops)
  from vc_causal_order [OF this] show ?thesis by (simp add: vc_le_def vc_advance_new)
qed

text \<open>
  C27. A coordinated write strictly descends from the context it was given, and two writes that
  different actors coordinate from one context are concurrent, so neither silently supersedes the
  other.  (The counters saturate, hence the bound.)
\<close>

theorem vc_writes_ordered:
  assumes "vc_ok a" and "vc_get a k < - 1" and "vc_get a k' < - 1" and "k \<noteq> k'"
  shows "vc_partial_cmp a (vc_advance k a) = Some Less
    \<and> vc_partial_cmp (vc_advance k a) (vc_advance k' a) = None
    \<and> vc_partial_cmp (vc_advance k' a) (vc_merge (vc_advance k a) (vc_advance k' a)) = Some Less"
proof -
  have sat: "c < saturating_add c 1" if "c < - 1" for c :: u64
    using that by (rule saturating_add_1_less)
  have ok: "vc_ok (vc_advance k a)" "vc_ok (vc_advance k' a)" using assms by (auto intro: bt_intros)
  note g = vc_get_advance [OF assms(1)] vc_get_merge [OF ok]
  have lt: "vc_get a k < saturating_add (vc_get a k) 1" "vc_get a k' < saturating_add (vc_get a k') 1"
    using assms(2,3) sat by auto
  have 1: "vc_le a (vc_advance k a)" "\<not> vc_le (vc_advance k a) a"
    using lt by (auto simp: vc_le_def g not_le intro: exI [of _ k])
  have 2: "\<not> vc_le (vc_advance k a) (vc_advance k' a)" "\<not> vc_le (vc_advance k' a) (vc_advance k a)"
    using lt assms(4) by (auto simp: vc_le_def g not_le intro: exI [of _ k] exI [of _ k'])
  have "vc_le (vc_advance k' a) (vc_merge (vc_advance k a) (vc_advance k' a))"
    by (simp add: vc_le_def g(2))
  moreover have "\<not> vc_le (vc_merge (vc_advance k a) (vc_advance k' a)) (vc_advance k' a)"
    using 2(1) by (auto simp: vc_le_def g(2))
  ultimately show ?thesis using 1 2 by (simp add: vc_partial_cmp_le)
qed

theorem vc_writes_ordered_witness:
  "vc_partial_cmp (vc_advance [1] vc_new) (vc_advance [2] vc_new) = None"
  using vc_writes_ordered [OF vc_ok_ops(1), of "[1]" "[2]"] by (simp add: bt_get_or_def vc_new_def word_gt_0)

section \<open>Decoding\<close>

lemma read_u32_mid:
  assumes "length pre + 4 < 2 ^ 64"
  shows "read_u32 (pre @ u32_to_be w @ post) (length pre) = Some (w, length pre + 4)"
  using assms by (simp add: read_u32_def del: be_bytes.simps)

lemma read_u64_mid:
  assumes "length pre + 8 < 2 ^ 64"
  shows "read_u64 (pre @ u64_to_be w @ post) (length pre) = Some (w, length pre + 8)"
  using assms by (simp add: read_u64_def del: be_bytes.simps)

lemma vc_decode_loop_entry:
  assumes "length k < 2 ^ 32" and "length (pre @ vc_encode_entry (k, c)) < 2 ^ 64"
  shows "vc_decode_loop (Suc n) (pre @ vc_encode_entry (k, c) @ post) (length pre) vc =
    vc_decode_loop n (pre @ vc_encode_entry (k, c) @ post) (length (pre @ vc_encode_entry (k, c)))
      \<lparr>vc_entries = bt_insert k c (vc_entries vc)\<rparr>"
proof -
  let ?w = "u32_of_len (length k)"
  let ?b = "pre @ vc_encode_entry (k, c) @ post"
  have b1: "?b = pre @ u32_to_be ?w @ k @ u64_to_be c @ post"
    and b2: "?b = (pre @ u32_to_be ?w) @ k @ u64_to_be c @ post"
    and b3: "?b = (pre @ u32_to_be ?w @ k) @ u64_to_be c @ post"
    by (simp_all add: vc_encode_entry_def del: be_bytes.simps)
  have len: "length pre + 4 + length k + 8 < 2 ^ 64"
    using assms(2) by (simp add: vc_encode_entry_def del: be_bytes.simps)
  have r1: "read_u32 ?b (length pre) = Some (?w, length pre + 4)"
    unfolding b1 using len by (intro read_u32_mid) simp
  have sl: "slice ?b (length pre + 4) (length pre + 4 + length k) = k"
    unfolding b2 using slice_mid [of "pre @ u32_to_be ?w" k] by (simp del: be_bytes.simps)
  have r2: "read_u64 ?b (length pre + 4 + length k) = Some (c, length pre + 4 + length k + 8)"
    unfolding b3 using read_u64_mid [of "pre @ u32_to_be ?w @ k" c post] len
    by (simp del: be_bytes.simps add: add.assoc)
  have le: "length pre + 4 + length k \<le> length ?b" and e: "length pre + 4 + length k + 8 = length (pre @ vc_encode_entry (k, c))"
    by (simp_all add: vc_encode_entry_def del: be_bytes.simps)
  show ?thesis
    using assms(1) len le unfolding e [symmetric] by (simp add: r1 r2 sl del: be_bytes.simps)
qed

lemma vc_decode_loop_entries:
  assumes "\<forall>e \<in> set es. length (fst e) < 2 ^ 32" and "length (pre @ concat (map vc_encode_entry es)) < 2 ^ 64"
  shows "vc_decode_loop (length es) (pre @ concat (map vc_encode_entry es)) (length pre) vc =
    \<lparr>vc_entries = fold (\<lambda>(k, v). bt_insert k v) es (vc_entries vc)\<rparr>"
  using assms
proof (induction es arbitrary: pre vc)
  case Nil
  then show ?case by simp
next
  case (Cons e es)
  obtain k c where e: "e = (k, c)" by (cases e)
  let ?rest = "concat (map vc_encode_entry es)"
  have "vc_decode_loop (length (e # es)) (pre @ concat (map vc_encode_entry (e # es))) (length pre) vc =
      vc_decode_loop (length es) ((pre @ vc_encode_entry (k, c)) @ ?rest) (length (pre @ vc_encode_entry (k, c)))
        \<lparr>vc_entries = bt_insert k c (vc_entries vc)\<rparr>"
    using vc_decode_loop_entry [of k pre c "length es" ?rest vc] Cons.prems e by simp
  also have "\<dots> = \<lparr>vc_entries = fold (\<lambda>(k, v). bt_insert k v) es (bt_insert k c (vc_entries vc))\<rparr>"
    using Cons.prems e by (subst Cons.IH) auto
  finally show ?case by (simp add: e)
qed

text \<open>
  C34. The wire form loses nothing: decoding the encoding of a well-formed vector gives the vector
  back, for any number of entries and any actor length that the 32-bit length fields can express.
\<close>

theorem vc_codec_roundtrip:
  assumes "vc_ok vc" and "length (vc_entries vc) < 2 ^ 32"
    and "\<forall>e \<in> set (vc_entries vc). length (fst e) < 2 ^ 32" and "length (vc_encode vc) < 2 ^ 64"
  shows "vc_decode (vc_encode vc) = vc"
proof (cases "vc_entries vc = []")
  case True
  then show ?thesis by (simp add: vc_encode_def vc_decode_def vc_new_def)
next
  case False
  let ?h = "u32_to_be (u32_of_len (length (vc_entries vc)))"
  have b: "vc_encode vc = ?h @ concat (map vc_encode_entry (vc_entries vc))"
    using False by (simp add: vc_encode_def)
  then have ne: "vc_encode vc \<noteq> []"
    by (metis append_is_Nil_conv length_be_bytes list.size(3) zero_neq_numeral)
  have "read_u32 (vc_encode vc) 0 = Some (u32_of_len (length (vc_entries vc)), length ?h)"
    using read_u32_mid [of "[]"] by (simp add: b del: be_bytes.simps)
  then have "vc_decode (vc_encode vc) = vc_decode_loop (length (vc_entries vc)) (vc_encode vc) (length ?h) vc_new"
    using ne assms(2) by (simp add: vc_decode_def del: be_bytes.simps)
  also have "\<dots> = \<lparr>vc_entries = fold (\<lambda>(k, v). bt_insert k v) (vc_entries vc) []\<rparr>"
    using assms(3,4) unfolding b by (subst vc_decode_loop_entries) (auto simp: vc_new_def)
  also have "\<dots> = vc" using assms(1) by (simp add: vc_ok_def bt_rebuild)
  finally show ?thesis .
qed

theorem vc_codec_roundtrip_witness:
  "vc_decode (vc_encode \<lparr>vc_entries = [([1, 2], 5), ([3], 7)]\<rparr>) = \<lparr>vc_entries = [([1, 2], 5), ([3], 7)]\<rparr>"
  by (rule vc_codec_roundtrip)
    (simp_all add: vc_ok_def bt_sorted_def vc_encode_def vc_encode_entry_def del: be_bytes.simps)

text \<open>
  A truncated input is not mapped to the empty vector: the entries before the cut survive.
\<close>

lemma vc_decode_truncated:
  "vc_decode (take 18 (vc_encode \<lparr>vc_entries = [([1, 2], 5), ([3], 7)]\<rparr>)) = \<lparr>vc_entries = [([1, 2], 5)]\<rparr>"
proof -
  let ?h = "u32_to_be 2" and ?e = "vc_encode_entry ([1, 2], 5)"
  have len: "length ?e = 14" by (simp add: vc_encode_entry_def del: be_bytes.simps)
  have b: "take 18 (vc_encode \<lparr>vc_entries = [([1, 2], 5), ([3], 7)]\<rparr>) = ?h @ ?e @ []"
    by (simp add: vc_encode_def u32_of_len_def len del: be_bytes.simps)
  have hd: "read_u32 (?h @ ?e @ []) 0 = Some (2, length ?h)"
    using read_u32_mid [of "[]" 2 "?e @ []"] by (simp del: be_bytes.simps)
  have "vc_decode_loop (Suc (Suc 0)) (?h @ ?e @ []) (length ?h) vc_new = \<lparr>vc_entries = [([1, 2], 5)]\<rparr>"
    by (subst vc_decode_loop_entry)
      (simp_all add: len vc_new_def read_u32_def del: be_bytes.simps)
  moreover have "unat (2 :: u32) = Suc (Suc 0)" by simp
  moreover have "?h @ ?e @ [] \<noteq> []" using len by auto
  ultimately show ?thesis
    unfolding b vc_decode_def hd by (simp only: option.case prod.case if_False)
qed

end
