(* ===== verification/Spec2Isabelle.thy ===== *)
theory Spec2Isabelle
  imports Apl Auto_Eject Capability Coverage Crdt_Behaviour Crdt_Map Dnode Hlc Itc_Causality Quorum Swim Throttle Vclock
begin

text \<open>
  A verification development for the Dynomite/Dyniak engine: a peer-to-peer replication layer for
  key-value stores (\<open>crates/dynomite\<close>) with a Riak-compatible data service on top of it
  (\<open>crates/dyniak\<close>) and a set of supporting crates.  The theories translate the parts of the
  program that compute (data types, codecs, parsers, hashes, placement, quorum and protocol state
  machines) and prove what makes them correct.

  \<^bold>\<open>How the source is modelled.\<close>  A struct is a \<open>record\<close>, an enum a \<open>datatype\<close>, \<open>u8\<close> to \<open>u64\<close> are
  words of that width with wrap-around, saturation and checked operations written out, \<open>usize\<close> is
  \<open>nat\<close>.  A method that mutates \<open>self\<close> is a function to the updated record.  \<open>Result\<close> is a sum with
  the error on the left, \<open>Option\<close> is \<open>option\<close>, and a panic (a failed assertion or \<open>expect\<close>) is
  \<open>None\<close>; plain additions wrap, as in the release profile.  A \<open>BTreeMap\<close> is its key-ordered entry list,
  and so are the two hash maps of \<open>Capability\<close>, whose iteration order no result depends on.
  \<open>Throttle\<close> mixes 64- and 128-bit arithmetic and uses naturals with the saturation written out.
  Loops are structural recursions
  or functions with a termination proof, except the wait loop of \<open>Throttle\<close>; no definition needs fuel.  Readings of clocks, randomness
  and floating-point results are arguments of the definitions.

  \<^bold>\<open>Foundations.\<close>
  \<^item> \<open>Prelude\<close>: machine integers, orderings, saturating and checked arithmetic, byte order, stable
    sorting, slices.  \<open>Ascii\<close>: decimal text.  \<open>BTree\<close>: ordered maps and sets.
  \<^item> \<open>Join_Lattice\<close>: the interface of state-based replicated data (\<open>join_semilattice\<close>,
    \<open>keyed_join\<close>), with convergence of replicas proved once.
  \<^item> \<open>Ring_Order\<close>: the interface of ring coordinates (\<open>ring_order\<close>) and bisection.

  \<^bold>\<open>Replicated data\<close> (\<open>crates/dyniak/src/datatypes\<close>, \<open>vclock.rs\<close>).
  \<^item> \<open>Crdt_Types\<close>, \<open>Crdt_Behaviour\<close>: counter, flag, register and set; every merge is a join, and
    each type has the behaviour it is documented with (sum of deltas, enable wins, last write wins,
    add wins).
  \<^item> \<open>Crdt_Map\<close>: the nested map; replicas converge, and updates win over concurrent removes.
  \<^item> \<open>Vclock\<close>: version vectors are the pointwise order; codec round trip.  \<open>Hlc\<close>: hybrid logical
    clocks respect causality in every execution; packed forms keep the order.

  \<^bold>\<open>Quorums\<close>: \<open>Quorum\<close> models \<open>dyniak/src/quorum.rs\<close> and \<open>dynomite/src/msg/response_mgr.rs\<close>;
  resolved knobs are in range and the response manager implements the majority rule.

  \<^bold>\<open>Placement\<close> (\<open>crates/dynomite/src/hashkit\<close>, \<open>cluster/datacenter.rs\<close>, \<open>cluster/vnode.rs\<close>).
  \<^item> \<open>Token\<close>: ring tokens, their total preorder and parser.  \<open>Hash_Crc\<close>, \<open>Hash_Mix\<close>,
    \<open>Hash_Murmur3\<close>, \<open>Md5\<close>: the hash functions; CRCs equal bit-serial division, MD5 is RFC 1321,
    the MurmurHash3 finalisers are injective.
  \<^item> \<open>Hashkit\<close>: algorithm dispatch, modula and ketama continua.  \<open>Random_Slicing\<close>: gap-free
    partitions of the hash space.  \<open>Ring\<close>: racks, datacenters, rebuild and lookup.

  \<^bold>\<open>Wire\<close>.
  \<^item> \<open>Mbuf\<close> (\<open>io/mbuf.rs\<close>): chunks are bounded byte queues (interface \<open>byte_fifo\<close>); pool.
  \<^item> \<open>Dnode\<close> (\<open>proto/dnode.rs\<close>): header encoder and streaming parser; round trip, independence
    of read boundaries, bounded buffering.

  \<^item> \<open>Capability\<close> (\<open>cluster/capability\<close> and the handshake of \<open>proto/dnode.rs\<close>): advertisements,
    registry and negotiation over the interface \<open>max_common\<close>; the codec loses nothing and two
    nodes settle on the greatest common value.

  \<^bold>\<open>Membership and admission.\<close>
  \<^item> \<open>Swim\<close> (\<open>cluster/swim.rs\<close>): the SWIM and Lifeguard state machine over executions of probes,
    updates and ticks; an unrefuted suspicion is confirmed within a bound computed from the
    configuration, a refutation wins, and an unaccused member stays routable.
  \<^item> \<open>Throttle\<close> (\<open>crates/throttle-core\<close>): the token bucket; no interleaving over-grants beyond a
    stated rounding, and a blocked acquisition returns.  Its wait loop is a partial function and is
    shown to return, assuming that a sleep lasts at least as long as asked.
  \<^item> \<open>Coverage\<close> (\<open>cluster/coverage.rs\<close>): the check of a configuration's tokens; which configurations
    pass, and that a ring rebuilt from one that passes routes every token.
  \<^item> \<open>Auto_Eject\<close> (\<open>net/auto_eject.rs\<close>): the failure tracker, a refinement of the length and the
    end of the current failure streak.
  \<^item> \<open>Apl\<close> (\<open>cluster/apl.rs\<close>): annotated preference lists; which peers are primaries, which stand in
    for them, and that none appears twice.

  \<^bold>\<open>Not modelled.\<close>  Sockets, TLS and QUIC, the task runtime, file and database engines, logging,
  metrics export, command-line tools, benchmarks and test harnesses are input and output around
  the modelled parts.  The cryptographic primitives, compression, WebAssembly, and the storage
  engine are third-party packages.  Vector and full-text search rank with floating-point scores.
\<close>

end
